(* ===== verification/Prelude.thy ===== *)
theory Prelude
  imports "HOL-Library.Word"
begin

text \<open>
  Shared vocabulary of the development: the integer and pointer types of
  \<^verbatim>\<open>orderbook/software/common/types.hpp\<close>, the collections of simplification
  rules the component theories add to, and the generic facts on lists and
  cyclic indices that several components use.

  Machine integers keep their width where the code lets them wrap
  (\<^verbatim>\<open>Quantity\<close>, identifiers, counters).  \<^verbatim>\<open>Price\<close> is a signed 64-bit value on which
  the code only compares and converts; it is an \<open>int\<close>, and every conversion is
  written out.  \<^verbatim>\<open>std::size_t\<close> indices and sizes, all bounded by array
  capacities, are \<open>nat\<close>.

  An operation that can run into undefined behaviour (an access outside a
  \<^verbatim>\<open>std::array\<close>, a null dereference) or that may fail to return has an
  \<open>option\<close> result in which \<open>None\<close> stands for exactly that; results the code
  itself reports (a \<^verbatim>\<open>bool\<close>, a null pointer, an empty \<^verbatim>\<open>std::optional\<close>) are values.
\<close>

unbundle bit_operations_syntax

text \<open>The definitions that one step of a state machine unfolds to.\<close>

named_theorems step_simps

type_synonym u8 = "8 word"
type_synonym u16 = "16 word"
type_synonym u32 = "32 word"
type_synonym u64 = "64 word"

datatype Side = Buy | Sell

type_synonym OrderId = u64
type_synonym Price = int
type_synonym Quantity = u32
type_synonym AccountId = u64
type_synonym Symbol = "u8 list"

text \<open>Addresses of \<^verbatim>\<open>Order\<close> objects; a nullable \<^verbatim>\<open>Order*\<close> is a \<open>ptr option\<close>.\<close>

type_synonym ptr = nat

section \<open>Sides\<close>

fun opposite :: "Side \<Rightarrow> Side" where
  "opposite Buy = Sell"
| "opposite Sell = Buy"

lemma opposite_opposite [simp]: "opposite (opposite s) = s"
  by (cases s) auto

lemma opposite_neq [simp]: "opposite s \<noteq> s" "s \<noteq> opposite s"
  by (cases s; simp)+

lemma Side_neq_iff [simp]: "s \<noteq> Buy \<longleftrightarrow> s = Sell" "s \<noteq> Sell \<longleftrightarrow> s = Buy"
  by (cases s; simp)+

instantiation Side :: enum
begin

definition enum_Side :: "Side list" where
  "enum_Side = [Buy, Sell]"

definition enum_all_Side :: "(Side \<Rightarrow> bool) \<Rightarrow> bool" where
  "enum_all_Side P \<longleftrightarrow> P Buy \<and> P Sell"

definition enum_ex_Side :: "(Side \<Rightarrow> bool) \<Rightarrow> bool" where
  "enum_ex_Side P \<longleftrightarrow> P Buy \<or> P Sell"

instance
proof
  show "UNIV = set (enum_class.enum :: Side list)" by (auto simp: enum_Side_def)
  show "enum_class.enum_all P \<longleftrightarrow> Ball UNIV P" for P :: "Side \<Rightarrow> bool"
    by (simp add: enum_all_Side_def) (metis Side.exhaust)
  show "enum_class.enum_ex P \<longleftrightarrow> Bex UNIV P" for P :: "Side \<Rightarrow> bool"
    by (simp add: enum_ex_Side_def) (metis Side.exhaust)
qed (simp add: enum_Side_def)

end

lemma UNIV_Side: "(UNIV :: Side set) = {Buy, Sell}"
  by (simp add: UNIV_enum enum_Side_def)

lemma ex_Side: "(\<exists>s. P s) \<longleftrightarrow> P Buy \<or> P Sell"
  unfolding bex_UNIV[symmetric] UNIV_Side by simp

section \<open>Cyclic indices\<close>

text \<open>Advancing an index by one and then by \<open>d\<close> steps around a ring of \<open>c\<close> slots.\<close>

lemma cyc_Suc: "((b + d) mod c + 1) mod c = (b + Suc d) mod (c::nat)"
  by (simp add: mod_Suc_eq)

lemma cyc_inj_le:
  assumes "d \<le> e" "e < c" "(b + e) mod c = (b + d) mod (c::nat)"
  shows "d = e"
proof -
  have "c dvd e - d"
    using assms mod_eq_dvd_iff_nat[of "b + d" "b + e" c] by simp
  then show ?thesis
    using dvd_imp_le[of c "e - d"] assms(1,2) by linarith
qed

lemma cyc_inj:
  assumes "d < c" "e < c" "(b + d) mod c = (b + e) mod (c::nat)"
  shows "d = e"
proof (cases "d \<le> e")
  case True
  from cyc_inj_le[OF this assms(2) assms(3)[symmetric]] show ?thesis .
next
  case False
  then have "e \<le> d" by simp
  from cyc_inj_le[OF this assms(1) assms(3)] show ?thesis ..
qed

lemma cyc_surj:
  assumes "i < (c::nat)"
  shows "\<exists>d<c. i = (b + d) mod c"
proof -
  let ?d = "(i + c - b mod c) mod c"
  have "b mod c < c" using assms by (intro mod_less_divisor) auto
  then have "(b + ?d) mod c = (b mod c + (i + c - b mod c)) mod c"
    by (metis mod_add_eq mod_mod_trivial)
  also have "\<dots> = (i + c) mod c"
    using \<open>b mod c < c\<close> by simp
  also have "\<dots> = i" using assms by simp
  finally show ?thesis using assms by (intro exI[of _ ?d]) auto
qed

section \<open>Loops over a sequence of steps that may fail\<close>

fun fold_opt :: "('e \<Rightarrow> 's \<Rightarrow> 's option) \<Rightarrow> 'e list \<Rightarrow> 's \<Rightarrow> 's option" where
  "fold_opt f [] s = Some s"
| "fold_opt f (x # xs) s = Option.bind (f x s) (fold_opt f xs)"

lemma fold_opt_append: "fold_opt f (xs @ ys) s = Option.bind (fold_opt f xs s) (fold_opt f ys)"
  by (induction xs arbitrary: s) (auto split: bind_splits)

lemma fold_opt_inv:
  assumes "P s" "\<And>x s. x \<in> set xs \<Longrightarrow> P s \<Longrightarrow> \<exists>s'. f x s = Some s' \<and> P s'"
  shows "\<exists>s'. fold_opt f xs s = Some s' \<and> P s'"
  using assms
proof (induction xs arbitrary: s)
  case (Cons x xs)
  then obtain s' where "f x s = Some s'" "P s'" by (meson list.set_intros(1))
  moreover have "\<exists>s''. fold_opt f xs s' = Some s'' \<and> P s''"
    by (rule Cons.IH) (use Cons.prems \<open>P s'\<close> in auto)
  ultimately show ?case by simp
qed simp

section \<open>Lists\<close>

lemma map_fun_upd_notin [simp]: "x \<notin> set xs \<Longrightarrow> map (f(x := v)) xs = map f xs"
  by simp

lemma distinct_remove1_split:
  assumes "distinct xs" "x \<in> set xs"
  shows "\<exists>ys zs. xs = ys @ x # zs \<and> remove1 x xs = ys @ zs \<and> x \<notin> set ys \<and> x \<notin> set zs"
proof -
  from assms(2) obtain ys zs where "xs = ys @ x # zs" by (meson split_list)
  with assms(1) show ?thesis
    by (intro exI[of _ ys] exI[of _ zs]) (auto simp: remove1_append)
qed

lemma last_conv_remove: "xs \<noteq> [] \<Longrightarrow> distinct xs \<Longrightarrow> set (butlast xs) = set xs - {last xs}"
  by (induction xs rule: rev_induct) auto

end
