(* ===== verification/SpscRingBuffer.thy ===== *)
theory SpscRingBuffer
  imports Prelude
begin

text \<open>
  \<^verbatim>\<open>common/spsc_ring_buffer.hpp\<close> and \<^verbatim>\<open>common/spsc_queue_metrics.hpp\<close>: the ring that
  carries market-data events from the producer to the consumer thread.  Here each
  operation runs by itself; \<open>SpscConcurrent\<close> splits them into the individual
  atomic accesses and interleaves the two threads.  The template parameter
  \<^verbatim>\<open>Capacity\<close> is the argument \<open>cap\<close>; one slot always stays free, so the ring
  holds at most \<open>cap - 1\<close> elements.
\<close>

section \<open>State and operations\<close>

record SPSCQueueMetrics =
  pushCount :: u64
  popCount :: u64
  pushFailures :: u64
  popFailures :: u64
  highWaterMark :: nat

record 'a ring =
  rb_head :: nat
  rb_tail :: nat
  rb_buffer :: "nat \<Rightarrow> 'a"
  rb_metrics :: SPSCQueueMetrics

definition new_ring :: "'a \<Rightarrow> 'a ring" where
  "new_ring x0 = \<lparr>rb_head = 0, rb_tail = 0, rb_buffer = (\<lambda>_. x0),
     rb_metrics = \<lparr>pushCount = 0, popCount = 0, pushFailures = 0, popFailures = 0,
                   highWaterMark = 0\<rparr>\<rparr>"

definition increment :: "nat \<Rightarrow> nat \<Rightarrow> nat" where
  "increment cap index = (index + 1) mod cap"

text \<open>The depth computation shared by \<^verbatim>\<open>tryPush\<close> and \<^verbatim>\<open>size\<close>.\<close>

definition depth :: "nat \<Rightarrow> nat \<Rightarrow> nat \<Rightarrow> nat" where
  "depth cap tail head = (if head \<ge> tail then head - tail else cap - tail + head)"

definition tryPush :: "nat \<Rightarrow> 'a \<Rightarrow> 'a ring \<Rightarrow> bool \<times> 'a ring" where
  "tryPush cap v r =
     (let head = rb_head r;
          nextHead = increment cap head;
          tail = rb_tail r
      in if nextHead = tail
         then (False, r\<lparr>rb_metrics := (rb_metrics r)\<lparr>pushFailures := pushFailures (rb_metrics r) + 1\<rparr>\<rparr>)
         else let m1 = (rb_metrics r)\<lparr>pushCount := pushCount (rb_metrics r) + 1\<rparr>;
                  currentSize = depth cap tail nextHead;
                  previousHigh = highWaterMark m1;
                  m2 = (if currentSize > previousHigh then m1\<lparr>highWaterMark := currentSize\<rparr> else m1)
              in (True, r\<lparr>rb_buffer := (rb_buffer r)(head := v), rb_head := nextHead, rb_metrics := m2\<rparr>))"

text \<open>The output parameter of \<^verbatim>\<open>tryPop\<close> is written exactly when the result is \<^verbatim>\<open>true\<close>.\<close>

definition tryPop :: "nat \<Rightarrow> 'a ring \<Rightarrow> 'a option \<times> 'a ring" where
  "tryPop cap r =
     (let tail = rb_tail r;
          head = rb_head r
      in if tail = head
         then (None, r\<lparr>rb_metrics := (rb_metrics r)\<lparr>popFailures := popFailures (rb_metrics r) + 1\<rparr>\<rparr>)
         else (Some (rb_buffer r tail),
               r\<lparr>rb_tail := increment cap tail,
                 rb_metrics := (rb_metrics r)\<lparr>popCount := popCount (rb_metrics r) + 1\<rparr>\<rparr>))"

definition rb_empty :: "'a ring \<Rightarrow> bool" where
  "rb_empty r \<longleftrightarrow> rb_head r = rb_tail r"

definition rb_full :: "nat \<Rightarrow> 'a ring \<Rightarrow> bool" where
  "rb_full cap r \<longleftrightarrow> increment cap (rb_head r) = rb_tail r"

definition rb_size :: "nat \<Rightarrow> 'a ring \<Rightarrow> nat" where
  "rb_size cap r = depth cap (rb_tail r) (rb_head r)"

definition rb_capacity :: "nat \<Rightarrow> nat" where
  "rb_capacity cap = cap - 1"

section \<open>Index arithmetic\<close>

lemma increment_if: "i < cap \<Longrightarrow> increment cap i = (if i + 1 = cap then 0 else i + 1)"
  by (simp add: increment_def)

lemma increment_less [simp]: "i < cap \<Longrightarrow> increment cap i < cap"
  by (auto simp: increment_if)

lemma increment_neq: "1 < cap \<Longrightarrow> i < cap \<Longrightarrow> increment cap i \<noteq> i"
  by (simp add: increment_if)

lemma depth_less: "t < cap \<Longrightarrow> h < cap \<Longrightarrow> depth cap t h < cap"
  by (auto simp: depth_def)

lemma depth_0: "t < cap \<Longrightarrow> h < cap \<Longrightarrow> depth cap t h = 0 \<longleftrightarrow> t = h"
  by (auto simp: depth_def)

lemma depth_self [simp]: "depth cap t t = 0"
  by (simp add: depth_def)

lemma depth_push:
  "t < cap \<Longrightarrow> h < cap \<Longrightarrow> increment cap h \<noteq> t \<Longrightarrow> depth cap t (increment cap h) = Suc (depth cap t h)"
  by (auto simp: depth_def increment_if)

lemma depth_full: "t < cap \<Longrightarrow> h < cap \<Longrightarrow> increment cap h = t \<longleftrightarrow> depth cap t h = cap - 1"
  by (auto simp: depth_def increment_if)

lemma depth_pop:
  "t < cap \<Longrightarrow> h < cap \<Longrightarrow> t \<noteq> h \<Longrightarrow> Suc (depth cap (increment cap t) h) = depth cap t h"
  by (auto simp: depth_def increment_if)

lemma slot_depth: "t < cap \<Longrightarrow> h < cap \<Longrightarrow> (t + depth cap t h) mod cap = h"
  by (auto simp: depth_def)

text \<open>The elements between two indices, oldest first.\<close>

definition span :: "nat \<Rightarrow> (nat \<Rightarrow> 'a) \<Rightarrow> nat \<Rightarrow> nat \<Rightarrow> 'a list" where
  "span cap buf t h = map (\<lambda>i. buf ((t + i) mod cap)) [0..<depth cap t h]"

lemma length_span [simp]: "length (span cap buf t h) = depth cap t h"
  by (simp add: span_def)

lemma span_push:
  assumes "t < cap" "h < cap" "increment cap h \<noteq> t"
  shows "span cap buf t (increment cap h) = span cap buf t h @ [buf h]"
  using assms by (simp add: span_def depth_push slot_depth)

lemma span_pop:
  assumes "t < cap" "h < cap" "t \<noteq> h"
  shows "span cap buf t h = buf t # span cap buf (increment cap t) h"
proof -
  have "span cap buf t h = map (\<lambda>i. buf ((t + i) mod cap)) [0..<Suc (depth cap (increment cap t) h)]"
    using depth_pop[OF assms] by (simp add: span_def)
  also have "\<dots> = buf (t mod cap) # map (\<lambda>i. buf ((t + Suc i) mod cap)) [0..<depth cap (increment cap t) h]"
    by (subst upt_conv_Cons) (auto simp: map_Suc_upt[symmetric] simp del: upt_Suc)
  also have "\<dots> = buf t # span cap buf (increment cap t) h"
    using assms(1) by (simp add: span_def increment_def mod_add_left_eq)
  finally show ?thesis .
qed

lemma span_update:
  assumes "t < cap" "h < cap"
  shows "span cap (buf(h := v)) t h = span cap buf t h"
proof -
  have "(t + i) mod cap \<noteq> h" if "i < depth cap t h" for i
    using cyc_inj[of i cap "depth cap t h" t] slot_depth[OF assms] depth_less[OF assms] that
    by (metis less_trans less_irrefl)
  then show ?thesis by (simp add: span_def)
qed

lemma span_self [simp]: "span cap buf t t = []"
  by (simp add: span_def)

section \<open>Invariant and refinement of a bounded queue\<close>

definition rb_list :: "nat \<Rightarrow> 'a ring \<Rightarrow> 'a list" where
  "rb_list cap r = span cap (rb_buffer r) (rb_tail r) (rb_head r)"

definition rb_inv :: "nat \<Rightarrow> 'a ring \<Rightarrow> bool" where
  "rb_inv cap r \<longleftrightarrow> 1 < cap \<and> rb_head r < cap \<and> rb_tail r < cap \<and>
     pushCount (rb_metrics r) - popCount (rb_metrics r) = of_nat (rb_size cap r) \<and>
     rb_size cap r \<le> highWaterMark (rb_metrics r) \<and> highWaterMark (rb_metrics r) \<le> cap - 1"

lemma rb_inv_new: "1 < cap \<Longrightarrow> rb_inv cap (new_ring x0)"
  by (simp add: rb_inv_def new_ring_def rb_size_def)

lemma rb_list_new: "rb_list cap (new_ring x0) = []"
  by (simp add: rb_list_def new_ring_def)

lemma length_rb_list [simp]: "length (rb_list cap r) = rb_size cap r"
  by (simp add: rb_list_def rb_size_def)

lemma rb_size_le: "rb_inv cap r \<Longrightarrow> rb_size cap r \<le> cap - 1"
  by (simp add: rb_inv_def)

lemma tryPush_ok: "rb_inv cap r \<Longrightarrow> fst (tryPush cap v r) \<longleftrightarrow> rb_size cap r < cap - 1"
  using depth_full[of "rb_tail r" cap "rb_head r"] rb_size_le[of cap r]
  by (auto simp: tryPush_def Let_def rb_inv_def rb_size_def)

lemma tryPush_list:
  "rb_inv cap r \<Longrightarrow> rb_list cap (snd (tryPush cap v r)) =
     (if fst (tryPush cap v r) then rb_list cap r @ [v] else rb_list cap r)"
  by (auto simp: tryPush_def Let_def rb_inv_def rb_list_def span_push span_update)

lemma tryPush_inv: "rb_inv cap r \<Longrightarrow> rb_inv cap (snd (tryPush cap v r))"
  using depth_less[of "rb_tail r" cap "increment cap (rb_head r)"]
  by (auto simp: tryPush_def Let_def rb_inv_def rb_size_def depth_push algebra_simps)

lemma tryPop_None: "rb_inv cap r \<Longrightarrow> fst (tryPop cap r) = None \<longleftrightarrow> rb_list cap r = []"
  using depth_0[of "rb_tail r" cap "rb_head r"]
  by (auto simp: tryPop_def Let_def rb_inv_def rb_list_def simp flip: length_0_conv)

lemma tryPop_list:
  "rb_inv cap r \<Longrightarrow> rb_list cap r = (case fst (tryPop cap r) of None \<Rightarrow> [] | Some x \<Rightarrow> [x])
     @ rb_list cap (snd (tryPop cap r))"
  using span_pop[of "rb_tail r" cap "rb_head r" "rb_buffer r"]
  by (auto simp: tryPop_def Let_def rb_inv_def rb_list_def)

lemma tryPop_inv: "rb_inv cap r \<Longrightarrow> rb_inv cap (snd (tryPop cap r))"
  using depth_pop[of "rb_tail r" cap "rb_head r"]
  by (auto simp: tryPop_def Let_def rb_inv_def rb_size_def algebra_simps
      simp flip: of_nat_Suc)

section \<open>The contract of the queue\<close>

locale bounded_fifo =
  fixes push :: "'a \<Rightarrow> 'q \<Rightarrow> bool \<times> 'q"
    and pop :: "'q \<Rightarrow> 'a option \<times> 'q"
    and contents :: "'q \<Rightarrow> 'a list"
    and bound :: nat
    and invar :: "'q \<Rightarrow> bool"
  assumes push_ok: "invar q \<Longrightarrow> fst (push x q) \<longleftrightarrow> length (contents q) < bound"
    and push_contents: "invar q \<Longrightarrow> contents (snd (push x q)) =
          (if fst (push x q) then contents q @ [x] else contents q)"
    and push_invar: "invar q \<Longrightarrow> invar (snd (push x q))"
    and pop_none: "invar q \<Longrightarrow> fst (pop q) = None \<longleftrightarrow> contents q = []"
    and pop_contents: "invar q \<Longrightarrow> contents q =
          (case fst (pop q) of None \<Rightarrow> [] | Some x \<Rightarrow> [x]) @ contents (snd (pop q))"
    and pop_invar: "invar q \<Longrightarrow> invar (snd (pop q))"
begin

lemma pop_Some:
  assumes "invar q" "contents q = x # xs"
  shows "\<exists>q'. pop q = (Some x, q') \<and> contents q' = xs \<and> invar q'"
proof -
  from pop_none[OF assms(1)] assms(2) obtain y where y: "fst (pop q) = Some y" by auto
  with pop_contents[OF assms(1)] assms(2) have "y = x" "contents (snd (pop q)) = xs" by auto
  with y pop_invar[OF assms(1)] show ?thesis by (metis prod.collapse)
qed

lemma pop_Nil:
  assumes "invar q" "contents q = []"
  shows "\<exists>q'. pop q = (None, q') \<and> contents q' = [] \<and> invar q'"
  using pop_none[OF assms(1)] pop_contents[OF assms(1)] pop_invar[OF assms(1)] assms(2)
  by (metis append_is_Nil_conv prod.collapse)

text \<open>
  A consumer loop that pops until the queue is empty and hands every element to
  \<open>f\<close> runs \<open>f\<close> over the contents, oldest first, counts them, and ends.
\<close>

lemma drain:
  assumes loop: "\<And>q s n. L q s n =
      (case pop q of
         (None, q') \<Rightarrow> Some (q', s, n)
       | (Some x, q') \<Rightarrow> Option.bind (f x s) (\<lambda>s'. L q' s' (Suc n)))"
    and "invar q"
  shows "\<exists>q'. invar q' \<and> contents q' = [] \<and>
      L q s n = map_option (\<lambda>s'. (q', s', n + length (contents q))) (fold_opt f (contents q) s)"
  using assms(2)
proof (induction "contents q" arbitrary: q s n)
  case Nil
  then obtain q' where "pop q = (None, q')" "contents q' = []" "invar q'"
    using pop_Nil[of q] by auto
  with Nil show ?case by (subst loop) auto
next
  case (Cons x xs)
  then obtain q1 where q1: "pop q = (Some x, q1)" "contents q1 = xs" "invar q1"
    using pop_Some[of q x xs] by auto
  show ?case
  proof (cases "f x s")
    case None
    from Cons.hyps(1)[OF q1(2)[symmetric] q1(3)] obtain q' where "invar q'" "contents q' = []" by blast
    with q1 None Cons.hyps(2)[symmetric] show ?thesis by (subst loop) auto
  next
    case (Some s')
    from Cons.hyps(1)[OF q1(2)[symmetric] q1(3), of s' "Suc n"] obtain q'
      where "invar q'" "contents q' = []"
        "L q1 s' (Suc n) = map_option (\<lambda>s''. (q', s'', Suc n + length (contents q1)))
           (fold_opt f (contents q1) s')" by blast
    with q1 Some Cons.hyps(2)[symmetric] show ?thesis by (subst loop) auto
  qed
qed

end

interpretation rb: bounded_fifo "tryPush cap" "tryPop cap" "rb_list cap" "cap - 1" "rb_inv cap"
  for cap :: nat
  by unfold_locales
    (simp_all add: tryPush_ok tryPush_list tryPush_inv tryPop_None tryPop_inv tryPop_list[symmetric])

section \<open>Properties\<close>

text \<open>\<^verbatim>\<open>tryPush\<close> appends to the queue exactly when fewer than \<^verbatim>\<open>Capacity - 1\<close>
  elements are queued and otherwise changes nothing but the failure counter; it
  keeps the ring well formed, with \<^verbatim>\<open>pushCount - popCount\<close> the number of queued
  elements and \<^verbatim>\<open>highWaterMark\<close> an upper bound on it.\<close>

lemma tryPush_correct:
  assumes "rb_inv cap r" "tryPush cap v r = (ok, r')"
  shows "(ok \<longleftrightarrow> rb_size cap r < rb_capacity cap)
    \<and> rb_list cap r' = (if ok then rb_list cap r @ [v] else rb_list cap r)
    \<and> rb_inv cap r'
    \<and> (\<not> ok \<longrightarrow> pushFailures (rb_metrics r') = pushFailures (rb_metrics r) + 1 \<and> rb_full cap r)"
proof -
  have "\<not> ok \<longrightarrow> pushFailures (rb_metrics r') = pushFailures (rb_metrics r) + 1 \<and> rb_full cap r"
    using assms(2) by (auto simp: tryPush_def Let_def rb_full_def split: if_splits)
  then show ?thesis
    using tryPush_ok[OF assms(1), of v] tryPush_list[OF assms(1), of v] tryPush_inv[OF assms(1), of v]
    by (simp add: assms(2) rb_capacity_def)
qed

text \<open>\<^verbatim>\<open>tryPop\<close> returns the oldest element and removes exactly it, or reports
  failure exactly on an empty ring, and keeps the ring well formed.\<close>

lemma tryPop_correct:
  assumes "rb_inv cap r" "tryPop cap r = (res, r')"
  shows "(res = None \<longleftrightarrow> rb_empty r) \<and> (res = None \<longleftrightarrow> rb_list cap r = [])
    \<and> (\<forall>x. res = Some x \<longrightarrow> rb_list cap r = x # rb_list cap r')
    \<and> rb_inv cap r'"
proof -
  have "res = None \<longleftrightarrow> rb_empty r"
    using assms(2) by (auto simp: tryPop_def Let_def rb_empty_def split: if_splits)
  then show ?thesis
    using tryPop_None[OF assms(1)] tryPop_list[OF assms(1)] tryPop_inv[OF assms(1)]
    by (auto simp: assms(2))
qed

end
