(* ===== verification/SpscConcurrent.thy ===== *)
theory SpscConcurrent
  imports SpscRingBuffer
begin

text \<open>
  The ring buffer with its two threads interleaved.  \<^verbatim>\<open>tryPush\<close> and \<^verbatim>\<open>tryPop\<close> are
  split at every access to shared memory: the loads of \<^verbatim>\<open>head_\<close> and \<^verbatim>\<open>tail_\<close>, the
  plain access to \<^verbatim>\<open>buffer_\<close>, the releasing store.  A thread reads its own index
  exactly; the load of the other thread's index may return an old value, as the C++
  memory model allows, as long as it is not older than the value the thread read
  before (coherence).  The statistics counters take no part in the protocol and are
  left out here; \<open>SpscRingBuffer\<close> covers them.

  \<open>pushed\<close> and \<open>popped\<close> record the values published and consumed so far and
  \<open>p_seen\<close>, \<open>c_seen\<close> the position of the index value each thread saw last; no
  guard of a step reads \<open>pushed\<close> or \<open>popped\<close> except to bound what a load may return.
\<close>

section \<open>Threads and steps\<close>

datatype 'a ppc =
    PIdle
  | PHead 'a nat
  | PTail 'a nat nat
  | PStored 'a nat

datatype 'a cpc =
    CIdle
  | CTail nat
  | CHead nat nat
  | CRead nat 'a

record 'a conc =
  c_head :: nat
  c_tail :: nat
  c_buffer :: "nat \<Rightarrow> 'a"
  p_pc :: "'a ppc"
  c_pc :: "'a cpc"
  pushed :: "'a list"
  popped :: "'a list"
  p_seen :: nat
  c_seen :: nat

definition conc_init :: "(nat \<Rightarrow> 'a) \<Rightarrow> 'a conc" where
  "conc_init buf = \<lparr>c_head = 0, c_tail = 0, c_buffer = buf, p_pc = PIdle, c_pc = CIdle,
     pushed = [], popped = [], p_seen = 0, c_seen = 0\<rparr>"

inductive conc_step :: "nat \<Rightarrow> 'a conc \<Rightarrow> 'a conc \<Rightarrow> bool" for cap :: nat where
  push_load_head:
    "p_pc s = PIdle \<Longrightarrow> conc_step cap s (s\<lparr>p_pc := PHead v (c_head s)\<rparr>)"
| push_load_tail:
    "p_pc s = PHead v h \<Longrightarrow> p_seen s \<le> k \<Longrightarrow> k \<le> length (popped s) \<Longrightarrow>
     conc_step cap s (s\<lparr>p_pc := PTail v h (k mod cap), p_seen := k\<rparr>)"
| push_full:
    "p_pc s = PTail v h t \<Longrightarrow> increment cap h = t \<Longrightarrow> conc_step cap s (s\<lparr>p_pc := PIdle\<rparr>)"
| push_write:
    "p_pc s = PTail v h t \<Longrightarrow> increment cap h \<noteq> t \<Longrightarrow>
     conc_step cap s (s\<lparr>c_buffer := (c_buffer s)(h := v), p_pc := PStored v h\<rparr>)"
| push_publish:
    "p_pc s = PStored v h \<Longrightarrow>
     conc_step cap s (s\<lparr>c_head := increment cap h, p_pc := PIdle, pushed := pushed s @ [v]\<rparr>)"
| pop_load_tail:
    "c_pc s = CIdle \<Longrightarrow> conc_step cap s (s\<lparr>c_pc := CTail (c_tail s)\<rparr>)"
| pop_load_head:
    "c_pc s = CTail t \<Longrightarrow> c_seen s \<le> k \<Longrightarrow> k \<le> length (pushed s) \<Longrightarrow>
     conc_step cap s (s\<lparr>c_pc := CHead t (k mod cap), c_seen := k\<rparr>)"
| pop_empty:
    "c_pc s = CHead t h \<Longrightarrow> t = h \<Longrightarrow> conc_step cap s (s\<lparr>c_pc := CIdle\<rparr>)"
| pop_read:
    "c_pc s = CHead t h \<Longrightarrow> t \<noteq> h \<Longrightarrow> conc_step cap s (s\<lparr>c_pc := CRead t (c_buffer s t)\<rparr>)"
| pop_commit:
    "c_pc s = CRead t v \<Longrightarrow>
     conc_step cap s (s\<lparr>c_tail := increment cap t, c_pc := CIdle, popped := popped s @ [v]\<rparr>)"

inductive conc_reach :: "nat \<Rightarrow> 'a conc \<Rightarrow> bool" for cap :: nat where
  start: "conc_reach cap (conc_init buf)"
| step: "conc_reach cap s \<Longrightarrow> conc_step cap s s' \<Longrightarrow> conc_reach cap s'"

section \<open>Invariant\<close>

definition conc_inv :: "nat \<Rightarrow> 'a conc \<Rightarrow> bool" where
  "conc_inv cap s \<longleftrightarrow>
     c_head s = length (pushed s) mod cap \<and> c_tail s = length (popped s) mod cap \<and>
     p_seen s \<le> length (popped s) \<and> length (popped s) \<le> c_seen s \<and>
     c_seen s \<le> length (pushed s) \<and> length (pushed s) < p_seen s + cap \<and>
     popped s = take (length (popped s)) (pushed s) \<and>
     (\<forall>i. length (popped s) \<le> i \<and> i < length (pushed s) \<longrightarrow> c_buffer s (i mod cap) = pushed s ! i) \<and>
     (case p_pc s of
        PIdle \<Rightarrow> True
      | PHead v h \<Rightarrow> h = c_head s
      | PTail v h t \<Rightarrow> h = c_head s \<and> t = p_seen s mod cap
      | PStored v h \<Rightarrow> h = c_head s \<and> c_buffer s h = v \<and> Suc (length (pushed s)) < p_seen s + cap) \<and>
     (case c_pc s of
        CIdle \<Rightarrow> True
      | CTail t \<Rightarrow> t = c_tail s
      | CHead t h \<Rightarrow> t = c_tail s \<and> h = c_seen s mod cap
      | CRead t v \<Rightarrow> t = c_tail s \<and> length (popped s) < c_seen s \<and> v = pushed s ! length (popped s))"

lemma mod_window: "a \<le> b \<Longrightarrow> b < a + cap \<Longrightarrow> a mod cap = b mod (cap::nat) \<Longrightarrow> a = b"
  using cyc_inj_le[of 0 "b - a" cap a] less_diff_conv2[of a b cap] by (simp add: add.commute)

lemma mod_window_full:
  assumes "s \<le> n" "n < s + cap"
  shows "increment cap (n mod cap) = s mod cap \<longleftrightarrow> Suc n = s + cap"
proof
  assume *: "increment cap (n mod cap) = s mod cap"
  then have "Suc n mod cap = s mod cap" by (simp add: increment_def mod_Suc_eq)
  then show "Suc n = s + cap" using mod_window[of s "Suc n" cap] assms by (cases "Suc n = s + cap") auto
next
  assume "Suc n = s + cap"
  then show "increment cap (n mod cap) = s mod cap"
    by (simp add: increment_def mod_Suc_eq)
qed

lemma increment_mod: "increment cap (n mod cap) = Suc n mod cap"
  by (simp add: increment_def mod_Suc_eq)

lemma conc_inv_init: "0 < cap \<Longrightarrow> conc_inv cap (conc_init buf)"
  by (simp add: conc_inv_def conc_init_def)

lemma conc_inv_write:
  assumes "conc_inv cap s" "p_pc s = PTail v h t" "increment cap h \<noteq> t"
  shows "conc_inv cap (s\<lparr>c_buffer := (c_buffer s)(h := v), p_pc := PStored v h\<rparr>)"
proof -
  from assms have h: "h = length (pushed s) mod cap" and t: "t = p_seen s mod cap"
    and b: "p_seen s \<le> length (pushed s)" "length (pushed s) < p_seen s + cap"
      "p_seen s \<le> length (popped s)"
    by (auto simp: conc_inv_def)
  have "Suc (length (pushed s)) \<noteq> p_seen s + cap"
    using mod_window_full[OF b(1,2)] assms(3) h t by simp
  with b(2) have "Suc (length (pushed s)) < p_seen s + cap" by linarith
  moreover have "i mod cap \<noteq> h" if "length (popped s) \<le> i" "i < length (pushed s)" for i
    using mod_window[of i "length (pushed s)" cap] that b h by auto
  ultimately show ?thesis using assms(1,2)
    by (simp add: conc_inv_def split: cpc.splits)
qed

lemma conc_inv_publish:
  assumes "conc_inv cap s" "p_pc s = PStored v h"
  shows "conc_inv cap (s\<lparr>c_head := increment cap h, p_pc := PIdle, pushed := pushed s @ [v]\<rparr>)"
  using assms
  by (auto simp: conc_inv_def increment_mod nth_append less_Suc_eq split: cpc.splits)

lemma conc_inv_read:
  assumes "conc_inv cap s" "c_pc s = CHead t h" "t \<noteq> h"
  shows "conc_inv cap (s\<lparr>c_pc := CRead t (c_buffer s t)\<rparr>)"
proof -
  from assms have "length (popped s) \<noteq> c_seen s" by (auto simp: conc_inv_def)
  with assms have "length (popped s) < c_seen s" by (auto simp: conc_inv_def)
  with assms show ?thesis by (simp add: conc_inv_def split: ppc.splits)
qed

lemma conc_inv_commit:
  assumes "conc_inv cap s" "c_pc s = CRead t v"
  shows "conc_inv cap (s\<lparr>c_tail := increment cap t, c_pc := CIdle, popped := popped s @ [v]\<rparr>)"
proof -
  from assms have "length (popped s) < length (pushed s)"
    "popped s = take (length (popped s)) (pushed s)" "v = pushed s ! length (popped s)"
    by (auto simp: conc_inv_def)
  then have "popped s @ [v] = take (Suc (length (popped s))) (pushed s)"
    by (simp add: take_Suc_conv_app_nth)
  with assms show ?thesis
    by (simp add: conc_inv_def increment_mod split: ppc.splits)
qed

lemma conc_inv_step: "conc_step cap s s' \<Longrightarrow> conc_inv cap s \<Longrightarrow> conc_inv cap s'"
proof (induction rule: conc_step.induct)
  case push_write
  then show ?case by (simp add: conc_inv_write)
next
  case push_publish
  then show ?case by (simp add: conc_inv_publish)
next
  case pop_read
  then show ?case by (simp add: conc_inv_read)
next
  case pop_commit
  then show ?case by (simp add: conc_inv_commit)
qed (auto simp: conc_inv_def split: ppc.splits cpc.splits)

lemma conc_reach_inv: "conc_reach cap s \<Longrightarrow> 0 < cap \<Longrightarrow> conc_inv cap s"
  by (induction rule: conc_reach.induct) (auto intro: conc_inv_init conc_inv_step)

section \<open>A concrete interleaving\<close>

text \<open>
  On a ring of three slots: the producer publishes 5 and stands before its next
  write, the consumer has seen the new head and stands before its read.
\<close>

definition demo_state :: "nat conc" where
  "demo_state = \<lparr>c_head = 1, c_tail = 0, c_buffer = (\<lambda>_. 0)(0 := 5), p_pc = PTail 6 1 0,
     c_pc = CHead 0 1, pushed = [5], popped = [], p_seen = 0, c_seen = 1\<rparr>"

lemma demo_published:
  "conc_reach 3 (conc_init (\<lambda>_. 0)\<lparr>c_head := 1, c_buffer := (\<lambda>_. 0)(0 := 5), pushed := [5::nat]\<rparr>)"
proof -
  let ?s0 = "conc_init (\<lambda>_. 0::nat)"
  have "conc_reach 3 (?s0\<lparr>p_pc := PHead 5 0\<rparr>)"
    using conc_reach.step[OF conc_reach.start push_load_head[of ?s0 3 5]] by (simp add: conc_init_def)
  from conc_reach.step[OF this push_load_tail[of _ 5 0 0]]
  have "conc_reach 3 (?s0\<lparr>p_pc := PTail 5 0 0\<rparr>)" by (simp add: conc_init_def)
  from conc_reach.step[OF this push_write[of _ 5 0 0]]
  have "conc_reach 3 (?s0\<lparr>c_buffer := (\<lambda>_. 0)(0 := 5), p_pc := PStored 5 0\<rparr>)"
    by (simp add: conc_init_def increment_def)
  from conc_reach.step[OF this push_publish[of _ 5 0]]
  show ?thesis by (simp add: conc_init_def increment_def)
qed

lemma demo_reach: "conc_reach 3 demo_state"
proof -
  let ?s0 = "conc_init (\<lambda>_. 0)\<lparr>c_head := 1, c_buffer := (\<lambda>_. 0)(0 := 5), pushed := [5::nat]\<rparr>"
  from conc_reach.step[OF demo_published push_load_head[of ?s0 3 6]]
  have "conc_reach 3 (?s0\<lparr>p_pc := PHead 6 1\<rparr>)" by (simp add: conc_init_def)
  from conc_reach.step[OF this push_load_tail[of _ 6 1 0]]
  have "conc_reach 3 (?s0\<lparr>p_pc := PTail 6 1 0\<rparr>)" by (simp add: conc_init_def)
  from conc_reach.step[OF this pop_load_tail]
  have "conc_reach 3 (?s0\<lparr>p_pc := PTail 6 1 0, c_pc := CTail 0\<rparr>)" by (simp add: conc_init_def)
  from conc_reach.step[OF this pop_load_head[of _ 0 1]]
  show ?thesis by (simp add: conc_init_def demo_state_def)
qed

section \<open>Properties\<close>

text \<open>C13. in every interleaving of one producer and one consumer, however stale the
  index loads, the values consumed are a prefix of the values published: nothing is
  lost, duplicated or reordered, and at most \<^verbatim>\<open>Capacity - 1\<close> values are in flight.\<close>

theorem spsc_fifo:
  assumes "conc_reach cap s" "1 < cap"
  shows "pushed s = popped s @ drop (length (popped s)) (pushed s)
    \<and> length (pushed s) - length (popped s) \<le> cap - 1"
proof -
  have inv: "conc_inv cap s" using conc_reach_inv[OF assms(1)] assms(2) by simp
  then have "popped s = take (length (popped s)) (pushed s)" by (simp add: conc_inv_def)
  then have "pushed s = popped s @ drop (length (popped s)) (pushed s)" by (metis append_take_drop_id)
  moreover have "length (pushed s) - length (popped s) \<le> cap - 1"
    using inv unfolding conc_inv_def by linarith
  ultimately show ?thesis by blast
qed

theorem spsc_fifo_witness:
  "conc_reach 3 demo_state \<and> (1::nat) < 3
   \<and> length (pushed demo_state) - length (popped demo_state) \<le> 3 - 1"
  using spsc_fifo[OF demo_reach] demo_reach by simp

text \<open>C19. the unsynchronised accesses to \<^verbatim>\<open>buffer_\<close> never race: whenever the producer
  is about to write a slot and the consumer is about to read one, the slots differ,
  and a value the consumer has read is the next one in publication order.\<close>

theorem spsc_race_free:
  assumes "conc_reach cap s" "1 < cap"
    "p_pc s = PTail v h t" "increment cap h \<noteq> t" "c_pc s = CHead t' h'" "t' \<noteq> h'"
  shows "h \<noteq> t' \<and> c_buffer s t' = pushed s ! length (popped s)"
proof -
  have inv: "conc_inv cap s" using conc_reach_inv[OF assms(1)] assms(2) by simp
  have "length (popped s) < length (pushed s)"
    using conc_inv_read[OF inv assms(5,6)] by (auto simp: conc_inv_def)
  moreover from inv assms have "h = length (pushed s) mod cap" "t' = length (popped s) mod cap"
    "length (pushed s) < length (popped s) + cap"
    by (auto simp: conc_inv_def)
  ultimately have "h \<noteq> t'" using mod_window[of "length (popped s)" "length (pushed s)" cap] by auto
  then show ?thesis using conc_inv_read[OF inv assms(5,6)] by (auto simp: conc_inv_def)
qed

theorem spsc_race_free_witness:
  "p_pc demo_state = PTail 6 1 0 \<and> c_pc demo_state = CHead 0 1 \<and>
   (1::nat) \<noteq> 0 \<and> c_buffer demo_state 0 = pushed demo_state ! length (popped demo_state)"
  using spsc_race_free[OF demo_reach, of 6 1 0 0 1] by (simp add: demo_state_def increment_def)

end
