(* ===== verification/Wire.thy ===== *)
theory Wire
  imports Prelude "HOL-Library.Monad_Syntax"
begin

text \<open>
  Bytes on the wire.  A buffer is a list of bytes; a \<^verbatim>\<open>const std::uint8_t*\<close> into it is an offset,
  and a nullable one is an \<open>offset option\<close>.  Reading or writing outside the buffer is undefined
  behaviour and gives \<open>None\<close>.

  The theory holds the byte-order helpers of \<^verbatim>\<open>common/endian.hpp\<close>, parameterised by
  \<^verbatim>\<open>std::endian::native\<close>, and the big-endian readers and writers of
  \<^verbatim>\<open>execution/ouch/ouch_wire_utils.hpp\<close>.  The locale \<open>wire_field\<close> states what a reader and a
  writer of one fixed-width field promise each other; every encoder and decoder of the
  development rests on its interpretations.
\<close>

type_synonym buffer = "u8 list"
type_synonym cptr = "nat option"

text \<open>The characters that appear in messages.\<close>

abbreviation ch_A :: u8 where "ch_A \<equiv> 0x41"
abbreviation ch_B :: u8 where "ch_B \<equiv> 0x42"
abbreviation ch_C :: u8 where "ch_C \<equiv> 0x43"
abbreviation ch_D :: u8 where "ch_D \<equiv> 0x44"
abbreviation ch_E :: u8 where "ch_E \<equiv> 0x45"
abbreviation ch_J :: u8 where "ch_J \<equiv> 0x4A"
abbreviation ch_L :: u8 where "ch_L \<equiv> 0x4C"
abbreviation ch_N :: u8 where "ch_N \<equiv> 0x4E"
abbreviation ch_O :: u8 where "ch_O \<equiv> 0x4F"
abbreviation ch_P :: u8 where "ch_P \<equiv> 0x50"
abbreviation ch_S :: u8 where "ch_S \<equiv> 0x53"
abbreviation ch_U :: u8 where "ch_U \<equiv> 0x55"
abbreviation ch_X :: u8 where "ch_X \<equiv> 0x58"
abbreviation ch_Y :: u8 where "ch_Y \<equiv> 0x59"
abbreviation ch_0 :: u8 where "ch_0 \<equiv> 0x30"
abbreviation ch_space :: u8 where "ch_space \<equiv> 0x20"

section \<open>Raw access\<close>

definition load8 :: "buffer \<Rightarrow> nat \<Rightarrow> u8 option" where
  "load8 mem i = (if i < length mem then Some (mem ! i) else None)"

definition store8 :: "buffer \<Rightarrow> nat \<Rightarrow> u8 \<Rightarrow> buffer option" where
  "store8 mem i v = (if i < length mem then Some (mem[i := v]) else None)"

definition loads :: "buffer \<Rightarrow> nat \<Rightarrow> nat \<Rightarrow> u8 list option" where
  "loads mem i n = (if i + n \<le> length mem then Some (take n (drop i mem)) else None)"

definition stores :: "buffer \<Rightarrow> nat \<Rightarrow> u8 list \<Rightarrow> buffer option" where
  "stores mem i bs =
     (if i + length bs \<le> length mem then Some (take i mem @ bs @ drop (i + length bs) mem) else None)"

section \<open>Byte order\<close>

datatype endian = Little | Big

definition be_word :: "u8 list \<Rightarrow> 'a::len word" where
  "be_word bs = foldl (\<lambda>value b. push_bit 8 value OR ucast b) 0 bs"

definition be_bytes :: "nat \<Rightarrow> 'a::len word \<Rightarrow> u8 list" where
  "be_bytes n w = map (\<lambda>i. ucast (drop_bit (8 * (n - 1 - i)) w)) [0..<n]"

definition byte_size :: "'a::len word \<Rightarrow> nat" where
  "byte_size w = size w div 8"

text \<open>How the host reads an integer from memory, and \<^verbatim>\<open>std::byteswap\<close>.\<close>

definition native_load :: "endian \<Rightarrow> u8 list \<Rightarrow> 'a::len word" where
  "native_load E bs = (case E of Little \<Rightarrow> be_word (rev bs) | Big \<Rightarrow> be_word bs)"

definition native_bytes :: "endian \<Rightarrow> 'a::len word \<Rightarrow> u8 list" where
  "native_bytes E w =
     (case E of Little \<Rightarrow> rev (be_bytes (byte_size w) w) | Big \<Rightarrow> be_bytes (byte_size w) w)"

definition byteswap :: "'a::len word \<Rightarrow> 'a word" where
  "byteswap w = be_word (rev (be_bytes (byte_size w) w))"

definition fromBigEndian :: "endian \<Rightarrow> 'a::len word \<Rightarrow> 'a word" where
  "fromBigEndian E value = (if E = Little then byteswap value else value)"

definition toBigEndian :: "endian \<Rightarrow> 'a::len word \<Rightarrow> 'a word" where
  "toBigEndian E value = (if E = Little then byteswap value else value)"

text \<open>A field of a packed structure laid over the buffer.\<close>

definition load_field :: "endian \<Rightarrow> buffer \<Rightarrow> nat \<Rightarrow> 'a::len word option" where
  "load_field E mem i = map_option (native_load E) (loads mem i (LENGTH('a) div 8))"

definition store_field :: "endian \<Rightarrow> buffer \<Rightarrow> nat \<Rightarrow> 'a::len word \<Rightarrow> buffer option" where
  "store_field E mem i w = stores mem i (native_bytes E w)"

definition be_load :: "endian \<Rightarrow> buffer \<Rightarrow> nat \<Rightarrow> 'a::len word option" where
  "be_load E mem i = map_option (fromBigEndian E) (load_field E mem i)"

definition be_store :: "endian \<Rightarrow> buffer \<Rightarrow> nat \<Rightarrow> 'a::len word \<Rightarrow> buffer option" where
  "be_store E mem i w = store_field E mem i (toBigEndian E w)"

section \<open>The OUCH readers and writers\<close>

definition readUint16 :: "buffer \<Rightarrow> nat \<Rightarrow> u16 option" where
  "readUint16 mem source = do {
     b0 \<leftarrow> load8 mem source;
     b1 \<leftarrow> load8 mem (source + 1);
     Some (push_bit 8 (ucast b0) OR ucast b1)
   }"

definition readUint32 :: "buffer \<Rightarrow> nat \<Rightarrow> u32 option" where
  "readUint32 mem source = do {
     b0 \<leftarrow> load8 mem source;
     b1 \<leftarrow> load8 mem (source + 1);
     b2 \<leftarrow> load8 mem (source + 2);
     b3 \<leftarrow> load8 mem (source + 3);
     Some (push_bit 24 (ucast b0) OR push_bit 16 (ucast b1) OR push_bit 8 (ucast b2) OR ucast b3)
   }"

definition readUint64 :: "buffer \<Rightarrow> nat \<Rightarrow> u64 option" where
  "readUint64 mem source =
     fold_opt (\<lambda>index value. map_option (\<lambda>b. push_bit 8 value OR ucast b) (load8 mem (source + index)))
       [0..<8] 0"

definition writeUint16 :: "buffer \<Rightarrow> nat \<Rightarrow> u16 \<Rightarrow> buffer option" where
  "writeUint16 mem destination value = do {
     m0 \<leftarrow> store8 mem destination (ucast (drop_bit 8 value AND 0xFF));
     store8 m0 (destination + 1) (ucast (value AND 0xFF))
   }"

definition writeUint32 :: "buffer \<Rightarrow> nat \<Rightarrow> u32 \<Rightarrow> buffer option" where
  "writeUint32 mem destination value = do {
     m0 \<leftarrow> store8 mem destination (ucast (drop_bit 24 value AND 0xFF));
     m1 \<leftarrow> store8 m0 (destination + 1) (ucast (drop_bit 16 value AND 0xFF));
     m2 \<leftarrow> store8 m1 (destination + 2) (ucast (drop_bit 8 value AND 0xFF));
     store8 m2 (destination + 3) (ucast (value AND 0xFF))
   }"

definition writeUint64 :: "buffer \<Rightarrow> nat \<Rightarrow> u64 \<Rightarrow> buffer option" where
  "writeUint64 mem destination value =
     fold_opt (\<lambda>index m. store8 m (destination + index) (ucast (drop_bit ((7 - index) * 8) value AND 0xFF)))
       [0..<8] mem"

section \<open>Loads and stores of several bytes\<close>

lemma loads_bounds: "loads mem i n = Some bs \<Longrightarrow> i + n \<le> length mem \<and> length bs = n"
  by (auto simp: loads_def split: if_splits)

lemma loads_ok: "i + n \<le> length mem \<Longrightarrow> loads mem i n = Some (take n (drop i mem))"
  by (simp add: loads_def)

lemma stores_length: "stores mem i bs = Some mem' \<Longrightarrow> length mem' = length mem"
  by (auto simp: stores_def split: if_splits)

lemma stores_ok: "i + length bs \<le> length mem \<Longrightarrow> \<exists>mem'. stores mem i bs = Some mem' \<and> length mem' = length mem"
  by (auto simp: stores_def)

lemma loads_view: "loads mem p n = Some bs \<Longrightarrow> i + k \<le> n \<Longrightarrow> loads mem (p + i) k = loads bs i k"
  by (auto simp: loads_def drop_take take_take min_def add.commute split: if_splits)

lemma loads_stores_same: "stores mem i bs = Some mem' \<Longrightarrow> loads mem' i (length bs) = Some bs"
  by (auto simp: stores_def loads_def split: if_splits)

lemma loads_stores_frame:
  assumes "stores mem i bs = Some mem'" "j + n \<le> i \<or> i + length bs \<le> j"
  shows "loads mem' j n = loads mem j n"
proof -
  from assms(1) have mem': "mem' = take i mem @ bs @ drop (i + length bs) mem" and le: "i + length bs \<le> length mem"
    by (auto simp: stores_def split: if_splits)
  have "take n (drop j mem') = take n (drop j mem)" if "j + n \<le> length mem"
    using assms(2)
  proof
    assume "j + n \<le> i"
    then show ?thesis using le by (simp add: mem' drop_take min_absorb1)
  next
    assume a: "i + length bs \<le> j"
    then have "drop j mem' = drop (j - i - length bs) (drop (i + length bs) mem)"
      using le by (simp add: mem')
    also have "\<dots> = drop j mem" using a by simp
    finally show ?thesis by simp
  qed
  moreover have "length mem' = length mem" using le by (simp add: mem')
  ultimately show ?thesis by (simp add: loads_def)
qed

lemma load8_loads: "load8 mem i = map_option hd (loads mem i 1)"
  by (auto simp: load8_def loads_def hd_drop_conv_nth take_Suc)

lemma loads_Suc:
  "loads mem i (Suc n) = do { b \<leftarrow> load8 mem i; bs \<leftarrow> loads mem (Suc i) n; Some (b # bs) }"
  by (auto simp: loads_def load8_def Cons_nth_drop_Suc[symmetric])

lemma loads_0: "loads mem i 0 = (if i \<le> length mem then Some [] else None)"
  by (simp add: loads_def)

lemma store8_stores: "store8 mem i v = stores mem i [v]"
  by (auto simp: store8_def stores_def upd_conv_take_nth_drop)

lemma stores_stores_adj:
  "Option.bind (stores mem i bs) (\<lambda>m. stores m (i + length bs) cs) = stores mem i (bs @ cs)"
proof (cases "i + length (bs @ cs) \<le> length mem")
  case True
  then have "stores mem i bs = Some (take i mem @ bs @ drop (i + length bs) mem)" by (simp add: stores_def)
  moreover have "take (i + length bs) (take i mem @ bs @ drop (i + length bs) mem) = take i mem @ bs"
    "drop (i + length bs + length cs) (take i mem @ bs @ drop (i + length bs) mem) = drop (i + length bs + length cs) mem"
    using True by (simp_all add: add.commute)
  ultimately show ?thesis using True by (simp add: stores_def add.assoc)
qed (auto simp: stores_def split: bind_splits if_splits)

section \<open>Big-endian words\<close>

lemma be_word_snoc [simp]: "be_word (bs @ [b]) = push_bit 8 (be_word bs) OR ucast b"
  by (simp add: be_word_def)

lemma be_word_Nil [simp]: "be_word [] = 0"
  by (simp add: be_word_def)

lemma length_be_bytes [simp]: "length (be_bytes n w) = n"
  by (simp add: be_bytes_def)

lemma bit_be_word:
  "bit (be_word bs :: 'a::len word) k \<longleftrightarrow>
     k < LENGTH('a) \<and> k < 8 * length bs \<and> bit (bs ! (length bs - 1 - k div 8)) (k mod 8)"
proof (induction bs arbitrary: k rule: rev_induct)
  case (snoc b bs)
  show ?case
  proof (cases "k < 8")
    case True
    then show ?thesis by (simp add: bit_or_iff bit_push_bit_iff bit_ucast_iff)
  next
    case False
    then have k: "(k - 8) div 8 = k div 8 - 1" "(k - 8) mod 8 = k mod 8" "0 < k div 8"
      by (auto simp: le_div_geq le_mod_geq)
    have "length bs - 1 - (k div 8 - 1) = length bs - k div 8" using k(3) by simp
    moreover have "length bs - k div 8 < length bs" if "k < 8 + 8 * length bs" using k(3) that False by linarith
    moreover have "\<not> bit b k" using False by (auto dest: bit_imp_le_length)
    ultimately show ?thesis
      using False snoc.IH[of "k - 8"] unfolding k(1,2)
      by (auto simp: bit_or_iff bit_push_bit_iff bit_ucast_iff nth_append)
  qed
qed simp

lemma be_word_be_bytes [simp]:
  assumes "8 * n = LENGTH('a)"
  shows "be_word (be_bytes n w) = (w :: 'a::len word)"
proof (rule bit_word_eqI)
  fix k assume k: "k < LENGTH('a)"
  then have "k div 8 < n" using assms by linarith
  moreover have "8 * (k div 8) + k mod 8 = k" by simp
  moreover have "k mod 8 < Suc (Suc (Suc (Suc (Suc (Suc (Suc (Suc 0)))))))" by presburger
  ultimately show "bit (be_word (be_bytes n w) :: 'a word) k = bit w k"
    using k assms by (simp add: bit_be_word be_bytes_def bit_ucast_iff bit_drop_bit_eq add.commute)
qed

lemma be_bytes_be_word [simp]:
  assumes "length bs = n" "8 * n \<le> LENGTH('a::len)"
  shows "be_bytes n (be_word bs :: 'a word) = bs"
proof (rule nth_equalityI)
  fix i assume "i < length (be_bytes n (be_word bs :: 'a word))"
  then have i: "i < n" by simp
  show "be_bytes n (be_word bs :: 'a word) ! i = bs ! i"
  proof (rule bit_word_eqI)
    fix k assume "k < LENGTH(8)"
    then have k: "k < 8" by simp
    have d: "(8 * (n - 1 - i) + k) div 8 = n - 1 - i" "(8 * (n - 1 - i) + k) mod 8 = k" using k by simp_all
    have "8 * (n - 1 - i) + k < 8 * n" using i k by linarith
    moreover have "n - 1 - (n - 1 - i) = i" using i by simp
    ultimately show "bit (be_bytes n (be_word bs :: 'a word) ! i) k = bit (bs ! i) k"
      using i k assms d
      by (simp add: be_bytes_def bit_ucast_iff bit_drop_bit_eq bit_be_word)
  qed
qed (use assms in simp)

text \<open>Reading an integer in host order and converting it gives the big-endian value on every host.\<close>

lemma from_native_load [simp]:
  assumes "8 * length bs = LENGTH('a::len)"
  shows "fromBigEndian E (native_load E bs) = (be_word bs :: 'a word)"
proof -
  have "length bs = LENGTH('a) div 8" using assms by simp
  then show ?thesis
    using assms by (cases E) (simp_all add: fromBigEndian_def native_load_def byteswap_def byte_size_def word_size)
qed

lemma native_bytes_to [simp]:
  assumes "8 * n = LENGTH('a::len)"
  shows "native_bytes E (toBigEndian E (w :: 'a word)) = be_bytes n w"
proof -
  have n: "LENGTH('a) div 8 = n" using assms by (metis nonzero_mult_div_cancel_left zero_neq_numeral)
  have "rev (be_bytes n (be_word (rev (be_bytes n w)) :: 'a word)) = be_bytes n w"
    using assms by simp
  then show ?thesis
    by (cases E) (simp_all add: native_bytes_def toBigEndian_def byteswap_def byte_size_def word_size n)
qed

section \<open>Fixed-width fields\<close>

text \<open>What a reader and a writer of one field promise: they transfer \<open>width\<close> bytes at the given
  place and nothing else, and the reader inverts the writer.\<close>

locale wire_field =
  fixes rd :: "buffer \<Rightarrow> nat \<Rightarrow> 'w option"
    and wr :: "buffer \<Rightarrow> nat \<Rightarrow> 'w \<Rightarrow> buffer option"
    and width :: nat
    and enc :: "'w \<Rightarrow> u8 list"
    and dec :: "u8 list \<Rightarrow> 'w"
  assumes rd_eq: "rd mem i = map_option dec (loads mem i width)"
    and wr_eq: "wr mem i v = stores mem i (enc v)"
    and enc_length: "length (enc v) = width"
    and dec_enc: "dec (enc v) = v"
begin

lemma rd_ok: "i + width \<le> length mem \<Longrightarrow> rd mem i = Some (dec (take width (drop i mem)))"
  by (simp add: rd_eq loads_def)

lemma rd_undefined: "length mem < i + width \<Longrightarrow> rd mem i = None"
  by (simp add: rd_eq loads_def)

lemma wr_ok: "i + width \<le> length mem \<Longrightarrow> \<exists>mem'. wr mem i v = Some mem' \<and> length mem' = length mem"
  by (simp add: wr_eq stores_ok enc_length)

lemma rd_wr_same: "wr mem i v = Some mem' \<Longrightarrow> rd mem' i = Some v"
  using loads_stores_same[of mem i "enc v" mem'] by (simp add: rd_eq wr_eq enc_length dec_enc)

lemma loads_wr_frame:
  "wr mem i v = Some mem' \<Longrightarrow> j + n \<le> i \<or> i + width \<le> j \<Longrightarrow> loads mem' j n = loads mem j n"
  using loads_stores_frame[of mem i "enc v" mem' j n] by (simp add: wr_eq enc_length)

lemma rd_skip: "length xs \<le> i \<Longrightarrow> rd (xs @ ys) i = rd ys (i - length xs)"
  by (auto simp: rd_eq loads_def)

lemma rd_skip1: "0 < i \<Longrightarrow> rd (x # ys) i = rd ys (i - 1)"
  using rd_skip[of "[x]" i ys] by simp

lemma rd_hit: "rd (enc v @ ys) 0 = Some v"
  by (simp add: rd_eq loads_def enc_length dec_enc)

lemma rd_hit_last: "rd (enc v) 0 = Some v"
  using rd_hit[of v "[]"] by simp

lemma rd_view: "loads mem p n = Some bs \<Longrightarrow> i + width \<le> n \<Longrightarrow> rd mem (p + i) = rd bs i"
  by (simp add: rd_eq loads_view)

lemma wr_fill:
  "i = length xs \<Longrightarrow> width \<le> k \<Longrightarrow>
   wr (xs @ replicate k c) i v = Some (xs @ enc v @ replicate (k - width) c)"
  by (simp add: wr_eq stores_def enc_length)

end

interpretation f8: wire_field load8 store8 1 "\<lambda>v. [v]" hd
  by unfold_locales (simp_all add: load8_loads store8_stores)

lemma load8_Cons [simp]: "load8 (x # ys) 0 = Some x"
  by (simp add: load8_def)

lemma loads_numeral:
  "loads mem i (numeral k) =
     do { b \<leftarrow> load8 mem i; bs \<leftarrow> loads mem (Suc i) (pred_numeral k); Some (b # bs) }"
  by (simp only: numeral_eq_Suc loads_Suc)

lemma load8_bound: "load8 mem i = Some b \<Longrightarrow> Suc i \<le> length mem"
  by (simp add: load8_def split: if_splits)

lemma readUint16_eq: "readUint16 mem i = map_option be_word (loads mem i 2)"
  by (auto simp: readUint16_def loads_numeral loads_Suc loads_0 be_word_def dest: load8_bound split: bind_splits)

lemma readUint32_eq: "readUint32 mem i = map_option be_word (loads mem i 4)"
  by (auto simp: readUint32_def loads_numeral loads_Suc loads_0 be_word_def push_bit_or or.assoc numeral_3_eq_3 dest: load8_bound
      split: bind_splits)

lemma read_fold:
  "fold_opt (\<lambda>index value. map_option (\<lambda>b. push_bit 8 value OR ucast b) (load8 mem (i + index))) [j..<j + n] v =
   (if n = 0 then Some v else map_option (foldl (\<lambda>value b. push_bit 8 value OR ucast b) v) (loads mem (i + j) n))"
proof (induction n arbitrary: j v)
  case (Suc n)
  have "[j..<j + Suc n] = j # [Suc j..<Suc j + n]" by (simp add: upt_rec)
  then show ?case
    using Suc.IH[of "Suc j"]
    by (cases "n = 0") (auto simp: loads_Suc loads_0 dest: load8_bound split: bind_splits)
qed simp

lemma readUint64_eq: "readUint64 mem i = map_option be_word (loads mem i 8)"
  using read_fold[where j = 0 and n = 8 and v = "0 :: u64"] by (simp add: readUint64_def be_word_def[abs_def])

lemma ucast_low_byte: "ucast (w AND 0xFF) = (ucast (w :: 'a::len word) :: u8)"
proof -
  have m: "0xFF = (mask 8 :: 'a word)" by (simp add: mask_eq_exp_minus_1)
  show ?thesis unfolding m
    by (rule bit_word_eqI) (auto simp: bit_ucast_iff bit_and_iff bit_mask_iff dest: bit_imp_le_length)
qed

lemma bind_fold_Nil [simp]: "Option.bind x (fold_opt f []) = x"
  by (cases x) simp_all

lemma write_fold:
  assumes "j + n \<le> 8"
  shows "fold_opt (\<lambda>index m. store8 m (i + index) (ucast (drop_bit ((7 - index) * 8) v AND 0xFF))) [j..<j + n] mem =
    (if n = 0 then Some mem
     else stores mem (i + j) (map (\<lambda>k. ucast (drop_bit (8 * (7 - k)) (v :: u64))) [j..<j + n]))"
  using assms
proof (induction n arbitrary: j mem)
  case (Suc n)
  have split: "[j..<j + Suc n] = j # [Suc j..<Suc j + n]" by (simp add: upt_rec)
  show ?case
  proof (cases "n = 0")
    case True
    then show ?thesis by (simp add: store8_stores ucast_low_byte mult.commute)
  next
    case False
    let ?b = "ucast (drop_bit (8 * (7 - j)) v) :: u8"
    let ?cs = "map (\<lambda>k. ucast (drop_bit (8 * (7 - k)) v)) [Suc j..<Suc j + n] :: u8 list"
    have IH: "fold_opt (\<lambda>index m. store8 m (i + index) (ucast (drop_bit ((7 - index) * 8) v AND 0xFF)))
        [Suc j..<Suc j + n] = (\<lambda>m. stores m (i + Suc j) ?cs)"
      using Suc.IH[of "Suc j"] Suc.prems False by auto
    have b: "store8 mem (i + j) (ucast (drop_bit ((7 - j) * 8) v AND 0xFF)) = stores mem (i + j) [?b]"
      by (simp add: store8_stores ucast_low_byte mult.commute)
    have "Option.bind (stores mem (i + j) [?b]) (\<lambda>m. stores m (i + Suc j) ?cs) = stores mem (i + j) (?b # ?cs)"
      using stores_stores_adj[of mem "i + j" "[?b]" ?cs] by simp
    then show ?thesis
      unfolding split fold_opt.simps IH b by simp
  qed
qed simp

lemma writeUint64_eq: "writeUint64 mem i v = stores mem i (be_bytes 8 v)"
  using write_fold[of 0 8 i v mem] by (simp add: writeUint64_def be_bytes_def)

lemma writeUint16_eq: "writeUint16 mem i v = stores mem i (be_bytes 2 v)"
proof -
  let ?b = "\<lambda>k. ucast (drop_bit k v) :: u8"
  have "be_bytes 2 v = [?b 8] @ [ucast v]" by (simp add: be_bytes_def numeral_2_eq_2)
  then show ?thesis
    using stores_stores_adj[of mem i "[?b 8]" "[ucast v]"]
    by (simp add: writeUint16_def store8_stores ucast_low_byte)
qed

lemma writeUint32_eq: "writeUint32 mem i v = stores mem i (be_bytes 4 v)"
proof -
  let ?b = "\<lambda>k. ucast (drop_bit k v) :: u8"
  have "be_bytes 4 v = [?b 24, ?b 16, ?b 8] @ [ucast v]" by (simp add: be_bytes_def upt_rec)
  then show ?thesis
    using stores_stores_adj[of mem i "[?b 24]" "[?b 16]"] stores_stores_adj[of mem i "[?b 24, ?b 16]" "[?b 8]"]
      stores_stores_adj[of mem i "[?b 24, ?b 16, ?b 8]" "[ucast v]"]
    by (simp add: writeUint32_def store8_stores ucast_low_byte numeral_3_eq_3 flip: bind_assoc)
qed

interpretation f16: wire_field readUint16 writeUint16 2 "be_bytes 2" be_word
  by unfold_locales (simp_all add: readUint16_eq writeUint16_eq)

interpretation f32: wire_field readUint32 writeUint32 4 "be_bytes 4" be_word
  by unfold_locales (simp_all add: readUint32_eq writeUint32_eq)

interpretation f64: wire_field readUint64 writeUint64 8 "be_bytes 8" be_word
  by unfold_locales (simp_all add: readUint64_eq writeUint64_eq)

text \<open>Packed fields read and written through the byte-order helpers obey the same contract on
  every host.\<close>

lemma be_load_eq:
  assumes "8 * n = LENGTH('a::len)"
  shows "(be_load E mem i :: 'a word option) = map_option be_word (loads mem i n)"
proof -
  have "LENGTH('a) div 8 = n" using assms by (metis nonzero_mult_div_cancel_left zero_neq_numeral)
  then show ?thesis
    using assms by (auto simp: be_load_def load_field_def option.map_comp dest: loads_bounds intro!: map_option_cong)
qed

lemma be_store_eq:
  assumes "8 * n = LENGTH('a::len)"
  shows "be_store E mem i (w :: 'a word) = stores mem i (be_bytes n w)"
  using assms by (simp add: be_store_def store_field_def)

interpretation n16: wire_field "be_load E" "be_store E" 2 "be_bytes 2 :: u16 \<Rightarrow> _" be_word
  by unfold_locales (simp_all add: be_load_eq[of 2] be_store_eq[of 2])

interpretation n32: wire_field "be_load E" "be_store E" 4 "be_bytes 4 :: u32 \<Rightarrow> _" be_word
  by unfold_locales (simp_all add: be_load_eq[of 4] be_store_eq[of 4])

interpretation n64: wire_field "be_load E" "be_store E" 8 "be_bytes 8 :: u64 \<Rightarrow> _" be_word
  by unfold_locales (simp_all add: be_load_eq[of 8] be_store_eq[of 8])

end
