(* ===== verification/OuchProtocol.thy ===== *)
theory OuchProtocol
  imports Wire
begin

text \<open>
  The OUCH order-entry protocol: message structures (\<^verbatim>\<open>execution/ouch/ouch_messages.hpp\<close>), encoders
  (\<^verbatim>\<open>ouch_encoder.cpp\<close>, \<^verbatim>\<open>accepted_encoder.cpp\<close>, \<^verbatim>\<open>executed_encoder.cpp\<close>), decoders
  (\<^verbatim>\<open>execution/ouch/decoders\<close>) and the response dispatcher (\<^verbatim>\<open>ouch_response_dispatcher.cpp\<close>).

  The one-character enumerations have a fixed underlying type and the decoders cast any byte
  into them, so their values are bytes; the named enumerators are definitions.  Decoders have two
  layers of \<open>option\<close>: the outer is undefined behaviour, the inner \<^verbatim>\<open>std::optional\<close>.
\<close>

section \<open>Messages\<close>

type_synonym UserRefNum = u32
type_synonym ClOrdId = "u8 list"

type_synonym TimeInForce = u8
definition TIF_Day :: TimeInForce where "TIF_Day = ch_0"

type_synonym Display = u8
definition Display_Visible :: Display where "Display_Visible = ch_Y"

type_synonym Capacity = u8
definition Capacity_Agency :: Capacity where "Capacity_Agency = ch_A"

type_synonym IsoEligibility = u8
definition Iso_NotEligible :: IsoEligibility where "Iso_NotEligible = ch_N"

type_synonym CrossType = u8
definition Cross_ContinuousMarket :: CrossType where "Cross_ContinuousMarket = ch_N"

type_synonym OrderState = u8
definition OrderState_Live :: OrderState where "OrderState_Live = ch_L"

record EnterOrder =
  eo_userRefNum :: UserRefNum
  eo_side :: Side
  eo_quantity :: Quantity
  eo_symbol :: Symbol
  eo_price :: u64
  eo_timeInForce :: TimeInForce
  eo_display :: Display
  eo_capacity :: Capacity
  eo_isoEligibility :: IsoEligibility
  eo_crossType :: CrossType
  eo_clOrdId :: ClOrdId
  eo_appendageLength :: u16

record Accepted =
  ac_timestamp :: u64
  ac_userRefNum :: UserRefNum
  ac_side :: Side
  ac_quantity :: Quantity
  ac_symbol :: Symbol
  ac_price :: u64
  ac_timeInForce :: TimeInForce
  ac_display :: Display
  ac_orderReferenceNumber :: OrderId
  ac_capacity :: Capacity
  ac_isoEligibility :: IsoEligibility
  ac_crossType :: CrossType
  ac_orderState :: OrderState
  ac_clOrdId :: ClOrdId
  ac_appendageLength :: u16

record Rejected =
  rj_timestamp :: u64
  rj_userRefNum :: UserRefNum
  rj_reason :: u16
  rj_clOrdId :: ClOrdId
  rj_appendageLength :: u16

record Executed =
  ex_timestamp :: u64
  ex_userRefNum :: UserRefNum
  ex_quantity :: Quantity
  ex_price :: u64
  ex_liquidityFlag :: u8
  ex_matchNumber :: u64
  ex_appendageLength :: u16

record Canceled =
  cn_timestamp :: u64
  cn_userRefNum :: UserRefNum
  cn_quantity :: Quantity
  cn_reason :: u8
  cn_appendageLength :: u16

datatype OuchResponse =
    RAccepted Accepted
  | RRejected Rejected
  | RExecuted Executed
  | RCanceled Canceled

section \<open>Encoders\<close>

definition side_char :: "Side \<Rightarrow> u8" where
  "side_char side = (if side = Buy then ch_B else ch_S)"

definition char_side :: "u8 \<Rightarrow> Side" where
  "char_side c = (if c = ch_B then Buy else Sell)"

definition EnterOrderSize :: nat where "EnterOrderSize = 47"
definition AcceptedSize :: nat where "AcceptedSize = 64"
definition ExecutedSize :: nat where "ExecutedSize = 36"

definition encode_enter :: "EnterOrder \<Rightarrow> buffer option" where
  "encode_enter order = do {
     let b = replicate EnterOrderSize ch_space;
     b \<leftarrow> store8 b 0 ch_O;
     b \<leftarrow> writeUint32 b 1 (eo_userRefNum order);
     b \<leftarrow> store8 b 5 (side_char (eo_side order));
     b \<leftarrow> writeUint32 b 6 (eo_quantity order);
     b \<leftarrow> stores b 10 (eo_symbol order);
     b \<leftarrow> writeUint64 b 18 (eo_price order);
     b \<leftarrow> store8 b 26 (eo_timeInForce order);
     b \<leftarrow> store8 b 27 (eo_display order);
     b \<leftarrow> store8 b 28 (eo_capacity order);
     b \<leftarrow> store8 b 29 (eo_isoEligibility order);
     b \<leftarrow> store8 b 30 (eo_crossType order);
     b \<leftarrow> stores b 31 (eo_clOrdId order);
     writeUint16 b 45 0
   }"

definition encode_accepted :: "Accepted \<Rightarrow> buffer option" where
  "encode_accepted accepted = do {
     let b = replicate AcceptedSize ch_space;
     b \<leftarrow> store8 b 0 ch_A;
     b \<leftarrow> writeUint64 b 1 (ac_timestamp accepted);
     b \<leftarrow> writeUint32 b 9 (ac_userRefNum accepted);
     b \<leftarrow> store8 b 13 (side_char (ac_side accepted));
     b \<leftarrow> writeUint32 b 14 (ac_quantity accepted);
     b \<leftarrow> stores b 18 (ac_symbol accepted);
     b \<leftarrow> writeUint64 b 26 (ac_price accepted);
     b \<leftarrow> store8 b 34 (ac_timeInForce accepted);
     b \<leftarrow> store8 b 35 (ac_display accepted);
     b \<leftarrow> writeUint64 b 36 (ac_orderReferenceNumber accepted);
     b \<leftarrow> store8 b 44 (ac_capacity accepted);
     b \<leftarrow> store8 b 45 (ac_isoEligibility accepted);
     b \<leftarrow> store8 b 46 (ac_crossType accepted);
     b \<leftarrow> store8 b 47 (ac_orderState accepted);
     b \<leftarrow> stores b 48 (ac_clOrdId accepted);
     writeUint16 b 62 (ac_appendageLength accepted)
   }"

definition encode_executed :: "Executed \<Rightarrow> buffer option" where
  "encode_executed executed = do {
     let b = replicate ExecutedSize 0;
     b \<leftarrow> store8 b 0 ch_E;
     b \<leftarrow> writeUint64 b 1 (ex_timestamp executed);
     b \<leftarrow> writeUint32 b 9 (ex_userRefNum executed);
     b \<leftarrow> writeUint32 b 13 (ex_quantity executed);
     b \<leftarrow> writeUint64 b 17 (ex_price executed);
     b \<leftarrow> store8 b 25 (ex_liquidityFlag executed);
     b \<leftarrow> writeUint64 b 26 (ex_matchNumber executed);
     writeUint16 b 34 (ex_appendageLength executed)
   }"

section \<open>Decoders\<close>

text \<open>The check every decoder starts with: a non-null pointer, enough bytes and the type byte.\<close>

definition with_message ::
  "u8 \<Rightarrow> nat \<Rightarrow> (nat \<Rightarrow> 'm option option) \<Rightarrow> buffer \<Rightarrow> cptr \<Rightarrow> nat \<Rightarrow> 'm option option" where
  "with_message messageType fixedSize decode mem data len =
     (case data of
        None \<Rightarrow> Some None
      | Some p \<Rightarrow>
          if len < fixedSize then Some None
          else do {
            t \<leftarrow> load8 mem p;
            if t \<noteq> messageType then Some None else decode p
          })"

definition decodeEnterOrder :: "buffer \<Rightarrow> cptr \<Rightarrow> nat \<Rightarrow> EnterOrder option option" where
  "decodeEnterOrder mem data len = with_message ch_O 47 (\<lambda>p. do {
     userRefNum \<leftarrow> readUint32 mem (p + 1);
     side \<leftarrow> load8 mem (p + 5);
     quantity \<leftarrow> readUint32 mem (p + 6);
     symbol \<leftarrow> loads mem (p + 10) 8;
     price \<leftarrow> readUint64 mem (p + 18);
     timeInForce \<leftarrow> load8 mem (p + 26);
     display \<leftarrow> load8 mem (p + 27);
     capacity \<leftarrow> load8 mem (p + 28);
     isoEligibility \<leftarrow> load8 mem (p + 29);
     crossType \<leftarrow> load8 mem (p + 30);
     clOrdId \<leftarrow> loads mem (p + 31) 14;
     appendageLength \<leftarrow> readUint16 mem (p + 45);
     Some (Some \<lparr>eo_userRefNum = userRefNum, eo_side = char_side side, eo_quantity = quantity,
       eo_symbol = symbol, eo_price = price, eo_timeInForce = timeInForce, eo_display = display,
       eo_capacity = capacity, eo_isoEligibility = isoEligibility, eo_crossType = crossType,
       eo_clOrdId = clOrdId, eo_appendageLength = appendageLength\<rparr>)
   }) mem data len"

definition decodeAccepted :: "buffer \<Rightarrow> cptr \<Rightarrow> nat \<Rightarrow> Accepted option option" where
  "decodeAccepted mem data len = with_message ch_A 64 (\<lambda>p. do {
     timestamp \<leftarrow> readUint64 mem (p + 1);
     userRefNum \<leftarrow> readUint32 mem (p + 9);
     side \<leftarrow> load8 mem (p + 13);
     quantity \<leftarrow> readUint32 mem (p + 14);
     symbol \<leftarrow> loads mem (p + 18) 8;
     price \<leftarrow> readUint64 mem (p + 26);
     timeInForce \<leftarrow> load8 mem (p + 34);
     display \<leftarrow> load8 mem (p + 35);
     orderReferenceNumber \<leftarrow> readUint64 mem (p + 36);
     capacity \<leftarrow> load8 mem (p + 44);
     isoEligibility \<leftarrow> load8 mem (p + 45);
     crossType \<leftarrow> load8 mem (p + 46);
     orderState \<leftarrow> load8 mem (p + 47);
     clOrdId \<leftarrow> loads mem (p + 48) 14;
     appendageLength \<leftarrow> readUint16 mem (p + 62);
     if len < 64 + unat appendageLength then Some None
     else Some (Some \<lparr>ac_timestamp = timestamp, ac_userRefNum = userRefNum, ac_side = char_side side,
       ac_quantity = quantity, ac_symbol = symbol, ac_price = price, ac_timeInForce = timeInForce,
       ac_display = display, ac_orderReferenceNumber = orderReferenceNumber, ac_capacity = capacity,
       ac_isoEligibility = isoEligibility, ac_crossType = crossType, ac_orderState = orderState,
       ac_clOrdId = clOrdId, ac_appendageLength = appendageLength\<rparr>)
   }) mem data len"

definition decodeRejected :: "buffer \<Rightarrow> cptr \<Rightarrow> nat \<Rightarrow> Rejected option option" where
  "decodeRejected mem data len = with_message ch_J 31 (\<lambda>p. do {
     timestamp \<leftarrow> readUint64 mem (p + 1);
     userRefNum \<leftarrow> readUint32 mem (p + 9);
     reason \<leftarrow> readUint16 mem (p + 13);
     clOrdId \<leftarrow> loads mem (p + 15) 14;
     appendageLength \<leftarrow> readUint16 mem (p + 29);
     if len < 31 + unat appendageLength then Some None
     else Some (Some \<lparr>rj_timestamp = timestamp, rj_userRefNum = userRefNum, rj_reason = reason,
       rj_clOrdId = clOrdId, rj_appendageLength = appendageLength\<rparr>)
   }) mem data len"

definition decodeExecuted :: "buffer \<Rightarrow> cptr \<Rightarrow> nat \<Rightarrow> Executed option option" where
  "decodeExecuted mem data len = with_message ch_E 36 (\<lambda>p. do {
     timestamp \<leftarrow> readUint64 mem (p + 1);
     userRefNum \<leftarrow> readUint32 mem (p + 9);
     quantity \<leftarrow> readUint32 mem (p + 13);
     price \<leftarrow> readUint64 mem (p + 17);
     liquidityFlag \<leftarrow> load8 mem (p + 25);
     matchNumber \<leftarrow> readUint64 mem (p + 26);
     appendageLength \<leftarrow> readUint16 mem (p + 34);
     if len < 36 + unat appendageLength then Some None
     else Some (Some \<lparr>ex_timestamp = timestamp, ex_userRefNum = userRefNum, ex_quantity = quantity,
       ex_price = price, ex_liquidityFlag = liquidityFlag, ex_matchNumber = matchNumber,
       ex_appendageLength = appendageLength\<rparr>)
   }) mem data len"

definition decodeCanceled :: "buffer \<Rightarrow> cptr \<Rightarrow> nat \<Rightarrow> Canceled option option" where
  "decodeCanceled mem data len = with_message ch_C 18 (\<lambda>p. do {
     timestamp \<leftarrow> readUint64 mem (p + 1);
     userRefNum \<leftarrow> readUint32 mem (p + 9);
     quantity \<leftarrow> readUint32 mem (p + 13);
     reason \<leftarrow> load8 mem (p + 17);
     Some (Some \<lparr>cn_timestamp = timestamp, cn_userRefNum = userRefNum, cn_quantity = quantity,
       cn_reason = reason, cn_appendageLength = 0\<rparr>)
   }) mem data len"

definition response_dispatch :: "buffer \<Rightarrow> cptr \<Rightarrow> nat \<Rightarrow> OuchResponse option option" where
  "response_dispatch mem data len =
     (case data of
        None \<Rightarrow> Some None
      | Some p \<Rightarrow>
          if len = 0 then Some None
          else do {
            t \<leftarrow> load8 mem p;
            if t = ch_A then map_option (map_option RAccepted) (decodeAccepted mem data len)
            else if t = ch_J then map_option (map_option RRejected) (decodeRejected mem data len)
            else if t = ch_E then map_option (map_option RExecuted) (decodeExecuted mem data len)
            else if t = ch_C then map_option (map_option RCanceled) (decodeCanceled mem data len)
            else Some None
          })"

section \<open>Layouts\<close>

definition enter_bytes :: "EnterOrder \<Rightarrow> u8 list" where
  "enter_bytes eo = [ch_O] @ be_bytes 4 (eo_userRefNum eo) @ [side_char (eo_side eo)] @ be_bytes 4 (eo_quantity eo) @
     eo_symbol eo @ be_bytes 8 (eo_price eo) @
     [eo_timeInForce eo, eo_display eo, eo_capacity eo, eo_isoEligibility eo, eo_crossType eo] @ eo_clOrdId eo @
     be_bytes 2 (0 :: u16)"

definition accepted_bytes :: "Accepted \<Rightarrow> u8 list" where
  "accepted_bytes a = [ch_A] @ be_bytes 8 (ac_timestamp a) @ be_bytes 4 (ac_userRefNum a) @ [side_char (ac_side a)] @
     be_bytes 4 (ac_quantity a) @ ac_symbol a @ be_bytes 8 (ac_price a) @ [ac_timeInForce a, ac_display a] @
     be_bytes 8 (ac_orderReferenceNumber a) @
     [ac_capacity a, ac_isoEligibility a, ac_crossType a, ac_orderState a] @ ac_clOrdId a @
     be_bytes 2 (ac_appendageLength a)"

definition executed_bytes :: "Executed \<Rightarrow> u8 list" where
  "executed_bytes x = [ch_E] @ be_bytes 8 (ex_timestamp x) @ be_bytes 4 (ex_userRefNum x) @
     be_bytes 4 (ex_quantity x) @ be_bytes 8 (ex_price x) @ [ex_liquidityFlag x] @
     be_bytes 8 (ex_matchNumber x) @ be_bytes 2 (ex_appendageLength x)"

definition rejected_bytes :: "Rejected \<Rightarrow> u8 list" where
  "rejected_bytes r = [ch_J] @ be_bytes 8 (rj_timestamp r) @ be_bytes 4 (rj_userRefNum r) @
     be_bytes 2 (rj_reason r) @ rj_clOrdId r @ be_bytes 2 (rj_appendageLength r)"

definition canceled_bytes :: "Canceled \<Rightarrow> u8 list" where
  "canceled_bytes c = [ch_C] @ be_bytes 8 (cn_timestamp c) @ be_bytes 4 (cn_userRefNum c) @
     be_bytes 4 (cn_quantity c) @ [cn_reason c]"

lemma char_side_char [simp]: "char_side (side_char s) = s"
  by (simp add: char_side_def side_char_def)

text \<open>The encoders fill their buffer from left to right; each write extends the finished part.\<close>

lemma store8_fill:
  "i = length xs \<Longrightarrow> 1 \<le> k \<Longrightarrow> store8 (xs @ replicate k c) i v = Some ((xs @ [v]) @ replicate (k - 1) c)"
  using f8.wr_fill[of i xs k c v] by simp

lemma write16_fill:
  "i = length xs \<Longrightarrow> 2 \<le> k \<Longrightarrow> writeUint16 (xs @ replicate k c) i v = Some ((xs @ be_bytes 2 v) @ replicate (k - 2) c)"
  using f16.wr_fill[of i xs k c v] by simp

lemma write32_fill:
  "i = length xs \<Longrightarrow> 4 \<le> k \<Longrightarrow> writeUint32 (xs @ replicate k c) i v = Some ((xs @ be_bytes 4 v) @ replicate (k - 4) c)"
  using f32.wr_fill[of i xs k c v] by simp

lemma write64_fill:
  "i = length xs \<Longrightarrow> 8 \<le> k \<Longrightarrow> writeUint64 (xs @ replicate k c) i v = Some ((xs @ be_bytes 8 v) @ replicate (k - 8) c)"
  using f64.wr_fill[of i xs k c v] by simp

lemma stores_fill:
  "i = length xs \<Longrightarrow> length bs \<le> k \<Longrightarrow>
   stores (xs @ replicate k c) i bs = Some ((xs @ bs) @ replicate (k - length bs) c)"
  by (simp add: stores_def)

lemmas fills = write16_fill write32_fill write64_fill stores_fill store8_fill

lemma encode_enter_bytes:
  assumes "length (eo_symbol eo) = 8" "length (eo_clOrdId eo) = 14"
  shows "encode_enter eo = Some (enter_bytes eo)"
proof -
  have "replicate EnterOrderSize ch_space = [] @ replicate 47 ch_space" by (simp add: EnterOrderSize_def)
  then show ?thesis
    unfolding encode_enter_def Let_def enter_bytes_def
    by (simp add: fills assms del: append_assoc append_Cons append_Nil)
qed

lemma encode_accepted_bytes:
  assumes "length (ac_symbol a) = 8" "length (ac_clOrdId a) = 14"
  shows "encode_accepted a = Some (accepted_bytes a)"
proof -
  have "replicate AcceptedSize ch_space = [] @ replicate 64 ch_space" by (simp add: AcceptedSize_def)
  then show ?thesis
    unfolding encode_accepted_def Let_def accepted_bytes_def
    by (simp add: fills assms del: append_assoc append_Cons append_Nil)
qed

lemma encode_executed_bytes: "encode_executed x = Some (executed_bytes x)"
proof -
  have "replicate ExecutedSize (0 :: u8) = [] @ replicate 36 0" by (simp add: ExecutedSize_def)
  then show ?thesis
    unfolding encode_executed_def Let_def executed_bytes_def
    by (simp add: fills del: append_assoc append_Cons append_Nil)
qed

section \<open>Decoding\<close>

lemma loads_skip: "length xs \<le> i \<Longrightarrow> loads (xs @ ys) i n = loads ys (i - length xs) n"
  by (auto simp: loads_def)

lemma loads_skip1: "0 < i \<Longrightarrow> loads (y # ys) i n = loads ys (i - 1) n"
  using loads_skip[of "[y]" i ys n] by simp

lemma loads_hit: "length xs = n \<Longrightarrow> loads (xs @ ys) 0 n = Some xs"
  by (simp add: loads_def)

lemmas ouch_skips = f8.rd_skip f16.rd_skip f32.rd_skip f64.rd_skip f8.rd_skip1 f16.rd_skip1 f32.rd_skip1 f64.rd_skip1
  f16.rd_hit f32.rd_hit f64.rd_hit f16.rd_hit_last f32.rd_hit_last f64.rd_hit_last loads_skip loads_skip1 loads_hit

lemmas decoder_defs = decodeEnterOrder_def decodeAccepted_def decodeRejected_def decodeExecuted_def
  decodeCanceled_def with_message_def

text \<open>A decoder sees only the bytes of the message it is given.\<close>

lemma decode_views:
  assumes "loads mem p n = Some bs"
  shows "decodeEnterOrder mem (Some p) n = decodeEnterOrder bs (Some 0) n"
    and "decodeAccepted mem (Some p) n = decodeAccepted bs (Some 0) n"
    and "decodeRejected mem (Some p) n = decodeRejected bs (Some 0) n"
    and "decodeExecuted mem (Some p) n = decodeExecuted bs (Some 0) n"
    and "decodeCanceled mem (Some p) n = decodeCanceled bs (Some 0) n"
  by (simp_all add: decoder_defs f8.rd_view[OF assms] f16.rd_view[OF assms] f32.rd_view[OF assms]
      f64.rd_view[OF assms] loads_view[OF assms] f8.rd_view[OF assms, of 0, simplified]
      f64.rd_view[OF assms, of 1, simplified] f32.rd_view[OF assms, of 1, simplified] cong: if_cong)

lemma response_view:
  assumes "loads mem p n = Some bs"
  shows "response_dispatch mem (Some p) n = response_dispatch bs (Some 0) n"
  using f8.rd_view[OF assms, of 0]
  by (simp add: response_dispatch_def decode_views[OF assms] cong: if_cong)

lemma decode_enter:
  assumes "length (eo_symbol eo) = 8" "length (eo_clOrdId eo) = 14"
  shows "decodeEnterOrder (enter_bytes eo @ rest) (Some 0) (47 + length rest) = Some (Some (eo\<lparr>eo_appendageLength := 0\<rparr>))"
  using assms by (simp add: decoder_defs enter_bytes_def ouch_skips)

lemma decode_accepted:
  assumes "length (ac_symbol a) = 8" "length (ac_clOrdId a) = 14" "unat (ac_appendageLength a) \<le> length rest"
  shows "decodeAccepted (accepted_bytes a @ rest) (Some 0) (64 + length rest) = Some (Some a)"
  using assms by (simp add: decoder_defs accepted_bytes_def ouch_skips)

lemma decode_rejected:
  assumes "length (rj_clOrdId r) = 14" "unat (rj_appendageLength r) \<le> length rest"
  shows "decodeRejected (rejected_bytes r @ rest) (Some 0) (31 + length rest) = Some (Some r)"
  using assms by (simp add: decoder_defs rejected_bytes_def ouch_skips)

lemma decode_executed:
  assumes "unat (ex_appendageLength x) \<le> length rest"
  shows "decodeExecuted (executed_bytes x @ rest) (Some 0) (36 + length rest) = Some (Some x)"
  using assms by (simp add: decoder_defs executed_bytes_def ouch_skips)

lemma decode_canceled:
  "decodeCanceled (canceled_bytes c @ rest) (Some 0) (18 + length rest) = Some (Some (c\<lparr>cn_appendageLength := 0\<rparr>))"
  by (simp add: decoder_defs canceled_bytes_def ouch_skips)

section \<open>Properties\<close>

fun response_bytes :: "OuchResponse \<Rightarrow> u8 list" where
  "response_bytes (RAccepted a) = accepted_bytes a"
| "response_bytes (RRejected r) = rejected_bytes r"
| "response_bytes (RExecuted x) = executed_bytes x"
| "response_bytes (RCanceled c) = canceled_bytes c"

text \<open>Array fields of their fixed sizes; an appendage no longer than declared, which the \<^verbatim>\<open>Canceled\<close>
  message does not carry.\<close>

fun response_ok :: "OuchResponse \<Rightarrow> nat \<Rightarrow> bool" where
  "response_ok (RAccepted a) n \<longleftrightarrow>
     length (ac_symbol a) = 8 \<and> length (ac_clOrdId a) = 14 \<and> unat (ac_appendageLength a) \<le> n"
| "response_ok (RRejected r) n \<longleftrightarrow> length (rj_clOrdId r) = 14 \<and> unat (rj_appendageLength r) \<le> n"
| "response_ok (RExecuted x) n \<longleftrightarrow> unat (ex_appendageLength x) \<le> n"
| "response_ok (RCanceled c) n \<longleftrightarrow> cn_appendageLength c = 0"

lemma response_bytes_first: "\<exists>t ts. response_bytes r = t # ts \<and>
    t = (case r of RAccepted _ \<Rightarrow> ch_A | RRejected _ \<Rightarrow> ch_J | RExecuted _ \<Rightarrow> ch_E | RCanceled _ \<Rightarrow> ch_C)"
  by (cases r) (simp_all add: accepted_bytes_def rejected_bytes_def executed_bytes_def canceled_bytes_def)

lemma dispatch_response:
  assumes "response_ok r (length rest)"
  shows "response_dispatch (response_bytes r @ rest) (Some 0) (length (response_bytes r @ rest)) = Some (Some r)"
proof -
  obtain t ts where t: "response_bytes r = t # ts"
    "t = (case r of RAccepted _ \<Rightarrow> ch_A | RRejected _ \<Rightarrow> ch_J | RExecuted _ \<Rightarrow> ch_E | RCanceled _ \<Rightarrow> ch_C)"
    using response_bytes_first by blast
  have l: "load8 (response_bytes r @ rest) 0 = Some t" by (simp add: t(1))
  show ?thesis
  proof (cases r)
    case (RAccepted a)
    then have "length (response_bytes r) = 64" using assms by (simp add: accepted_bytes_def)
    then show ?thesis using RAccepted l t(2) decode_accepted[of a rest] assms by (simp add: response_dispatch_def)
  next
    case (RRejected j)
    then have "length (response_bytes r) = 31" using assms by (simp add: rejected_bytes_def)
    then show ?thesis using RRejected l t(2) decode_rejected[of j rest] assms by (simp add: response_dispatch_def)
  next
    case (RExecuted x)
    then have "length (response_bytes r) = 36" by (simp add: executed_bytes_def)
    then show ?thesis using RExecuted l t(2) decode_executed[of x rest] assms by (simp add: response_dispatch_def)
  next
    case (RCanceled c)
    then have "length (response_bytes r) = 18" by (simp add: canceled_bytes_def)
    moreover have "c\<lparr>cn_appendageLength := 0\<rparr> = c" using RCanceled assms by (cases c) simp
    ultimately show ?thesis using RCanceled l t(2) decode_canceled[of c rest] by (simp add: response_dispatch_def)
  qed
qed

text \<open>An \<^verbatim>\<open>EnterOrder\<close> survives the wire: the encoder fills its 47 bytes without leaving the buffer,
  and the decoder, given those bytes anywhere in a larger buffer, returns the same order with an
  empty appendage.\<close>

lemma ouch_enter_roundtrip:
  assumes "length (eo_symbol eo) = 8" "length (eo_clOrdId eo) = 14"
  shows "\<exists>b. encode_enter eo = Some b \<and> length b = 47 \<and>
    decodeEnterOrder (pre @ b @ post) (Some (length pre)) 47 = Some (Some (eo\<lparr>eo_appendageLength := 0\<rparr>))"
proof -
  have "length (enter_bytes eo) = 47" using assms by (simp add: enter_bytes_def)
  moreover from this have "loads (pre @ enter_bytes eo @ post) (length pre) 47 = Some (enter_bytes eo)"
    by (simp add: loads_def)
  ultimately show ?thesis
    using encode_enter_bytes[OF assms] decode_enter[OF assms, of "[]"] decode_views(1) by simp
qed

definition demo_enter :: EnterOrder where
  "demo_enter = \<lparr>eo_userRefNum = 9, eo_side = Sell, eo_quantity = 300, eo_symbol = replicate 8 ch_A, eo_price = 1000000,
     eo_timeInForce = TIF_Day, eo_display = Display_Visible, eo_capacity = Capacity_Agency,
     eo_isoEligibility = Iso_NotEligible, eo_crossType = Cross_ContinuousMarket, eo_clOrdId = replicate 14 0,
     eo_appendageLength = 0\<rparr>"

text \<open>C24. Responses survive the wire: the \<^verbatim>\<open>Accepted\<close> and \<^verbatim>\<open>Executed\<close> encoders produce the layout, and
  the dispatcher returns the very response from the bytes of any of the four kinds followed by
  at least the declared appendage.\<close>

theorem ouch_response_roundtrip:
  assumes "response_ok r (length rest)"
  shows "(case r of RAccepted a \<Rightarrow> encode_accepted a = Some (response_bytes r)
      | RExecuted x \<Rightarrow> encode_executed x = Some (response_bytes r) | _ \<Rightarrow> True) \<and>
    response_dispatch (pre @ response_bytes r @ rest) (Some (length pre)) (length (response_bytes r @ rest)) =
      Some (Some r)"
proof -
  have "loads (pre @ response_bytes r @ rest) (length pre) (length (response_bytes r @ rest)) =
      Some (response_bytes r @ rest)" by (simp add: loads_def)
  from response_view[OF this] dispatch_response[OF assms]
  have "response_dispatch (pre @ response_bytes r @ rest) (Some (length pre)) (length (response_bytes r @ rest)) =
      Some (Some r)" by simp
  moreover have "case r of RAccepted a \<Rightarrow> encode_accepted a = Some (response_bytes r)
      | RExecuted x \<Rightarrow> encode_executed x = Some (response_bytes r) | _ \<Rightarrow> True"
    using assms by (cases r) (simp_all add: encode_accepted_bytes encode_executed_bytes)
  ultimately show ?thesis by blast
qed

definition demo_executed :: Executed where
  "demo_executed = \<lparr>ex_timestamp = 0, ex_userRefNum = 5, ex_quantity = 100, ex_price = 99, ex_liquidityFlag = 82,
     ex_matchNumber = 1001, ex_appendageLength = 0\<rparr>"

theorem ouch_response_roundtrip_witness:
  "\<exists>b. encode_executed demo_executed = Some b \<and>
     response_dispatch b (Some 0) (length b) = Some (Some (RExecuted demo_executed))"
  using ouch_response_roundtrip[of "RExecuted demo_executed" "[]" "[]"] by (simp add: demo_executed_def)

definition response_size :: "u8 \<Rightarrow> nat option" where
  "response_size t = (if t = ch_A then Some 64 else if t = ch_J then Some 31 else if t = ch_E then Some 36
     else if t = ch_C then Some 18 else None)"

text \<open>On arbitrary bytes the decoders never read outside the message they are given: the
  order decoder yields an order exactly for 47 or more bytes of type O, and the response dispatcher
  yields a response only for a known type with its full fixed part.\<close>

lemma ouch_decoders_total:
  assumes "loads mem p n = Some bs"
  shows "(\<exists>r. decodeEnterOrder mem (Some p) n = Some r \<and> (r \<noteq> None \<longleftrightarrow> 47 \<le> n \<and> bs ! 0 = ch_O)) \<and>
    (\<exists>r. response_dispatch mem (Some p) n = Some r \<and>
      (r \<noteq> None \<longrightarrow> 0 < n \<and> (\<exists>k. response_size (bs ! 0) = Some k \<and> k \<le> n)))"
proof -
  have len: "length bs = n" using loads_bounds[OF assms] by blast
  note ok = f8.rd_ok f16.rd_ok f32.rd_ok f64.rd_ok loads_ok
  have l0: "load8 bs 0 = Some (bs ! 0)" if "0 < n" using that len by (simp add: load8_def)
  have hd: "hd bs = bs ! 0" if "0 < n" using that len by (simp add: hd_conv_nth flip: length_greater_0_conv)
  have "\<exists>r. decodeEnterOrder bs (Some 0) n = Some r \<and> (r \<noteq> None \<longleftrightarrow> 47 \<le> n \<and> bs ! 0 = ch_O)"
    by (cases "47 \<le> n"; cases "bs ! 0 = ch_O") (simp_all add: decoder_defs ok len hd)
  moreover have "\<exists>r. decodeAccepted bs (Some 0) n = Some r \<and> (r \<noteq> None \<longrightarrow> 64 \<le> n)"
    by (cases "64 \<le> n"; cases "bs ! 0 = ch_A") (simp_all add: decoder_defs ok len hd)
  moreover have "\<exists>r. decodeRejected bs (Some 0) n = Some r \<and> (r \<noteq> None \<longrightarrow> 31 \<le> n)"
    by (cases "31 \<le> n"; cases "bs ! 0 = ch_J") (simp_all add: decoder_defs ok len hd)
  moreover have "\<exists>r. decodeExecuted bs (Some 0) n = Some r \<and> (r \<noteq> None \<longrightarrow> 36 \<le> n)"
    by (cases "36 \<le> n"; cases "bs ! 0 = ch_E") (simp_all add: decoder_defs ok len hd)
  moreover have "\<exists>r. decodeCanceled bs (Some 0) n = Some r \<and> (r \<noteq> None \<longrightarrow> 18 \<le> n)"
    by (cases "18 \<le> n"; cases "bs ! 0 = ch_C") (simp_all add: decoder_defs ok len hd)
  ultimately show ?thesis
    unfolding decode_views(1)[OF assms] response_view[OF assms]
    using l0 by (cases "n = 0") (auto simp: response_dispatch_def response_size_def)
qed

end
