(* ===== verification/PriceLevels.thy ===== *)
theory PriceLevels
  imports Prelude
begin

text \<open>
  Orders and the FIFO queue of one price level
  (\<^verbatim>\<open>orderbook/software/order.hpp\<close>, \<^verbatim>\<open>orderbook/software/price_level.hpp\<close>).

  Orders live in a heap indexed by address; the queue is intrusive, so a level
  holds only the addresses of its first and last order and every order carries the
  links.  A \<^verbatim>\<open>PriceLevel*\<close> always points into one of the book's two level arrays; it
  is the pair of the side and the index.  The theory relates the linked structure
  to the list of addresses it represents and shows what \<^verbatim>\<open>push_back\<close>, \<^verbatim>\<open>remove\<close> and
  \<^verbatim>\<open>pop_front\<close> do to that list, to the running total, and to the rest of the heap.
\<close>

section \<open>Data\<close>

type_synonym level_ref = "Side \<times> nat"

record Order =
  ord_id :: OrderId
  ord_account :: AccountId
  ord_side :: Side
  ord_price :: Price
  ord_quantity :: Quantity
  ord_level :: "level_ref option"
  ord_prev :: "ptr option"
  ord_next :: "ptr option"

type_synonym heap = "ptr \<Rightarrow> Order"

record PriceLevel =
  lvl_price :: Price
  lvl_head :: "ptr option"
  lvl_tail :: "ptr option"
  lvl_total :: Quantity

definition new_level :: PriceLevel where
  "new_level = \<lparr>lvl_price = 0, lvl_head = None, lvl_tail = None, lvl_total = 0\<rparr>"

definition lvl_empty :: "PriceLevel \<Rightarrow> bool" where
  "lvl_empty l \<longleftrightarrow> lvl_head l = None"

definition lvl_front :: "PriceLevel \<Rightarrow> ptr option" where
  "lvl_front l = lvl_head l"

section \<open>Operations\<close>

definition lvl_push_back :: "level_ref \<Rightarrow> ptr \<Rightarrow> heap \<times> PriceLevel \<Rightarrow> heap \<times> PriceLevel" where
  "lvl_push_back this p = (\<lambda>(h, l).
     let h1 = h(p := (h p)\<lparr>ord_level := Some this, ord_prev := lvl_tail l, ord_next := None\<rparr>);
         (h2, l1) =
           (case lvl_tail l of
              Some t \<Rightarrow> (h1(t := (h1 t)\<lparr>ord_next := Some p\<rparr>), l)
            | None \<Rightarrow> (h1, l\<lparr>lvl_head := Some p\<rparr>));
         l2 = l1\<lparr>lvl_tail := Some p\<rparr>
     in (h2, l2\<lparr>lvl_total := lvl_total l2 + ord_quantity (h2 p)\<rparr>))"

definition lvl_remove :: "ptr option \<Rightarrow> heap \<times> PriceLevel \<Rightarrow> heap \<times> PriceLevel" where
  "lvl_remove order = (\<lambda>(h, l).
     case order of
       None \<Rightarrow> (h, l)
     | Some p \<Rightarrow>
         let (h1, l1) =
               (case ord_prev (h p) of
                  Some q \<Rightarrow> (h(q := (h q)\<lparr>ord_next := ord_next (h p)\<rparr>), l)
                | None \<Rightarrow> (h, l\<lparr>lvl_head := ord_next (h p)\<rparr>));
             (h2, l2) =
               (case ord_next (h1 p) of
                  Some q \<Rightarrow> (h1(q := (h1 q)\<lparr>ord_prev := ord_prev (h1 p)\<rparr>), l1)
                | None \<Rightarrow> (h1, l1\<lparr>lvl_tail := ord_prev (h1 p)\<rparr>));
             l3 = l2\<lparr>lvl_total := lvl_total l2 - ord_quantity (h2 p)\<rparr>
         in (h2(p := (h2 p)\<lparr>ord_level := None, ord_prev := None, ord_next := None\<rparr>), l3))"

definition lvl_pop_front :: "heap \<times> PriceLevel \<Rightarrow> ptr option \<times> heap \<times> PriceLevel" where
  "lvl_pop_front = (\<lambda>(h, l).
     case lvl_head l of
       None \<Rightarrow> (None, h, l)
     | Some p \<Rightarrow> (Some p, lvl_remove (Some p) (h, l)))"

section \<open>The queue a level represents\<close>

definition first_of :: "'a list \<Rightarrow> 'a option \<Rightarrow> 'a option" where
  "first_of xs d = (case xs of [] \<Rightarrow> d | x # _ \<Rightarrow> Some x)"

definition last_of :: "'a list \<Rightarrow> 'a option \<Rightarrow> 'a option" where
  "last_of xs d = (if xs = [] then d else Some (last xs))"

lemma first_of_simps [simp]:
  "first_of [] d = d" "first_of (x # xs) d = Some x"
  "first_of (xs @ ys) d = first_of xs (first_of ys d)"
  by (auto simp: first_of_def split: list.splits)

lemma last_of_simps [simp]:
  "last_of [] d = d" "last_of (x # xs) d = last_of xs (Some x)"
  "last_of (xs @ ys) d = last_of ys (last_of xs d)"
  by (auto simp: last_of_def)

lemma first_of_None [simp]:
  "first_of xs None = None \<longleftrightarrow> xs = []" "None = first_of xs None \<longleftrightarrow> xs = []"
  by (auto simp: first_of_def split: list.splits)

lemma last_of_None [simp]:
  "last_of xs None = None \<longleftrightarrow> xs = []" "None = last_of xs None \<longleftrightarrow> xs = []"
  by (auto simp: last_of_def)

lemma first_of_SomeD: "first_of xs None = Some x \<Longrightarrow> \<exists>ys. xs = x # ys"
  by (cases xs) auto

lemma last_of_SomeD: "last_of xs None = Some x \<Longrightarrow> \<exists>ys. xs = ys @ [x]"
  by (cases xs rule: rev_cases) auto

text \<open>\<open>seg h p xs n\<close>: the orders \<open>xs\<close> are linked in this order, the first one's
  \<^verbatim>\<open>prev\<close> is \<open>p\<close> and the last one's \<^verbatim>\<open>next\<close> is \<open>n\<close>.\<close>

fun seg :: "heap \<Rightarrow> ptr option \<Rightarrow> ptr list \<Rightarrow> ptr option \<Rightarrow> bool" where
  "seg h p [] n \<longleftrightarrow> True"
| "seg h p (x # xs) n \<longleftrightarrow>
     ord_prev (h x) = p \<and> ord_next (h x) = first_of xs n \<and> seg h (Some x) xs n"

lemma seg_append:
  "seg h p (xs @ ys) n \<longleftrightarrow> seg h p xs (first_of ys n) \<and> seg h (last_of xs p) ys n"
  by (induction xs arbitrary: p) auto

lemma seg_cong:
  assumes "\<And>x. x \<in> set xs \<Longrightarrow> ord_prev (h' x) = ord_prev (h x) \<and> ord_next (h' x) = ord_next (h x)"
  shows "seg h' p xs n = seg h p xs n"
  using assms by (induction xs arbitrary: p) auto

definition lvl_rep :: "heap \<Rightarrow> PriceLevel \<Rightarrow> ptr list \<Rightarrow> bool" where
  "lvl_rep h l xs \<longleftrightarrow>
     seg h None xs None \<and> lvl_head l = first_of xs None \<and> lvl_tail l = last_of xs None \<and> distinct xs"

lemma lvl_rep_empty: "lvl_rep h l xs \<Longrightarrow> lvl_empty l \<longleftrightarrow> xs = []"
  by (simp add: lvl_rep_def lvl_empty_def)

lemma lvl_rep_cong:
  assumes "\<And>x. x \<in> set xs \<Longrightarrow> h' x = h x"
    "lvl_head l' = lvl_head l" "lvl_tail l' = lvl_tail l"
  shows "lvl_rep h' l' xs = lvl_rep h l xs"
  using assms seg_cong[of xs h' h] by (simp add: lvl_rep_def)

text \<open>Everything of an order but the links.\<close>

definition payload :: "Order \<Rightarrow> OrderId \<times> AccountId \<times> Side \<times> Price \<times> Quantity" where
  "payload r = (ord_id r, ord_account r, ord_side r, ord_price r, ord_quantity r)"

lemma payload_links [simp]:
  "payload (r\<lparr>ord_level := a\<rparr>) = payload r" "payload (r\<lparr>ord_prev := b\<rparr>) = payload r"
  "payload (r\<lparr>ord_next := b\<rparr>) = payload r"
  by (simp_all add: payload_def)

definition queue_total :: "heap \<Rightarrow> ptr list \<Rightarrow> Quantity" where
  "queue_total h xs = (\<Sum>x\<leftarrow>xs. ord_quantity (h x))"

lemma queue_total_simps [simp]:
  "queue_total h [] = 0" "queue_total h (x # xs) = ord_quantity (h x) + queue_total h xs"
  "queue_total h (xs @ ys) = queue_total h xs + queue_total h ys"
  by (simp_all add: queue_total_def)

lemma queue_total_cong:
  "(\<And>x. x \<in> set xs \<Longrightarrow> ord_quantity (h' x) = ord_quantity (h x)) \<Longrightarrow> queue_total h' xs = queue_total h xs"
  by (induction xs) auto

section \<open>Appending\<close>

lemma seg_set_last:
  assumes "seg h p xs n" "distinct xs" "last_of xs None = Some t"
  shows "seg (h(t := (h t)\<lparr>ord_next := m\<rparr>)) p xs m"
proof -
  from last_of_SomeD[OF assms(3)] obtain ys where xs: "xs = ys @ [t]" ..
  with assms(2) have "t \<notin> set ys" by simp
  then have "seg (h(t := (h t)\<lparr>ord_next := m\<rparr>)) p ys (Some t) = seg h p ys (Some t)"
    by (intro seg_cong) auto
  with assms(1) show ?thesis by (simp add: xs seg_append)
qed

lemma push_back_queue:
  assumes rep: "lvl_rep h l xs" and p: "p \<notin> set xs"
    and push: "lvl_push_back this p (h, l) = (h', l')"
  shows "lvl_rep h' l' (xs @ [p])"
    and "payload (h' q) = payload (h q)"
    and "ord_level (h' q) = (if q = p then Some this else ord_level (h q))"
    and "q \<notin> insert p (set xs) \<Longrightarrow> h' q = h q"
    and "lvl_price l' = lvl_price l"
    and "lvl_total l' = lvl_total l + ord_quantity (h p)"
proof -
  let ?h1 = "h(p := (h p)\<lparr>ord_level := Some this, ord_prev := lvl_tail l, ord_next := None\<rparr>)"
  have seg1: "seg ?h1 None xs None"
    using rep p by (subst seg_cong[of _ _ h]) (auto simp: lvl_rep_def)
  have tail: "lvl_tail l = last_of xs None" and head: "lvl_head l = first_of xs None" and "distinct xs"
    using rep by (auto simp: lvl_rep_def)
  have res: "lvl_rep h' l' (xs @ [p]) \<and> payload (h' q) = payload (h q) \<and>
      ord_level (h' q) = (if q = p then Some this else ord_level (h q)) \<and>
      (q \<notin> insert p (set xs) \<longrightarrow> h' q = h q) \<and> lvl_price l' = lvl_price l \<and>
      lvl_total l' = lvl_total l + ord_quantity (h p)"
  proof (cases "lvl_tail l")
    case None
    with tail have "xs = []" by simp
    with None push show ?thesis
      by (auto simp: lvl_push_back_def lvl_rep_def payload_def)
  next
    case (Some t)
    with tail obtain ys where xs: "xs = ys @ [t]" using last_of_SomeD by metis
    with p have "t \<noteq> p" by auto
    let ?h2 = "?h1(t := (?h1 t)\<lparr>ord_next := Some p\<rparr>)"
    from Some push \<open>t \<noteq> p\<close> have h': "h' = ?h2"
      and l': "l' = l\<lparr>lvl_tail := Some p, lvl_total := lvl_total l + ord_quantity (h p)\<rparr>"
      by (auto simp: lvl_push_back_def Let_def)
    have "seg ?h2 None xs (Some p)"
      using seg_set_last[OF seg1 \<open>distinct xs\<close>, of t "Some p"] Some tail by simp
    moreover have "ord_prev (?h2 p) = Some t" "ord_next (?h2 p) = None"
      using \<open>t \<noteq> p\<close> Some by simp_all
    ultimately have "seg ?h2 None (xs @ [p]) None"
      using Some tail by (simp add: seg_append)
    moreover have "first_of (xs @ [p]) None = first_of xs None"
      by (cases ys) (simp_all add: xs)
    ultimately have "lvl_rep h' l' (xs @ [p])"
      using head p \<open>distinct xs\<close> unfolding lvl_rep_def h' l' by simp
    then show ?thesis
      using \<open>t \<noteq> p\<close> xs unfolding h' l' by (simp add: payload_def)
  qed
  then show "lvl_rep h' l' (xs @ [p])" "payload (h' q) = payload (h q)"
    "ord_level (h' q) = (if q = p then Some this else ord_level (h q))"
    "q \<notin> insert p (set xs) \<Longrightarrow> h' q = h q"
    "lvl_price l' = lvl_price l" "lvl_total l' = lvl_total l + ord_quantity (h p)"
    by simp_all
qed

section \<open>Removing\<close>

lemma seg_set_first:
  assumes "seg h p xs n" "distinct xs" "first_of xs None = Some t"
  shows "seg (h(t := (h t)\<lparr>ord_prev := m\<rparr>)) m xs n"
proof -
  from first_of_SomeD[OF assms(3)] obtain ys where xs: "xs = t # ys" ..
  with assms(2) have "t \<notin> set ys" by simp
  then have "seg (h(t := (h t)\<lparr>ord_prev := m\<rparr>)) (Some t) ys n = seg h (Some t) ys n"
    by (intro seg_cong) auto
  with assms(1) show ?thesis by (simp add: xs)
qed

text \<open>The two link updates of \<^verbatim>\<open>remove\<close>, each as a splice of the segment on its side.\<close>

definition set_next :: "ptr option \<Rightarrow> ptr option \<Rightarrow> heap \<Rightarrow> heap" where
  "set_next q m h = (case q of None \<Rightarrow> h | Some t \<Rightarrow> h(t := (h t)\<lparr>ord_next := m\<rparr>))"

definition set_prev :: "ptr option \<Rightarrow> ptr option \<Rightarrow> heap \<Rightarrow> heap" where
  "set_prev q m h = (case q of None \<Rightarrow> h | Some t \<Rightarrow> h(t := (h t)\<lparr>ord_prev := m\<rparr>))"

lemma seg_set_next:
  "seg h None xs n \<Longrightarrow> distinct xs \<Longrightarrow> seg (set_next (last_of xs None) m h) None xs m"
  using seg_set_last[of h None xs n]
  by (cases "last_of xs None") (auto simp: set_next_def)

lemma seg_set_prev:
  "seg h p xs None \<Longrightarrow> distinct xs \<Longrightarrow> seg (set_prev (first_of xs None) m h) m xs None"
  using seg_set_first[of h p xs None]
  by (cases "first_of xs None") (auto simp: set_prev_def)

lemma set_link_other:
  "Some x \<noteq> q \<Longrightarrow> set_next q m h x = h x" "Some x \<noteq> q \<Longrightarrow> set_prev q m h x = h x"
  "payload (set_next q m h x) = payload (h x)" "payload (set_prev q m h x) = payload (h x)"
  "ord_level (set_next q m h x) = ord_level (h x)" "ord_level (set_prev q m h x) = ord_level (h x)"
  by (auto simp: set_next_def set_prev_def payload_def split: option.splits)

lemma remove_links:
  assumes "ord_prev (h p) = pr" "ord_next (h p) = nx" "pr \<noteq> Some p" "nx \<noteq> Some p"
  shows "lvl_remove (Some p) (h, l) =
    (let g = set_prev nx pr (set_next pr nx h)
     in (g(p := (g p)\<lparr>ord_level := None, ord_prev := None, ord_next := None\<rparr>),
         l\<lparr>lvl_head := (if pr = None then nx else lvl_head l),
           lvl_tail := (if nx = None then pr else lvl_tail l),
           lvl_total := lvl_total l - ord_quantity (h p)\<rparr>))"
  using assms
  by (cases pr; cases nx) (auto simp: lvl_remove_def set_next_def set_prev_def Let_def)

lemma last_of_in: "last_of xs None = Some x \<Longrightarrow> x \<in> set xs"
  by (auto dest: last_of_SomeD)

lemma first_of_in: "first_of xs None = Some x \<Longrightarrow> x \<in> set xs"
  by (auto dest: first_of_SomeD)

lemma remove_split:
  assumes rep: "lvl_rep h l (ys @ p # zs)"
    and rem: "lvl_remove (Some p) (h, l) = (h', l')"
  shows "lvl_rep h' l' (ys @ zs)"
    and "payload (h' q) = payload (h q)"
    and "ord_level (h' q) = (if q = p then None else ord_level (h q))"
    and "q \<notin> set (ys @ p # zs) \<Longrightarrow> h' q = h q"
    and "lvl_price l' = lvl_price l"
    and "lvl_total l' = lvl_total l - ord_quantity (h p)"
proof -
  define pr where "pr = last_of ys None"
  define nx where "nx = first_of zs None"
  from rep have seg: "seg h None ys (Some p)" "ord_prev (h p) = pr" "ord_next (h p) = nx"
      "seg h (Some p) zs None"
    and dist: "distinct ys" "distinct zs" "p \<notin> set ys" "p \<notin> set zs" "set ys \<inter> set zs = {}"
    and ends: "lvl_head l = first_of ys (Some p)" "lvl_tail l = last_of zs (Some p)"
    by (auto simp: lvl_rep_def seg_append pr_def nx_def)
  have ne: "pr \<noteq> Some p" "nx \<noteq> Some p"
    using dist(3,4) last_of_in[of ys p] first_of_in[of zs p] by (auto simp: pr_def nx_def)
  define g where "g = set_prev nx pr (set_next pr nx h)"
  from remove_links[of h p pr nx l, OF seg(2,3) ne] rem
  have h': "h' = g(p := (g p)\<lparr>ord_level := None, ord_prev := None, ord_next := None\<rparr>)"
    and l': "l' = l\<lparr>lvl_head := (if pr = None then nx else lvl_head l),
           lvl_tail := (if nx = None then pr else lvl_tail l),
           lvl_total := lvl_total l - ord_quantity (h p)\<rparr>"
    by (auto simp: g_def Let_def)
  have ys_off: "Some x \<noteq> nx" if "x \<in> set ys" for x
    using that dist(5) first_of_in[of zs x] by (auto simp: nx_def)
  have zs_off: "Some x \<noteq> pr" if "x \<in> set zs" for x
    using that dist(5) last_of_in[of ys x] by (auto simp: pr_def)
  have "seg (set_next pr nx h) None ys nx"
    unfolding pr_def by (rule seg_set_next[OF seg(1) dist(1)])
  then have "seg h' None ys nx"
    using ys_off dist(3) unfolding h' g_def
    by (subst seg_cong[of _ _ "set_next pr nx h"]) (auto simp: set_link_other)
  moreover have "seg (set_prev nx pr h) pr zs None"
    unfolding nx_def by (rule seg_set_prev[OF seg(4) dist(2)])
  then have "seg h' pr zs None"
    using zs_off dist(4) unfolding h' g_def
    by (subst seg_cong[of _ _ "set_prev nx pr h"]) (auto simp: set_prev_def set_link_other split: option.splits)
  ultimately have "seg h' None (ys @ zs) None" by (simp add: seg_append pr_def nx_def)
  moreover have "lvl_head l' = first_of (ys @ zs) None" "lvl_tail l' = last_of (ys @ zs) None"
    using ends by (auto simp: l' pr_def nx_def first_of_def last_of_def split: list.splits)
  ultimately show "lvl_rep h' l' (ys @ zs)" using dist by (simp add: lvl_rep_def)
  show "payload (h' q) = payload (h q)" by (simp add: h' g_def set_link_other)
  show "ord_level (h' q) = (if q = p then None else ord_level (h q))"
    by (simp add: h' g_def set_link_other)
  show "h' q = h q" if "q \<notin> set (ys @ p # zs)"
  proof -
    from that have "Some q \<noteq> pr" "Some q \<noteq> nx" "q \<noteq> p"
      using last_of_in[of ys q] first_of_in[of zs q] by (auto simp: pr_def nx_def)
    then show ?thesis by (simp add: h' g_def set_link_other)
  qed
  show "lvl_price l' = lvl_price l" "lvl_total l' = lvl_total l - ord_quantity (h p)"
    by (simp_all add: l')
qed

lemma pop_front_queue:
  assumes "lvl_rep h l (x # xs)" "lvl_pop_front (h, l) = (r, h', l')"
  shows "r = Some x" "lvl_rep h' l' xs" "lvl_total l' = lvl_total l - ord_quantity (h x)"
proof -
  have "lvl_head l = Some x" using assms(1) by (simp add: lvl_rep_def)
  with assms(2) have "r = Some x" and rem: "lvl_remove (Some x) (h, l) = (h', l')"
    by (auto simp: lvl_pop_front_def)
  then show "r = Some x" by simp
  show "lvl_rep h' l' xs" "lvl_total l' = lvl_total l - ord_quantity (h x)"
    using remove_split(1,6)[of h l "[]" x xs h' l'] assms(1) rem by simp_all
qed

lemma payload_eqD:
  assumes "payload r = payload s"
  shows "ord_id r = ord_id s" "ord_account r = ord_account s" "ord_side r = ord_side s"
    "ord_price r = ord_price s" "ord_quantity r = ord_quantity s"
  using assms by (simp_all add: payload_def)

section \<open>Properties\<close>

text \<open>\<^verbatim>\<open>PriceLevel\<close> is a FIFO queue over intrusive links: on a level representing the
  queue \<open>xs\<close>, \<^verbatim>\<open>push_back\<close> of an order not in it gives a level representing \<open>xs\<close> with
  the order at the end, adds its quantity to the running total, and changes no identifier,
  account, side, price or quantity and no order outside the queue.\<close>

lemma push_back_correct:
  assumes "lvl_rep h l xs" "p \<notin> set xs" "lvl_push_back this p (h, l) = (h', l')"
    "lvl_total l = queue_total h xs"
  shows "lvl_rep h' l' (xs @ [p]) \<and> lvl_total l' = queue_total h' (xs @ [p]) \<and>
    (\<forall>q. payload (h' q) = payload (h q)) \<and> (\<forall>q. q \<notin> set (xs @ [p]) \<longrightarrow> h' q = h q)"
proof -
  note push = push_back_queue[OF assms(1-3)]
  have "ord_quantity (h' q) = ord_quantity (h q)" for q by (rule payload_eqD(5)[OF push(2)])
  then have "lvl_total l' = queue_total h' (xs @ [p])"
    using push(6) assms(4) queue_total_cong[of xs h' h] by simp
  with push(1,2,4) show ?thesis by simp
qed

definition demo_heap :: heap where
  "demo_heap = (\<lambda>p. \<lparr>ord_id = of_nat p, ord_account = 1, ord_side = Buy, ord_price = 100,
     ord_quantity = 7, ord_level = None, ord_prev = None, ord_next = None\<rparr>)"

lemma demo_heap_fields [simp]:
  "ord_id (demo_heap p) = of_nat p" "ord_account (demo_heap p) = 1" "ord_side (demo_heap p) = Buy"
  "ord_price (demo_heap p) = 100" "ord_quantity (demo_heap p) = 7"
  by (simp_all add: demo_heap_def)

text \<open>\<^verbatim>\<open>PriceLevel::remove\<close> of any queued order, wherever it stands, unlinks exactly
  that order: the level then represents the queue without it, in the same order, the
  running total drops by its quantity, and its own links are cleared.\<close>

lemma remove_correct:
  assumes "lvl_rep h l xs" "p \<in> set xs" "lvl_remove (Some p) (h, l) = (h', l')"
    "lvl_total l = queue_total h xs"
  shows "lvl_rep h' l' (remove1 p xs) \<and> lvl_total l' = queue_total h' (remove1 p xs) \<and>
    ord_level (h' p) = None \<and> (\<forall>q. payload (h' q) = payload (h q)) \<and>
    (\<forall>q. q \<notin> set xs \<longrightarrow> h' q = h q)"
proof -
  have "distinct xs" using assms(1) by (simp add: lvl_rep_def)
  from distinct_remove1_split[OF this assms(2)] obtain ys zs
    where xs: "xs = ys @ p # zs" "remove1 p xs = ys @ zs" by blast
  note rem = remove_split[OF assms(1)[unfolded xs(1)] assms(3)]
  have qty: "ord_quantity (h' q) = ord_quantity (h q)" for q by (rule payload_eqD(5)[OF rem(2)])
  have "lvl_total l' = queue_total h (ys @ zs)" using rem(6) assms(4) xs(1) by simp
  also have "\<dots> = queue_total h' (ys @ zs)" using qty by (intro queue_total_cong) simp
  finally have "lvl_total l' = queue_total h' (remove1 p xs)" by (simp add: xs(2))
  with rem(1-4) xs show ?thesis by simp
qed

end
