(* ===== verification/LevelBitmap.thy ===== *)
theory LevelBitmap
  imports Prelude
begin

text \<open>
  The occupancy bitmaps of \<^verbatim>\<open>orderbook/software/array_order_book.cpp\<close>: one bit per
  price level, 64 to a word, and the word-at-a-time searches \<^verbatim>\<open>refreshBestBid\<close> and
  \<^verbatim>\<open>refreshBestAsk\<close> that find the next best price after a level empties.  The
  reference they are proved equal to is the maximum below, and the minimum above,
  over the set of active levels.  \<open>None\<close> is an access outside the word array.
\<close>

section \<open>Constants and bit primitives\<close>

definition MaxPriceLevels :: nat where
  "MaxPriceLevels = 100000"

definition BitsPerBitmapWord :: nat where
  "BitsPerBitmapWord = 64"

definition BitmapWordCount :: nat where
  "BitmapWordCount = (MaxPriceLevels + BitsPerBitmapWord - 1) div BitsPerBitmapWord"

type_synonym bitmap = "nat \<Rightarrow> u64"

definition priceToIndex :: "Price \<Rightarrow> nat" where
  "priceToIndex price = nat (price mod 2 ^ 64)"

definition lowerBitsMask :: "nat \<Rightarrow> u64" where
  "lowerBitsMask bitIndex =
     (if bitIndex = 0 then 0
      else if bitIndex \<ge> 64 then NOT 0
      else push_bit bitIndex 1 - 1)"

text \<open>\<^verbatim>\<open>std::countl_zero\<close> and \<^verbatim>\<open>std::countr_zero\<close> on a 64-bit word.\<close>

definition countl_zero :: "u64 \<Rightarrow> nat" where
  "countl_zero w = length (takeWhile (\<lambda>i. \<not> bit w i) (rev [0..<64]))"

definition countr_zero :: "u64 \<Rightarrow> nat" where
  "countr_zero w = length (takeWhile (\<lambda>i. \<not> bit w i) [0..<64])"

section \<open>Updates and searches\<close>

definition setLevelActive :: "bitmap \<Rightarrow> Price \<Rightarrow> bitmap option" where
  "setLevelActive bm price =
     (let index = priceToIndex price;
          word = index div BitsPerBitmapWord;
          b = index mod BitsPerBitmapWord
      in if word < BitmapWordCount then Some (bm(word := bm word OR push_bit b 1)) else None)"

definition clearLevelActive :: "bitmap \<Rightarrow> Price \<Rightarrow> bitmap option" where
  "clearLevelActive bm price =
     (let index = priceToIndex price;
          word = index div BitsPerBitmapWord;
          b = index mod BitsPerBitmapWord
      in if word < BitmapWordCount then Some (bm(word := bm word AND NOT (push_bit b 1))) else None)"

fun bid_scan :: "bitmap \<Rightarrow> nat \<Rightarrow> u64 \<Rightarrow> Price" where
  "bid_scan bm 0 word =
     (if word = 0 then 0
      else int (0 * BitsPerBitmapWord + (BitsPerBitmapWord - 1 - countl_zero word)))"
| "bid_scan bm (Suc wordIndex) word =
     (if word = 0 then bid_scan bm wordIndex (bm wordIndex)
      else int (Suc wordIndex * BitsPerBitmapWord + (BitsPerBitmapWord - 1 - countl_zero word)))"

definition refreshBestBid :: "bitmap \<Rightarrow> Price \<Rightarrow> Price option" where
  "refreshBestBid bm best_bid =
     (if best_bid = 0 then Some best_bid
      else let bestIndex = priceToIndex best_bid;
               wordIndex = bestIndex div BitsPerBitmapWord;
               bitIndex = bestIndex mod BitsPerBitmapWord
           in if wordIndex < BitmapWordCount
              then Some (bid_scan bm wordIndex (bm wordIndex AND lowerBitsMask bitIndex))
              else None)"

function ask_scan :: "bitmap \<Rightarrow> nat \<Rightarrow> u64 \<Rightarrow> Price" where
  "ask_scan bm wordIndex word =
     (if word = 0
      then if Suc wordIndex \<ge> BitmapWordCount then 0
           else ask_scan bm (Suc wordIndex) (bm (Suc wordIndex))
      else int (wordIndex * BitsPerBitmapWord + countr_zero word))"
  by pat_completeness auto
termination
  by (relation "measure (\<lambda>(bm, wordIndex, word). BitmapWordCount - wordIndex)") auto

declare ask_scan.simps [simp del]

definition refreshBestAsk :: "bitmap \<Rightarrow> Price \<Rightarrow> Price option" where
  "refreshBestAsk bm best_ask =
     (if best_ask = 0 then Some best_ask
      else let bestIndex = priceToIndex best_ask;
               wordIndex = bestIndex div BitsPerBitmapWord;
               bitIndex = bestIndex mod BitsPerBitmapWord
           in if wordIndex < BitmapWordCount
              then Some (ask_scan bm wordIndex (bm wordIndex AND NOT (lowerBitsMask (bitIndex + 1))))
              else None)"

section \<open>Which levels are active\<close>

definition active :: "bitmap \<Rightarrow> nat \<Rightarrow> bool" where
  "active bm i \<longleftrightarrow> bit (bm (i div 64)) (i mod 64)"

lemma BitmapWordCount_eq: "BitmapWordCount = 1563"
  by (simp add: BitmapWordCount_def MaxPriceLevels_def BitsPerBitmapWord_def)

lemma priceToIndex_int [simp]: "i < MaxPriceLevels \<Longrightarrow> priceToIndex (int i) = i"
  by (simp add: priceToIndex_def MaxPriceLevels_def)

lemma word_in_range: "i < MaxPriceLevels \<Longrightarrow> i div 64 < BitmapWordCount"
  by (simp add: BitmapWordCount_eq MaxPriceLevels_def)

lemma div_mod_64_eq: "j div 64 = i div 64 \<Longrightarrow> j mod 64 = i mod 64 \<Longrightarrow> j = (i::nat)"
  by (metis div_mult_mod_eq)

lemma setLevelActive_ok:
  assumes "i < MaxPriceLevels"
  obtains bm' where "setLevelActive bm (int i) = Some bm'" "\<And>j. active bm' j \<longleftrightarrow> j = i \<or> active bm j"
proof
  show "setLevelActive bm (int i) = Some (bm(i div 64 := bm (i div 64) OR push_bit (i mod 64) 1))"
    using assms word_in_range[OF assms]
    by (simp add: setLevelActive_def BitsPerBitmapWord_def Let_def)
  show "active (bm(i div 64 := bm (i div 64) OR push_bit (i mod 64) 1)) j \<longleftrightarrow> j = i \<or> active bm j" for j
    using div_mod_64_eq[of j i] by (auto simp: active_def bit_simps)
qed

lemma clearLevelActive_ok:
  assumes "i < MaxPriceLevels"
  obtains bm' where "clearLevelActive bm (int i) = Some bm'" "\<And>j. active bm' j \<longleftrightarrow> j \<noteq> i \<and> active bm j"
proof
  show "clearLevelActive bm (int i) = Some (bm(i div 64 := bm (i div 64) AND NOT (push_bit (i mod 64) 1)))"
    using assms word_in_range[OF assms]
    by (simp add: clearLevelActive_def BitsPerBitmapWord_def Let_def)
  show "active (bm(i div 64 := bm (i div 64) AND NOT (push_bit (i mod 64) 1))) j \<longleftrightarrow> j \<noteq> i \<and> active bm j" for j
    using div_mod_64_eq[of j i] by (auto simp: active_def bit_simps)
qed

lemma bit_lowerBitsMask: "bit (lowerBitsMask n) i \<longleftrightarrow> i < n \<and> i < 64"
proof (cases "n = 0 \<or> n \<ge> 64")
  case True
  then show ?thesis by (auto simp: lowerBitsMask_def bit_simps)
next
  case False
  then have "lowerBitsMask n = mask n"
    by (simp add: lowerBitsMask_def mask_eq_exp_minus_1 push_bit_eq_mult)
  then show ?thesis by (auto simp: bit_simps)
qed

section \<open>The bit counts\<close>

lemma takeWhile_top:
  assumes "\<exists>i<n. P i"
  shows "let c = n - 1 - length (takeWhile (\<lambda>i. \<not> P i) (rev [0..<n]))
         in c < n \<and> P c \<and> (\<forall>j. c < j \<and> j < n \<longrightarrow> \<not> P j)"
  using assms
proof (induction n)
  case (Suc n)
  show ?case
  proof (cases "P n")
    case True
    then show ?thesis by (auto simp: Let_def)
  next
    case False
    with Suc.prems have "\<exists>i<n. P i" using less_Suc_eq by auto
    let ?c = "n - 1 - length (takeWhile (\<lambda>i. \<not> P i) (rev [0..<n]))"
    have c: "Suc n - 1 - length (takeWhile (\<lambda>i. \<not> P i) (rev [0..<Suc n])) = ?c"
      using False by simp
    from Suc.IH[OF \<open>\<exists>i<n. P i\<close>] have "?c < n" "P ?c" and top: "\<forall>j. ?c < j \<and> j < n \<longrightarrow> \<not> P j"
      unfolding Let_def by blast+
    moreover from top False have "\<forall>j. ?c < j \<and> j < Suc n \<longrightarrow> \<not> P j"
      using less_Suc_eq by blast
    ultimately show ?thesis unfolding c Let_def using less_SucI by blast
  qed
qed simp

lemma word_nonzero_bit:
  assumes "(w::u64) \<noteq> 0"
  shows "\<exists>i<64. bit w i"
proof (rule ccontr)
  assume "\<not> ?thesis"
  then have "w = 0" by (intro bit_word_eqI) auto
  with assms show False ..
qed

lemma countl_zero_top:
  assumes "w \<noteq> 0"
  shows "63 - countl_zero w < 64" "bit w (63 - countl_zero w)"
    "63 - countl_zero w < j \<Longrightarrow> \<not> bit w j"
proof -
  have "64 - 1 = (63 :: nat)" by simp
  then have top: "63 - countl_zero w < 64 \<and> bit w (63 - countl_zero w) \<and>
      (\<forall>j. 63 - countl_zero w < j \<and> j < 64 \<longrightarrow> \<not> bit w j)"
    using takeWhile_top[OF word_nonzero_bit[OF assms]] unfolding countl_zero_def Let_def by metis
  then show "63 - countl_zero w < 64" "bit w (63 - countl_zero w)" by blast+
  show "\<not> bit w j" if "63 - countl_zero w < j"
    using top that bit_imp_le_length[of w j] by (cases "j < 64") auto
qed

lemma countr_zero_low:
  assumes "w \<noteq> 0"
  shows "countr_zero w < 64" "bit w (countr_zero w)" "j < countr_zero w \<Longrightarrow> \<not> bit w j"
proof -
  let ?t = "takeWhile (\<lambda>i. \<not> bit w i) [0..<64]"
  from word_nonzero_bit[OF assms] obtain i where i: "i < 64" "bit w i" by blast
  have len: "length ?t < length [0..<64]"
  proof (rule ccontr)
    assume "\<not> ?thesis"
    then have "?t = [0..<64]"
      by (metis length_takeWhile_le le_neq_implies_less takeWhile_eq_take take_all_iff)
    with i show False by (metis atLeastLessThan_iff set_takeWhileD set_upt zero_le)
  qed
  then show lt: "countr_zero w < 64" by (simp add: countr_zero_def)
  show "bit w (countr_zero w)"
    using nth_length_takeWhile[OF len] lt by (simp add: countr_zero_def)
  show "\<not> bit w j" if "j < countr_zero w"
  proof -
    from that have "?t ! j \<in> set ?t" by (simp add: countr_zero_def)
    moreover have "?t ! j = j"
      using that lt by (simp add: countr_zero_def takeWhile_nth)
    ultimately show ?thesis by (metis set_takeWhileD)
  qed
qed

section \<open>Search equals reference\<close>

definition top_below :: "bitmap \<Rightarrow> nat \<Rightarrow> Price" where
  "top_below bm lim =
     (if \<exists>i<lim. active bm i then int (Max {i. i < lim \<and> active bm i}) else 0)"

definition low_from :: "bitmap \<Rightarrow> nat \<Rightarrow> Price" where
  "low_from bm lim =
     (if \<exists>i<64 * BitmapWordCount. lim \<le> i \<and> active bm i
      then int (Min {i. lim \<le> i \<and> i < 64 * BitmapWordCount \<and> active bm i}) else 0)"

lemma bid_scan_hit:
  assumes word: "\<And>b. bit word b \<longleftrightarrow> bit (bm W) b \<and> W * 64 + b < lim"
    and lim: "lim \<le> Suc W * 64" and "word \<noteq> 0"
  shows "top_below bm lim = int (W * 64 + (63 - countl_zero word))"
proof -
  let ?i = "W * 64 + (63 - countl_zero word)"
  note top = countl_zero_top[OF assms(3)]
  have act: "active bm ?i" and lt: "?i < lim"
    using top(2) by (auto simp: active_def word)
  have "Max {i. i < lim \<and> active bm i} = ?i"
  proof (rule Max_eqI)
    show "finite {i. i < lim \<and> active bm i}" by simp
    show "?i \<in> {i. i < lim \<and> active bm i}" using act lt by simp
    fix i assume "i \<in> {i. i < lim \<and> active bm i}"
    then have i: "i < lim" "active bm i" by auto
    show "i \<le> ?i"
    proof (cases "i div 64 = W")
      case True
      then have "i = W * 64 + i mod 64" by (metis div_mult_mod_eq)
      then have "bit word (i mod 64)" using i True by (simp add: word active_def)
      then have "i mod 64 \<le> 63 - countl_zero word" using top(3)[of "i mod 64"] by (cases "i mod 64 \<le> 63 - countl_zero word") auto
      with \<open>i = W * 64 + i mod 64\<close> show ?thesis by linarith
    next
      case False
      with i(1) lim have "i div 64 < W" by (simp add: less_mult_imp_div_less le_neq_implies_less less_Suc_eq_le)
      then show ?thesis by (simp add: div_less_iff_less_mult)
    qed
  qed
  with act lt show ?thesis by (auto simp: top_below_def)
qed

lemma bid_scan_miss:
  assumes word: "\<And>b. bit word b \<longleftrightarrow> bit (bm W) b \<and> W * 64 + b < lim"
    and lim: "W * 64 \<le> lim" "lim \<le> Suc W * 64" and "word = 0"
  shows "top_below bm lim = top_below bm (W * 64)"
proof -
  have "i < W * 64" if "i < lim" "active bm i" for i
  proof (rule ccontr)
    assume "\<not> i < W * 64"
    with that lim have "i div 64 = W" by (intro div_nat_eqI) linarith+
    then have "W * 64 + i mod 64 = i" by (metis div_mult_mod_eq)
    with that \<open>i div 64 = W\<close> have "bit word (i mod 64)" by (simp add: word active_def)
    with \<open>word = 0\<close> show False by simp
  qed
  then have "{i. i < lim \<and> active bm i} = {i. i < W * 64 \<and> active bm i}"
    "(\<exists>i<lim. active bm i) \<longleftrightarrow> (\<exists>i<W * 64. active bm i)"
    using lim(1) by (auto intro: less_le_trans)
  then show ?thesis unfolding top_below_def by (simp only:)
qed

lemma bid_scan_correct:
  assumes "\<And>b. bit word b \<longleftrightarrow> bit (bm W) b \<and> W * 64 + b < lim"
    and "W * 64 \<le> lim" "lim \<le> Suc W * 64"
  shows "bid_scan bm W word = top_below bm lim"
  using assms
proof (induction W arbitrary: word lim)
  case 0
  show ?case
  proof (cases "word = 0")
    case True
    with bid_scan_miss[of word bm 0 lim] 0 show ?thesis by (simp add: top_below_def)
  next
    case False
    with bid_scan_hit[of word bm 0 lim] 0 show ?thesis by (simp add: BitsPerBitmapWord_def)
  qed
next
  case (Suc W)
  show ?case
  proof (cases "word = 0")
    case True
    have "bid_scan bm W (bm W) = top_below bm (Suc W * 64)"
      by (rule Suc.IH) (auto dest: bit_imp_le_length)
    with True bid_scan_miss[of word bm "Suc W" lim, OF Suc.prems True] show ?thesis by simp
  next
    case False
    with bid_scan_hit[of word bm "Suc W" lim, OF Suc.prems(1,3)] show ?thesis by (simp add: BitsPerBitmapWord_def)
  qed
qed

lemma ask_scan_hit:
  assumes word: "\<And>b. bit word b \<longleftrightarrow> bit (bm W) b \<and> lim \<le> W * 64 + b"
    and W: "W < BitmapWordCount" "W * 64 \<le> lim" and "word \<noteq> 0"
  shows "low_from bm lim = int (W * 64 + countr_zero word)"
proof -
  let ?i = "W * 64 + countr_zero word"
  note low = countr_zero_low[OF assms(4)]
  have act: "active bm ?i" and le: "lim \<le> ?i"
    using low(1,2) by (auto simp: active_def word)
  have lt: "?i < 64 * BitmapWordCount" using low(1) W(1) by (simp add: BitmapWordCount_eq)
  have "Min {i. lim \<le> i \<and> i < 64 * BitmapWordCount \<and> active bm i} = ?i"
  proof (rule Min_eqI)
    show "finite {i. lim \<le> i \<and> i < 64 * BitmapWordCount \<and> active bm i}" by simp
    show "?i \<in> {i. lim \<le> i \<and> i < 64 * BitmapWordCount \<and> active bm i}" using act le lt by simp
    fix i assume "i \<in> {i. lim \<le> i \<and> i < 64 * BitmapWordCount \<and> active bm i}"
    then have i: "lim \<le> i" "active bm i" by auto
    show "?i \<le> i"
    proof (cases "i div 64 = W")
      case True
      then have eq: "i = W * 64 + i mod 64" by (metis div_mult_mod_eq)
      then have "bit word (i mod 64)" using i True by (simp add: word active_def)
      then have "countr_zero word \<le> i mod 64" using low(3)[of "i mod 64"] by (cases "countr_zero word \<le> i mod 64") auto
      with eq show ?thesis by linarith
    next
      case False
      moreover have "W \<le> i div 64"
        using i(1) W(2) by (simp add: less_eq_div_iff_mult_less_eq)
      ultimately have "Suc W \<le> i div 64" by simp
      then have "Suc W * 64 \<le> i" by (simp only: less_eq_div_iff_mult_less_eq zero_less_numeral)
      with low(1) show ?thesis by simp
    qed
  qed
  with act le lt show ?thesis by (auto simp: low_from_def)
qed

lemma ask_scan_miss:
  assumes word: "\<And>b. bit word b \<longleftrightarrow> bit (bm W) b \<and> lim \<le> W * 64 + b"
    and lim: "W * 64 \<le> lim" "lim \<le> Suc W * 64" and "word = 0"
  shows "low_from bm lim = low_from bm (Suc W * 64)"
proof -
  have "Suc W * 64 \<le> i" if "lim \<le> i" "active bm i" for i
  proof (rule ccontr)
    assume "\<not> Suc W * 64 \<le> i"
    with that(1) lim(1) have "64 * W \<le> i" "i < 64 * Suc W" by simp_all
    then have "i div 64 = W" by (rule div_nat_eqI)
    then have "W * 64 + i mod 64 = i" by (metis div_mult_mod_eq)
    with that \<open>i div 64 = W\<close> have "bit word (i mod 64)" by (simp add: word active_def)
    with \<open>word = 0\<close> show False by simp
  qed
  with lim(2) have key: "lim \<le> i \<and> active bm i \<longleftrightarrow> Suc W * 64 \<le> i \<and> active bm i" for i
    using order_trans by blast
  then have "{i. lim \<le> i \<and> i < 64 * BitmapWordCount \<and> active bm i} =
      {i. Suc W * 64 \<le> i \<and> i < 64 * BitmapWordCount \<and> active bm i}"
    by blast
  then show ?thesis unfolding low_from_def by (simp only: key)
qed

lemma ask_scan_correct:
  assumes "\<And>b. bit word b \<longleftrightarrow> bit (bm W) b \<and> lim \<le> W * 64 + b"
    and "W * 64 \<le> lim" "lim \<le> Suc W * 64" "W < BitmapWordCount"
  shows "ask_scan bm W word = low_from bm lim"
  using assms
proof (induction bm W word arbitrary: lim rule: ask_scan.induct)
  case (1 bm W word)
  show ?case
  proof (cases "word = 0")
    case False
    with ask_scan_hit[of word bm W lim, OF "1.prems"(1,4,2)] show ?thesis
      by (subst ask_scan.simps) (simp add: BitsPerBitmapWord_def)
  next
    case True
    note miss = ask_scan_miss[of word bm W lim, OF "1.prems"(1-3) True]
    show ?thesis
    proof (cases "Suc W \<ge> BitmapWordCount")
      case True
      then have "low_from bm (Suc W * 64) = 0" by (auto simp: low_from_def)
      with True \<open>word = 0\<close> miss show ?thesis by (subst ask_scan.simps) simp
    next
      case False
      have "ask_scan bm (Suc W) (bm (Suc W)) = low_from bm (Suc W * 64)"
        by (rule "1.IH"[OF \<open>word = 0\<close> False]) (use False in auto)
      with False \<open>word = 0\<close> miss show ?thesis by (subst ask_scan.simps) simp
    qed
  qed
qed

lemma quotient_64_window:
  fixes b k q r :: nat
  assumes "b = q * 64 + r" "r < 64"
  shows "q * 64 \<le> b" "b < Suc q * 64" "q * 64 + k < b \<longleftrightarrow> k < r"
    "Suc b \<le> q * 64 + k \<longleftrightarrow> \<not> k < r + 1"
  using assms by auto

lemmas div_64_window = quotient_64_window[OF div_mult_mod_eq[symmetric] mod_less_divisor[OF zero_less_numeral]]

lemma refreshBestBid_eq:
  assumes "0 < b" "b < MaxPriceLevels"
  shows "refreshBestBid bm (int b) = Some (top_below bm b)"
proof -
  have "bid_scan bm (b div 64) (bm (b div 64) AND lowerBitsMask (b mod 64)) = top_below bm b"
  proof (rule bid_scan_correct)
    show "bit (bm (b div 64) AND lowerBitsMask (b mod 64)) k \<longleftrightarrow>
        bit (bm (b div 64)) k \<and> b div 64 * 64 + k < b" for k
      by (auto simp: bit_simps bit_lowerBitsMask div_64_window(3,4) bit_imp_le_length)
  qed (use div_64_window(1,2)[of b] in simp_all)
  with assms word_in_range[OF assms(2)] show ?thesis
    by (simp add: refreshBestBid_def Let_def BitsPerBitmapWord_def)
qed

lemma refreshBestAsk_eq:
  assumes "0 < b" "b < MaxPriceLevels"
  shows "refreshBestAsk bm (int b) = Some (low_from bm (Suc b))"
proof -
  have "ask_scan bm (b div 64) (bm (b div 64) AND NOT (lowerBitsMask (b mod 64 + 1))) = low_from bm (Suc b)"
  proof (rule ask_scan_correct)
    show "bit (bm (b div 64) AND NOT (lowerBitsMask (b mod 64 + 1))) k \<longleftrightarrow>
        bit (bm (b div 64)) k \<and> Suc b \<le> b div 64 * 64 + k" for k
      using bit_imp_le_length[of "bm (b div 64)" k]
      by (auto simp: bit_simps bit_lowerBitsMask div_64_window(3,4))
  qed (use div_64_window(1,2)[of b] word_in_range[OF assms(2)] in simp_all)
  with assms word_in_range[OF assms(2)] show ?thesis
    by (simp add: refreshBestAsk_def Let_def BitsPerBitmapWord_def)
qed

section \<open>Properties\<close>

text \<open>A bitmap with the levels 64 and 128 active, for the examples.\<close>

definition demo_bitmap :: bitmap where
  "demo_bitmap = (\<lambda>w. if w = 1 \<or> w = 2 then 1 else 0)"

lemma demo_bitmap_active: "active demo_bitmap i \<longleftrightarrow> i = 64 \<or> i = 128"
proof -
  have arith: "(q = 1 \<or> q = 2) \<and> r = 0 \<longleftrightarrow> i = 64 \<or> i = 128"
    if "i = q * 64 + r" "r < 64" for q r :: nat
    using that by (cases "q = 0 \<or> q = 1 \<or> q = 2") auto
  have "active demo_bitmap i \<longleftrightarrow> (i div 64 = 1 \<or> i div 64 = 2) \<and> i mod 64 = 0"
    by (cases "i div 64 = 1 \<or> i div 64 = 2")
      (simp_all only: active_def demo_bitmap_def if_True if_False bit_1_iff bit_0_eq bot_apply bot_bool_def simp_thms)
  then show ?thesis
    using arith[OF div_mult_mod_eq[symmetric] mod_less_divisor[OF zero_less_numeral]] by (rule trans)
qed

text \<open>C26. When the best bid level \<open>b\<close> empties, the word-at-a-time search of
  \<^verbatim>\<open>refreshBestBid\<close> never leaves the bitmap and returns the largest active level
  strictly below \<open>b\<close>, or 0 when every level below is empty.\<close>

theorem refreshBestBid_correct:
  assumes "0 < b" "b < MaxPriceLevels"
  shows "refreshBestBid bm (int b) =
    Some (if \<exists>i<b. active bm i then int (Max {i. i < b \<and> active bm i}) else 0)"
  by (simp only: refreshBestBid_eq[OF assms] top_below_def)

theorem refreshBestBid_correct_witness:
  "refreshBestBid demo_bitmap (int 200) = Some 128"
proof -
  have "{i. i < 200 \<and> active demo_bitmap i} = {64, 128}" by (auto simp: demo_bitmap_active)
  with refreshBestBid_correct[of 200 demo_bitmap] show ?thesis
    by (auto simp: demo_bitmap_active MaxPriceLevels_def)
qed

text \<open>When the best ask level \<open>b\<close> empties, \<^verbatim>\<open>refreshBestAsk\<close> terminates, stays
  inside the bitmap and returns the smallest active level strictly above \<open>b\<close>, or 0 when
  every level above is empty.\<close>

lemma refreshBestAsk_correct:
  assumes "0 < b" "b < MaxPriceLevels"
  shows "refreshBestAsk bm (int b) =
    Some (if \<exists>i<64 * BitmapWordCount. b < i \<and> active bm i
          then int (Min {i. b < i \<and> i < 64 * BitmapWordCount \<and> active bm i}) else 0)"
  by (simp only: refreshBestAsk_eq[OF assms] low_from_def Suc_le_eq)

end
