(* ===== verification/FixedHashMap.thy ===== *)
theory FixedHashMap
  imports Prelude
begin

text \<open>
  \<^verbatim>\<open>common/fixed_hash_map.hpp\<close>: an open-addressing hash map with linear probing,
  tombstones and a fixed number of slots.  The template parameter \<^verbatim>\<open>Capacity\<close> is
  the argument \<open>cap\<close>, \<^verbatim>\<open>std::hash<Key>\<close> the argument \<open>hs\<close>: every result holds for
  every hash function.  \<^verbatim>\<open>entries_\<close> is a function on slot numbers; all accesses
  are at \<open>hs key mod cap\<close> and its successors modulo \<open>cap\<close>.

  Operations, then the invariant (unique keys, no empty slot on the way from a
  key's home slot to its entry, \<^verbatim>\<open>size_\<close> counts the occupied slots), then the
  contract as a locale \<open>keyed_store\<close> with its interpretation.
\<close>

section \<open>The data structure\<close>

datatype EntryState = Empty | Occupied | Deleted

record ('k, 'v) Entry =
  entry_key :: 'k
  entry_value :: 'v
  entry_state :: EntryState

record ('k, 'v) hashmap =
  entries :: "nat \<Rightarrow> ('k, 'v) Entry"
  hm_size :: nat

definition empty_map :: "'k \<Rightarrow> 'v \<Rightarrow> ('k, 'v) hashmap" where
  "empty_map k0 v0 =
     \<lparr>entries = (\<lambda>_. \<lparr>entry_key = k0, entry_value = v0, entry_state = Empty\<rparr>), hm_size = 0\<rparr>"

definition hash_slot :: "('k \<Rightarrow> nat) \<Rightarrow> nat \<Rightarrow> 'k \<Rightarrow> nat" where
  "hash_slot hs cap key = hs key mod cap"

definition nextIndex :: "nat \<Rightarrow> nat \<Rightarrow> nat" where
  "nextIndex cap index = (index + 1) mod cap"

section \<open>insert\<close>

definition occupy :: "nat \<Rightarrow> 'k \<Rightarrow> 'v \<Rightarrow> ('k, 'v) hashmap \<Rightarrow> ('k, 'v) hashmap" where
  "occupy target key val m =
     m\<lparr>entries := (entries m)(target :=
           \<lparr>entry_key = key, entry_value = val, entry_state = Occupied\<rparr>),
       hm_size := hm_size m + 1\<rparr>"

fun insert_probe ::
  "nat \<Rightarrow> 'k \<Rightarrow> 'v \<Rightarrow> nat \<Rightarrow> nat \<Rightarrow> nat \<Rightarrow> ('k, 'v) hashmap \<Rightarrow> bool \<times> ('k, 'v) hashmap" where
  "insert_probe cap key val 0 index first_deleted m =
     (if first_deleted \<noteq> cap then (True, occupy first_deleted key val m) else (False, m))"
| "insert_probe cap key val (Suc n) index first_deleted m =
     (case entry_state (entries m index) of
        Occupied \<Rightarrow>
          (if entry_key (entries m index) = key
           then (True, m\<lparr>entries := (entries m)(index := (entries m index)\<lparr>entry_value := val\<rparr>)\<rparr>)
           else insert_probe cap key val n (nextIndex cap index) first_deleted m)
      | Deleted \<Rightarrow>
          insert_probe cap key val n (nextIndex cap index)
            (if first_deleted = cap then index else first_deleted) m
      | Empty \<Rightarrow>
          (True, occupy (if first_deleted \<noteq> cap then first_deleted else index) key val m))"

definition hm_insert ::
  "('k \<Rightarrow> nat) \<Rightarrow> nat \<Rightarrow> 'k \<Rightarrow> 'v \<Rightarrow> ('k, 'v) hashmap \<Rightarrow> bool \<times> ('k, 'v) hashmap" where
  "hm_insert hs cap key val m = insert_probe cap key val cap (hash_slot hs cap key) cap m"

section \<open>find, contains and erase\<close>

text \<open>\<^verbatim>\<open>find\<close> returns the address of a slot's value; \<open>find_probe\<close> gives that slot.\<close>

fun find_probe :: "nat \<Rightarrow> 'k \<Rightarrow> nat \<Rightarrow> nat \<Rightarrow> ('k, 'v) hashmap \<Rightarrow> nat option" where
  "find_probe cap key 0 index m = None"
| "find_probe cap key (Suc n) index m =
     (if entry_state (entries m index) = Empty then None
      else if entry_state (entries m index) = Occupied \<and> entry_key (entries m index) = key
      then Some index
      else find_probe cap key n (nextIndex cap index) m)"

definition hm_find :: "('k \<Rightarrow> nat) \<Rightarrow> nat \<Rightarrow> ('k, 'v) hashmap \<Rightarrow> 'k \<Rightarrow> 'v option" where
  "hm_find hs cap m key =
     map_option (\<lambda>i. entry_value (entries m i)) (find_probe cap key cap (hash_slot hs cap key) m)"

definition hm_contains :: "('k \<Rightarrow> nat) \<Rightarrow> nat \<Rightarrow> ('k, 'v) hashmap \<Rightarrow> 'k \<Rightarrow> bool" where
  "hm_contains hs cap m key \<longleftrightarrow> hm_find hs cap m key \<noteq> None"

fun erase_probe :: "nat \<Rightarrow> 'k \<Rightarrow> nat \<Rightarrow> nat \<Rightarrow> ('k, 'v) hashmap \<Rightarrow> bool \<times> ('k, 'v) hashmap" where
  "erase_probe cap key 0 index m = (False, m)"
| "erase_probe cap key (Suc n) index m =
     (if entry_state (entries m index) = Empty then (False, m)
      else if entry_state (entries m index) = Occupied \<and> entry_key (entries m index) = key
      then (True, m\<lparr>entries := (entries m)(index := (entries m index)\<lparr>entry_state := Deleted\<rparr>),
                    hm_size := hm_size m - 1\<rparr>)
      else erase_probe cap key n (nextIndex cap index) m)"

definition hm_erase ::
  "('k \<Rightarrow> nat) \<Rightarrow> nat \<Rightarrow> 'k \<Rightarrow> ('k, 'v) hashmap \<Rightarrow> bool \<times> ('k, 'v) hashmap" where
  "hm_erase hs cap key m = erase_probe cap key cap (hash_slot hs cap key) m"

definition hm_empty :: "('k, 'v) hashmap \<Rightarrow> bool" where
  "hm_empty m \<longleftrightarrow> hm_size m = 0"

section \<open>Invariant\<close>

definition occ :: "('k, 'v) hashmap \<Rightarrow> nat \<Rightarrow> bool" where
  "occ m i \<longleftrightarrow> entry_state (entries m i) = Occupied"

definition vacant :: "('k, 'v) hashmap \<Rightarrow> nat \<Rightarrow> bool" where
  "vacant m i \<longleftrightarrow> entry_state (entries m i) = Empty"

definition pos :: "('k \<Rightarrow> nat) \<Rightarrow> nat \<Rightarrow> 'k \<Rightarrow> nat \<Rightarrow> nat" where
  "pos hs cap k d = (hash_slot hs cap k + d) mod cap"

text \<open>Slot \<open>i\<close> is reached by the probe sequence of \<open>k\<close> before any empty slot.\<close>

definition on_path :: "('k \<Rightarrow> nat) \<Rightarrow> nat \<Rightarrow> ('k, 'v) hashmap \<Rightarrow> 'k \<Rightarrow> nat \<Rightarrow> bool" where
  "on_path hs cap m k i \<longleftrightarrow>
     (\<exists>d<cap. i = pos hs cap k d \<and> (\<forall>e<d. \<not> vacant m (pos hs cap k e)))"

definition occ_slots :: "nat \<Rightarrow> ('k, 'v) hashmap \<Rightarrow> nat set" where
  "occ_slots cap m = {i. i < cap \<and> occ m i}"

definition hm_inv :: "('k \<Rightarrow> nat) \<Rightarrow> nat \<Rightarrow> ('k, 'v) hashmap \<Rightarrow> bool" where
  "hm_inv hs cap m \<longleftrightarrow>
     0 < cap \<and>
     (\<forall>i<cap. occ m i \<longrightarrow> on_path hs cap m (entry_key (entries m i)) i) \<and>
     (\<forall>i<cap. \<forall>j<cap. occ m i \<and> occ m j \<and> entry_key (entries m i) = entry_key (entries m j) \<longrightarrow> i = j) \<and>
     hm_size m = card (occ_slots cap m)"

lemma hm_invD:
  assumes "hm_inv hs cap m"
  shows hm_inv_cap: "0 < cap"
    and hm_inv_path: "i < cap \<Longrightarrow> occ m i \<Longrightarrow> on_path hs cap m (entry_key (entries m i)) i"
    and hm_inv_uniq: "i < cap \<Longrightarrow> j < cap \<Longrightarrow> occ m i \<Longrightarrow> occ m j \<Longrightarrow>
          entry_key (entries m i) = entry_key (entries m j) \<Longrightarrow> i = j"
    and hm_inv_size: "hm_size m = card (occ_slots cap m)"
  using assms unfolding hm_inv_def by blast+

lemma finite_occ_slots [simp]: "finite (occ_slots cap m)"
  unfolding occ_slots_def by simp

lemma card_occ_slots_le: "card (occ_slots cap m) \<le> cap"
proof -
  have "occ_slots cap m \<subseteq> {..<cap}" by (auto simp: occ_slots_def)
  then show ?thesis by (metis card_lessThan card_mono finite_lessThan)
qed

lemma occ_slots_full: "card (occ_slots cap m) = cap \<longleftrightarrow> (\<forall>i<cap. occ m i)"
proof
  assume "card (occ_slots cap m) = cap"
  moreover have "occ_slots cap m \<subseteq> {..<cap}" by (auto simp: occ_slots_def)
  ultimately have "occ_slots cap m = {..<cap}"
    by (intro card_subset_eq) auto
  then show "\<forall>i<cap. occ m i" by (auto simp: occ_slots_def)
next
  assume "\<forall>i<cap. occ m i"
  then have "occ_slots cap m = {..<cap}" by (auto simp: occ_slots_def)
  then show "card (occ_slots cap m) = cap" by simp
qed

lemma pos_less [simp]: "0 < cap \<Longrightarrow> pos hs cap k d < cap"
  by (simp add: pos_def)

lemmas pos_neq_cap [simp] = pos_less[THEN less_imp_neq] pos_less[THEN less_imp_neq, symmetric]

lemma pos_0: "0 < cap \<Longrightarrow> pos hs cap k 0 = hash_slot hs cap k"
  by (simp add: pos_def hash_slot_def)

lemma nextIndex_pos [simp]: "nextIndex cap (pos hs cap k d) = pos hs cap k (Suc d)"
  unfolding nextIndex_def pos_def by (rule cyc_Suc)

lemma pos_inj: "d < cap \<Longrightarrow> e < cap \<Longrightarrow> pos hs cap k d = pos hs cap k e \<Longrightarrow> d = e"
  unfolding pos_def by (rule cyc_inj)

lemma pos_surj: "i < cap \<Longrightarrow> \<exists>d<cap. i = pos hs cap k d"
  unfolding pos_def by (rule cyc_surj)

lemma hm_inv_empty_map: "0 < cap \<Longrightarrow> hm_inv hs cap (empty_map k0 v0)"
  by (simp add: hm_inv_def empty_map_def occ_def occ_slots_def)

section \<open>Lookup finds exactly the occupied slots\<close>

lemma find_probe_sound:
  assumes "find_probe cap k n (pos hs cap k d) m = Some i" "0 < cap"
  shows "i < cap \<and> occ m i \<and> entry_key (entries m i) = k"
  using assms(1)
proof (induction n arbitrary: d)
  case (Suc n)
  show ?case
  proof (cases "i = pos hs cap k d")
    case True
    with Suc.prems Suc.IH[of "Suc d"] assms(2) show ?thesis by (auto simp: occ_def split: if_splits)
  next
    case False
    with Suc.prems Suc.IH[of "Suc d"] show ?thesis by (simp split: if_splits)
  qed
qed simp

lemma find_probe_complete:
  assumes "d \<le> e" "e < d + n" "occ m (pos hs cap k e)"
    "entry_key (entries m (pos hs cap k e)) = k"
    "\<forall>x. d \<le> x \<and> x < e \<longrightarrow> \<not> vacant m (pos hs cap k x)"
  shows "find_probe cap k n (pos hs cap k d) m \<noteq> None"
  using assms
proof (induction n arbitrary: d)
  case 0
  then show ?case by simp
next
  case (Suc n)
  show ?case
  proof (cases "d = e")
    case True
    with Suc.prems show ?thesis by (simp add: occ_def)
  next
    case False
    with Suc.prems have "\<not> vacant m (pos hs cap k d)" by simp
    moreover have "find_probe cap k n (pos hs cap k (Suc d)) m \<noteq> None"
      by (rule Suc.IH) (use Suc.prems False in auto)
    ultimately show ?thesis by (simp add: vacant_def)
  qed
qed

lemma find_slot_iff:
  assumes inv: "hm_inv hs cap m"
  shows "find_probe cap k cap (hash_slot hs cap k) m = Some i \<longleftrightarrow>
           i < cap \<and> occ m i \<and> entry_key (entries m i) = k"
proof -
  note cap = hm_inv_cap[OF inv]
  have sound: "j < cap \<and> occ m j \<and> entry_key (entries m j) = k"
    if "find_probe cap k cap (hash_slot hs cap k) m = Some j" for j
    using find_probe_sound[of cap k cap hs 0 m j] that cap by (auto simp: pos_0)
  show ?thesis
  proof
    assume R: "i < cap \<and> occ m i \<and> entry_key (entries m i) = k"
    with hm_inv_path[OF inv, of i] obtain d where d: "d < cap" "i = pos hs cap k d"
      "\<forall>e<d. \<not> vacant m (pos hs cap k e)"
      by (auto simp: on_path_def)
    have "find_probe cap k cap (pos hs cap k 0) m \<noteq> None"
      by (rule find_probe_complete[where e = d]) (use d R in auto)
    then obtain j where j: "find_probe cap k cap (hash_slot hs cap k) m = Some j"
      using cap by (auto simp: pos_0)
    with sound have "j = i" using R hm_inv_uniq[OF inv] by blast
    with j show "find_probe cap k cap (hash_slot hs cap k) m = Some i" by simp
  qed (rule sound)
qed

lemma hm_find_iff:
  assumes "hm_inv hs cap m"
  shows "hm_find hs cap m k = Some v \<longleftrightarrow>
           (\<exists>i<cap. occ m i \<and> entry_key (entries m i) = k \<and> entry_value (entries m i) = v)"
  using find_slot_iff[OF assms] by (auto simp: hm_find_def)

lemma hm_find_None:
  assumes "hm_inv hs cap m"
  shows "hm_find hs cap m k = None \<longleftrightarrow> (\<forall>i<cap. occ m i \<longrightarrow> entry_key (entries m i) \<noteq> k)"
  using hm_find_iff[OF assms, of k] by (cases "hm_find hs cap m k") auto

lemma find_slot_None:
  assumes "hm_inv hs cap m"
  shows "find_probe cap k cap (hash_slot hs cap k) m = None \<longleftrightarrow> hm_find hs cap m k = None"
  by (simp add: hm_find_def)

section \<open>What erase and insert do to the slots\<close>

definition bury :: "nat \<Rightarrow> ('k, 'v) hashmap \<Rightarrow> ('k, 'v) hashmap" where
  "bury i m = m\<lparr>entries := (entries m)(i := (entries m i)\<lparr>entry_state := Deleted\<rparr>),
                hm_size := hm_size m - 1\<rparr>"

definition revalue :: "nat \<Rightarrow> 'v \<Rightarrow> ('k, 'v) hashmap \<Rightarrow> ('k, 'v) hashmap" where
  "revalue i v m = m\<lparr>entries := (entries m)(i := (entries m i)\<lparr>entry_value := v\<rparr>)\<rparr>"

lemma erase_probe_find:
  "erase_probe cap k n i m =
     (case find_probe cap k n i m of None \<Rightarrow> (False, m) | Some j \<Rightarrow> (True, bury j m))"
  by (induction n arbitrary: i) (auto simp: bury_def)

lemma insert_probe_hit:
  "find_probe cap k n i m = Some j \<Longrightarrow> insert_probe cap k v n i fd m = (True, revalue j v m)"
  by (induction n arbitrary: i fd) (auto simp: revalue_def split: if_splits EntryState.splits)

text \<open>
  A probe for an absent key ends at a slot that is not occupied and that the
  key's probe sequence reaches, or reports failure when every slot is occupied.
\<close>

lemma insert_probe_miss:
  assumes "find_probe cap k n (pos hs cap k d) m = None" "d + n = cap" "0 < cap"
    "\<forall>x<d. \<not> vacant m (pos hs cap k x)"
    "fd = cap \<and> (\<forall>x<d. occ m (pos hs cap k x)) \<or>
     (\<exists>x<d. fd = pos hs cap k x \<and> \<not> occ m fd)"
  shows "(\<exists>t<cap. \<not> occ m t \<and> on_path hs cap m k t \<and>
            insert_probe cap k v n (pos hs cap k d) fd m = (True, occupy t k v m)) \<or>
         (\<forall>i<cap. occ m i) \<and> insert_probe cap k v n (pos hs cap k d) fd m = (False, m)"
  using assms
proof (induction n arbitrary: d fd)
  case 0
  then have d: "d = cap" by simp
  show ?case
  proof (cases "fd = cap")
    case True
    with "0.prems"(3,5) d have "\<forall>x<cap. occ m (pos hs cap k x)" by simp
    then have "\<forall>i<cap. occ m i" using pos_surj[of _ cap hs k] by blast
    with True show ?thesis by simp
  next
    case False
    with "0.prems"(5) d obtain x where x: "x < cap" "fd = pos hs cap k x" "\<not> occ m fd" by blast
    then have "on_path hs cap m k fd"
      unfolding on_path_def using "0.prems"(4) d by (intro exI[of _ x]) simp
    with x False "0.prems"(3) show ?thesis by (intro disjI1 exI[of _ fd]) simp
  qed
next
  case (Suc n)
  let ?i = "pos hs cap k d"
  have path: "on_path hs cap m k (pos hs cap k x)" if "x \<le> d" for x
    unfolding on_path_def using that Suc.prems by (intro exI[of _ x]) auto
  show ?case
  proof (cases "entry_state (entries m ?i)")
    case Empty
    let ?t = "if fd \<noteq> cap then fd else ?i"
    have "?t < cap \<and> \<not> occ m ?t \<and> on_path hs cap m k ?t"
    proof (cases "fd = cap")
      case True
      with Empty path Suc.prems(3) show ?thesis by (simp add: occ_def)
    next
      case False
      with Suc.prems(5) obtain x where "x < d" "fd = pos hs cap k x" "\<not> occ m fd" by blast
      with path[of x] Suc.prems(3) False show ?thesis by simp
    qed
    moreover have "insert_probe cap k v (Suc n) ?i fd m = (True, occupy ?t k v m)"
      using Empty by simp
    ultimately show ?thesis by (intro disjI1 exI[of _ ?t]) blast
  next
    case Occupied
    with Suc.prems(1) have ne: "entry_key (entries m ?i) \<noteq> k"
      and miss: "find_probe cap k n (pos hs cap k (Suc d)) m = None"
      by (auto split: if_splits)
    have "\<forall>x<Suc d. \<not> vacant m (pos hs cap k x)"
      using Suc.prems(4) Occupied by (auto simp: less_Suc_eq vacant_def)
    moreover have "fd = cap \<and> (\<forall>x<Suc d. occ m (pos hs cap k x)) \<or>
        (\<exists>x<Suc d. fd = pos hs cap k x \<and> \<not> occ m fd)"
      using Suc.prems(5) Occupied by (auto simp: less_Suc_eq occ_def)
    ultimately show ?thesis
      using Suc.IH[OF miss] Suc.prems(2,3) Occupied ne by simp
  next
    case Deleted
    let ?fd = "if fd = cap then ?i else fd"
    from Suc.prems(1) Deleted
    have miss: "find_probe cap k n (pos hs cap k (Suc d)) m = None" by simp
    have "\<forall>x<Suc d. \<not> vacant m (pos hs cap k x)"
      using Suc.prems(4) Deleted by (auto simp: less_Suc_eq vacant_def)
    moreover have "\<exists>x<Suc d. ?fd = pos hs cap k x \<and> \<not> occ m ?fd"
      using Suc.prems(5) Deleted by (auto simp: less_Suc_eq occ_def)
    ultimately show ?thesis
      using Suc.IH[OF miss, of ?fd] Suc.prems(2,3) Deleted by simp
  qed
qed

lemma on_path_mono:
  assumes "on_path hs cap m k i" "\<And>j. vacant m' j \<Longrightarrow> vacant m j"
  shows "on_path hs cap m' k i"
  using assms unfolding on_path_def by blast

lemma occupy_simps [simp]:
  "occ (occupy t k v m) i \<longleftrightarrow> i = t \<or> occ m i"
  "vacant (occupy t k v m) i \<longleftrightarrow> i \<noteq> t \<and> vacant m i"
  "entries (occupy t k v m) i =
     (if i = t then \<lparr>entry_key = k, entry_value = v, entry_state = Occupied\<rparr> else entries m i)"
  "hm_size (occupy t k v m) = Suc (hm_size m)"
  by (auto simp: occupy_def occ_def vacant_def)

lemma bury_simps [simp]:
  "occ (bury t m) i \<longleftrightarrow> i \<noteq> t \<and> occ m i"
  "vacant (bury t m) i \<longleftrightarrow> i \<noteq> t \<and> vacant m i"
  "entry_key (entries (bury t m) i) = entry_key (entries m i)"
  "entry_value (entries (bury t m) i) = entry_value (entries m i)"
  "hm_size (bury t m) = hm_size m - 1"
  by (auto simp: bury_def occ_def vacant_def)

lemma revalue_simps [simp]:
  "occ (revalue t v m) i \<longleftrightarrow> occ m i"
  "vacant (revalue t v m) i \<longleftrightarrow> vacant m i"
  "entry_key (entries (revalue t v m) i) = entry_key (entries m i)"
  "entry_value (entries (revalue t v m) i) = (if i = t then v else entry_value (entries m i))"
  "hm_size (revalue t v m) = hm_size m"
  by (auto simp: revalue_def occ_def vacant_def)

lemma occupy_inv:
  assumes inv: "hm_inv hs cap m" and t: "t < cap" "\<not> occ m t" "on_path hs cap m k t"
    and fresh: "\<forall>i<cap. occ m i \<longrightarrow> entry_key (entries m i) \<noteq> k"
  shows "hm_inv hs cap (occupy t k v m)"
  unfolding hm_inv_def
proof (intro conjI allI impI)
  show "0 < cap" by (rule hm_inv_cap[OF inv])
  show "on_path hs cap (occupy t k v m) (entry_key (entries (occupy t k v m) i)) i"
    if "i < cap" "occ (occupy t k v m) i" for i
    using that t(3) hm_inv_path[OF inv, of i]
    by (auto elim!: on_path_mono)
  show "i = j" if "i < cap" "j < cap"
    "occ (occupy t k v m) i \<and> occ (occupy t k v m) j \<and>
     entry_key (entries (occupy t k v m) i) = entry_key (entries (occupy t k v m) j)" for i j
    using that fresh hm_inv_uniq[OF inv, of i j] by (auto split: if_splits)
  have "occ_slots cap (occupy t k v m) = insert t (occ_slots cap m)"
    using t by (auto simp: occ_slots_def)
  then show "hm_size (occupy t k v m) = card (occ_slots cap (occupy t k v m))"
    using t hm_inv_size[OF inv] by (simp add: occ_slots_def)
qed

lemma bury_inv:
  assumes inv: "hm_inv hs cap m" and t: "t < cap" "occ m t"
  shows "hm_inv hs cap (bury t m)"
  unfolding hm_inv_def
proof (intro conjI allI impI)
  show "0 < cap" by (rule hm_inv_cap[OF inv])
  show "on_path hs cap (bury t m) (entry_key (entries (bury t m) i)) i"
    if "i < cap" "occ (bury t m) i" for i
    using that hm_inv_path[OF inv, of i] by (auto elim!: on_path_mono)
  show "i = j" if "i < cap" "j < cap"
    "occ (bury t m) i \<and> occ (bury t m) j \<and>
     entry_key (entries (bury t m) i) = entry_key (entries (bury t m) j)" for i j
    using that hm_inv_uniq[OF inv, of i j] by auto
  have "occ_slots cap (bury t m) = occ_slots cap m - {t}"
    by (auto simp: occ_slots_def)
  then show "hm_size (bury t m) = card (occ_slots cap (bury t m))"
    using t hm_inv_size[OF inv] by (simp add: occ_slots_def)
qed

lemma revalue_inv:
  assumes inv: "hm_inv hs cap m" and t: "t < cap" "occ m t"
  shows "hm_inv hs cap (revalue t v m)"
  using inv unfolding hm_inv_def on_path_def occ_slots_def by simp

section \<open>The operations on the map they represent\<close>

lemma hm_insert_cases:
  assumes inv: "hm_inv hs cap m"
  obtains (hit) i where "i < cap" "occ m i" "entry_key (entries m i) = k"
      "hm_insert hs cap k v m = (True, revalue i v m)"
  | (new) t where "hm_find hs cap m k = None" "t < cap" "\<not> occ m t" "on_path hs cap m k t"
      "hm_insert hs cap k v m = (True, occupy t k v m)"
  | (full) "hm_find hs cap m k = None" "\<forall>i<cap. occ m i" "hm_insert hs cap k v m = (False, m)"
proof (cases "find_probe cap k cap (hash_slot hs cap k) m")
  case None
  have cap: "0 < cap" by (rule hm_inv_cap[OF inv])
  from None have abs: "hm_find hs cap m k = None" by (simp add: hm_find_def)
  from insert_probe_miss[of cap k cap hs 0 m cap v] None cap
  show ?thesis using that(2)[OF abs] that(3)[OF abs]
    by (auto simp: hm_insert_def pos_0)
next
  case (Some i)
  then show ?thesis
    using find_slot_iff[OF inv, of k i] insert_probe_hit[OF Some, of v cap] that(1)[of i]
    by (simp add: hm_insert_def)
qed

lemma hm_find_occupy:
  assumes inv: "hm_inv hs cap m" and t: "t < cap" "\<not> occ m t" "on_path hs cap m k t"
    and fresh: "hm_find hs cap m k = None"
  shows "hm_find hs cap (occupy t k v m) = (hm_find hs cap m)(k \<mapsto> v)"
proof (intro ext)
  fix x
  have fresh': "\<forall>i<cap. occ m i \<longrightarrow> entry_key (entries m i) \<noteq> k"
    using fresh hm_find_None[OF inv] by simp
  note inv' = occupy_inv[OF inv t fresh', of v]
  have "hm_find hs cap (occupy t k v m) x = Some y \<longleftrightarrow> ((hm_find hs cap m)(k \<mapsto> v)) x = Some y" for y
    unfolding hm_find_iff[OF inv'] fun_upd_apply
    using hm_find_iff[OF inv, of x y] t fresh' by (auto split: if_splits)
  then show "hm_find hs cap (occupy t k v m) x = ((hm_find hs cap m)(k \<mapsto> v)) x"
    by (metis option.exhaust)
qed

lemma hm_find_revalue:
  assumes inv: "hm_inv hs cap m" and t: "t < cap" "occ m t" "entry_key (entries m t) = k"
  shows "hm_find hs cap (revalue t v m) = (hm_find hs cap m)(k \<mapsto> v)"
proof (intro ext)
  fix x
  note inv' = revalue_inv[OF inv t(1,2), of v]
  have uniq: "j = t" if "j < cap" "occ m j" "entry_key (entries m j) = k" for j
    using hm_inv_uniq[OF inv, of j t] that t by simp
  have "hm_find hs cap (revalue t v m) x = Some y \<longleftrightarrow> ((hm_find hs cap m)(k \<mapsto> v)) x = Some y" for y
  proof (cases "x = k")
    case True
    have "(\<exists>i<cap. occ m i \<and> entry_key (entries m i) = k \<and>
            (if i = t then v else entry_value (entries m i)) = y) \<longleftrightarrow> v = y" (is "?L = _")
    proof
      assume ?L
      then show "v = y" using uniq by metis
    next
      assume "v = y"
      with t show ?L by (intro exI[of _ t]) simp
    qed
    with True show ?thesis unfolding hm_find_iff[OF inv'] by simp
  next
    case False
    then have "(\<exists>i<cap. occ m i \<and> entry_key (entries m i) = x \<and>
            (if i = t then v else entry_value (entries m i)) = y) \<longleftrightarrow>
          (\<exists>i<cap. occ m i \<and> entry_key (entries m i) = x \<and> entry_value (entries m i) = y)"
      using t(3) by metis
    with False show ?thesis
      unfolding hm_find_iff[OF inv'] by (simp add: hm_find_iff[OF inv])
  qed
  then show "hm_find hs cap (revalue t v m) x = ((hm_find hs cap m)(k \<mapsto> v)) x"
    by (metis option.exhaust)
qed

lemma hm_find_bury:
  assumes inv: "hm_inv hs cap m" and t: "t < cap" "occ m t" "entry_key (entries m t) = k"
  shows "hm_find hs cap (bury t m) = (hm_find hs cap m)(k := None)"
proof (intro ext)
  fix x
  note inv' = bury_inv[OF inv t(1,2)]
  have uniq: "j = t" if "j < cap" "occ m j" "entry_key (entries m j) = k" for j
    using hm_inv_uniq[OF inv, of j t] that t by simp
  have "hm_find hs cap (bury t m) x = Some y \<longleftrightarrow> ((hm_find hs cap m)(k := None)) x = Some y" for y
  proof (cases "x = k")
    case True
    then show ?thesis unfolding hm_find_iff[OF inv'] using uniq by force
  next
    case False
    then show ?thesis unfolding hm_find_iff[OF inv'] fun_upd_apply
      using hm_find_iff[OF inv, of x y] t(3) by force
  qed
  then show "hm_find hs cap (bury t m) x = ((hm_find hs cap m)(k := None)) x"
    by (metis option.exhaust)
qed

lemma dom_hm_find:
  assumes "hm_inv hs cap m"
  shows "dom (hm_find hs cap m) = (\<lambda>i. entry_key (entries m i)) ` occ_slots cap m"
  using hm_find_iff[OF assms] by (fastforce simp: dom_def occ_slots_def)

lemma hm_size_card:
  assumes inv: "hm_inv hs cap m"
  shows "hm_size m = card (dom (hm_find hs cap m))"
proof -
  have "inj_on (\<lambda>i. entry_key (entries m i)) (occ_slots cap m)"
    using hm_inv_uniq[OF inv] by (auto simp: inj_on_def occ_slots_def)
  then show ?thesis
    by (simp add: dom_hm_find[OF inv] hm_inv_size[OF inv] card_image)
qed

section \<open>The contract and what a client gets from it\<close>

text \<open>
  \<open>indexes lk live key\<close>: the map \<open>lk\<close> sends an identifier to the live object that
  carries it, and nothing else.  This is how the order book uses the map.
\<close>

definition indexes :: "('k \<Rightarrow> 'v option) \<Rightarrow> 'v set \<Rightarrow> ('v \<Rightarrow> 'k) \<Rightarrow> bool" where
  "indexes lk live key \<longleftrightarrow> (\<forall>k p. lk k = Some p \<longleftrightarrow> p \<in> live \<and> key p = k)"

locale keyed_store =
  fixes lookup :: "'m \<Rightarrow> 'k \<Rightarrow> 'v option"
    and put :: "'k \<Rightarrow> 'v \<Rightarrow> 'm \<Rightarrow> bool \<times> 'm"
    and del :: "'k \<Rightarrow> 'm \<Rightarrow> bool \<times> 'm"
    and count :: "'m \<Rightarrow> nat"
    and capacity :: nat
    and invar :: "'m \<Rightarrow> bool"
  assumes count_card: "invar m \<Longrightarrow> count m = card (dom (lookup m))"
    and put_ok: "invar m \<Longrightarrow> fst (put k v m) \<longleftrightarrow> k \<in> dom (lookup m) \<or> count m < capacity"
    and put_lookup: "invar m \<Longrightarrow> fst (put k v m) \<Longrightarrow> lookup (snd (put k v m)) = (lookup m)(k \<mapsto> v)"
    and put_full: "invar m \<Longrightarrow> \<not> fst (put k v m) \<Longrightarrow> snd (put k v m) = m"
    and put_invar: "invar m \<Longrightarrow> invar (snd (put k v m))"
    and del_ok: "invar m \<Longrightarrow> fst (del k m) \<longleftrightarrow> k \<in> dom (lookup m)"
    and del_lookup: "invar m \<Longrightarrow> lookup (snd (del k m)) = (lookup m)(k := None)"
    and del_invar: "invar m \<Longrightarrow> invar (snd (del k m))"
begin

lemma count_indexes:
  assumes "invar m" "indexes (lookup m) live key"
  shows "count m = card live"
proof -
  have "dom (lookup m) = key ` live" using assms(2) by (auto simp: indexes_def dom_def)
  moreover have "inj_on key live"
    using assms(2) unfolding indexes_def inj_on_def by (metis option.inject)
  ultimately show ?thesis by (simp add: count_card[OF assms(1)] card_image)
qed

lemma put_indexes:
  assumes "invar m" "indexes (lookup m) live key" "card live < capacity"
    "key' p = k" "\<And>q. q \<in> live \<Longrightarrow> key' q = key q" "\<And>q. q \<in> live \<Longrightarrow> key q \<noteq> k"
  shows "fst (put k p m)" "invar (snd (put k p m))"
    "indexes (lookup (snd (put k p m))) (insert p live) key'"
proof -
  show ok: "fst (put k p m)" using assms(1-3) by (simp add: put_ok count_indexes)
  show "invar (snd (put k p m))" using assms(1) by (rule put_invar)
  have "p \<notin> live" using assms(4-6) by metis
  then show "indexes (lookup (snd (put k p m))) (insert p live) key'"
    using assms(2,4,5,6) unfolding put_lookup[OF assms(1) ok] indexes_def by auto
qed

lemma del_indexes:
  assumes "invar m" "indexes (lookup m) live key" "p \<in> live" "key p = k"
    "\<And>q. q \<in> live - {p} \<Longrightarrow> key' q = key q"
  shows "fst (del k m)" "invar (snd (del k m))"
    "indexes (lookup (snd (del k m))) (live - {p}) key'"
proof -
  from assms(2,3,4) have lk: "lookup m k = Some p" by (simp add: indexes_def)
  then show "fst (del k m)" using assms(1) by (simp add: del_ok dom_def)
  show "invar (snd (del k m))" using assms(1) by (rule del_invar)
  have "x = p" if "x \<in> live" "key x = k" for x
    using assms(2) lk that by (metis indexes_def option.inject)
  then show "indexes (lookup (snd (del k m))) (live - {p}) key'"
    using assms(2,4,5) unfolding del_lookup[OF assms(1)] indexes_def by auto
qed

end

lemma hm_insert_ok:
  assumes inv: "hm_inv hs cap m"
  shows "fst (hm_insert hs cap k v m) \<longleftrightarrow> k \<in> dom (hm_find hs cap m) \<or> hm_size m < cap"
proof (cases rule: hm_insert_cases[OF inv, of k v, case_names hit new full])
  case (hit i)
  then have "hm_find hs cap m k = Some (entry_value (entries m i))"
    by (subst hm_find_iff[OF inv]) blast
  with hit show ?thesis by (simp add: domI)
next
  case (new t)
  then have "card (occ_slots cap m) < cap"
    using occ_slots_full[of cap m] card_occ_slots_le[of cap m] by fastforce
  with new show ?thesis by (simp add: hm_inv_size[OF inv])
next
  case full
  then show ?thesis using occ_slots_full[of cap m] hm_inv_size[OF inv] by auto
qed

lemma hm_insert_find:
  assumes inv: "hm_inv hs cap m" and "fst (hm_insert hs cap k v m)"
  shows "hm_find hs cap (snd (hm_insert hs cap k v m)) = (hm_find hs cap m)(k \<mapsto> v)"
proof (cases rule: hm_insert_cases[OF inv, of k v, case_names hit new full])
  case (hit i)
  then show ?thesis using hm_find_revalue[OF inv hit(1-3), of v] by simp
next
  case (new t)
  then show ?thesis using hm_find_occupy[OF inv new(2-4,1), of v] by simp
next
  case full
  with assms(2) show ?thesis by simp
qed

lemma hm_insert_inv:
  assumes inv: "hm_inv hs cap m"
  shows "hm_inv hs cap (snd (hm_insert hs cap k v m))"
proof (cases rule: hm_insert_cases[OF inv, of k v, case_names hit new full])
  case (hit i)
  then show ?thesis using revalue_inv[OF inv hit(1,2), of v] by simp
next
  case (new t)
  then show ?thesis
    using occupy_inv[OF inv new(2-4), of v] hm_find_None[OF inv, of k] by simp
next
  case full
  with inv show ?thesis by simp
qed

lemma hm_insert_full:
  assumes inv: "hm_inv hs cap m" and "\<not> fst (hm_insert hs cap k v m)"
  shows "snd (hm_insert hs cap k v m) = m"
  using assms(2) by (cases rule: hm_insert_cases[OF inv, of k v, case_names hit new full]) simp_all

lemma hm_erase_cases:
  assumes inv: "hm_inv hs cap m"
  obtains (hit) i where "i < cap" "occ m i" "entry_key (entries m i) = k"
      "hm_erase hs cap k m = (True, bury i m)"
  | (miss) "hm_find hs cap m k = None" "hm_erase hs cap k m = (False, m)"
proof (cases "find_probe cap k cap (hash_slot hs cap k) m")
  case None
  then show ?thesis using that(2) by (simp add: hm_erase_def erase_probe_find hm_find_def)
next
  case (Some i)
  then show ?thesis using that(1)[of i] find_slot_iff[OF inv, of k i]
    by (simp add: hm_erase_def erase_probe_find)
qed

lemma hm_erase_laws:
  assumes inv: "hm_inv hs cap m"
  shows hm_erase_ok: "fst (hm_erase hs cap k m) \<longleftrightarrow> k \<in> dom (hm_find hs cap m)"
    and hm_erase_find: "hm_find hs cap (snd (hm_erase hs cap k m)) = (hm_find hs cap m)(k := None)"
    and hm_erase_inv: "hm_inv hs cap (snd (hm_erase hs cap k m))"
proof -
  have "(fst (hm_erase hs cap k m) \<longleftrightarrow> k \<in> dom (hm_find hs cap m)) \<and>
        hm_find hs cap (snd (hm_erase hs cap k m)) = (hm_find hs cap m)(k := None) \<and>
        hm_inv hs cap (snd (hm_erase hs cap k m))"
  proof (cases rule: hm_erase_cases[OF inv, of k, case_names hit miss])
    case (hit i)
    then have "hm_find hs cap m k = Some (entry_value (entries m i))"
      by (subst hm_find_iff[OF inv]) blast
    with hit show ?thesis
      by (simp add: hm_find_bury[OF inv hit(1-3)] bury_inv[OF inv hit(1,2)] domI)
  next
    case miss
    then show ?thesis using inv by (auto simp: fun_upd_idem dom_def)
  qed
  then show "fst (hm_erase hs cap k m) \<longleftrightarrow> k \<in> dom (hm_find hs cap m)"
    "hm_find hs cap (snd (hm_erase hs cap k m)) = (hm_find hs cap m)(k := None)"
    "hm_inv hs cap (snd (hm_erase hs cap k m))" by blast+
qed

interpretation hm: keyed_store "hm_find hs cap" "hm_insert hs cap" "hm_erase hs cap" hm_size cap
  "hm_inv hs cap" for hs :: "'k \<Rightarrow> nat" and cap :: nat
  by unfold_locales
    (rule hm_size_card hm_insert_ok hm_insert_find hm_insert_full hm_insert_inv
      hm_erase_ok hm_erase_find hm_erase_inv; assumption)+

section \<open>Properties\<close>

text \<open>C23. \<^verbatim>\<open>FixedHashMap::insert\<close> implements a bounded finite map.  It keeps the probe
  invariant, succeeds exactly when the key is present or the table is not full (so
  tombstones never make it fail), afterwards \<^verbatim>\<open>find\<close> sees the map updated at the key
  and nowhere else, the size counts the keys, and a refused insert changes nothing.\<close>

theorem hashmap_insert_correct:
  assumes "hm_inv hs cap m" "hm_insert hs cap k v m = (ok, m')"
  shows "hm_inv hs cap m' \<and>
    (ok \<longleftrightarrow> k \<in> dom (hm_find hs cap m) \<or> hm_size m < cap) \<and>
    hm_find hs cap m' = (if ok then (hm_find hs cap m)(k \<mapsto> v) else hm_find hs cap m) \<and>
    hm_size m' = card (dom (hm_find hs cap m')) \<and>
    (\<not> ok \<longrightarrow> m' = m)"
proof -
  have r: "fst (hm_insert hs cap k v m) = ok" "snd (hm_insert hs cap k v m) = m'"
    using assms(2) by simp_all
  have inv: "hm_inv hs cap m'" using hm.put_invar[OF assms(1), of k v] r by simp
  have ok: "ok \<longleftrightarrow> k \<in> dom (hm_find hs cap m) \<or> hm_size m < cap"
    using hm.put_ok[OF assms(1), of k v] r by simp
  have find: "hm_find hs cap m' = (hm_find hs cap m)(k \<mapsto> v)" if ok
    using hm_insert_find[OF assms(1), of k v] r that by simp
  have same: "m' = m" if "\<not> ok"
    using hm_insert_full[OF assms(1), of k v] r that by simp
  show ?thesis
    by (intro conjI inv ok hm_size_card[OF inv] impI same) (cases ok; simp only: find same if_True if_False)+
qed

theorem hashmap_insert_correct_witness:
  "let r = hm_insert unat 4 (5::u64) (10::nat) (empty_map 0 0)
   in fst r \<and> hm_find unat 4 (snd r) 5 = Some 10 \<and> hm_inv unat 4 (snd r)"
proof -
  let ?r = "hm_insert unat 4 (5::u64) (10::nat) (empty_map 0 0)"
  have ok: "fst ?r" by code_simp
  have "hm_inv unat 4 (empty_map (0::u64) (0::nat))" by (rule hm_inv_empty_map) simp
  from hashmap_insert_correct[OF this prod.collapse[symmetric], of 5 10] ok show ?thesis
    by (simp add: Let_def)
qed

text \<open>\<^verbatim>\<open>FixedHashMap::erase\<close> reports whether the key was present, removes exactly that
  key from the map \<^verbatim>\<open>find\<close> sees, keeps every other key reachable past the tombstone it
  leaves, and keeps the invariant.\<close>

lemma hashmap_erase_correct:
  assumes "hm_inv hs cap m" "hm_erase hs cap k m = (ok, m')"
  shows "hm_inv hs cap m' \<and> (ok \<longleftrightarrow> k \<in> dom (hm_find hs cap m)) \<and>
    hm_find hs cap m' = (hm_find hs cap m)(k := None) \<and>
    hm_size m' = (if ok then hm_size m - 1 else hm_size m)"
proof -
  have r: "fst (hm_erase hs cap k m) = ok" "snd (hm_erase hs cap k m) = m'"
    using assms(2) by simp_all
  have inv: "hm_inv hs cap m'" using hm_erase_inv[OF assms(1), of k] r by simp
  have ok: "ok \<longleftrightarrow> k \<in> dom (hm_find hs cap m)" using hm_erase_ok[OF assms(1), of k] r by simp
  have find: "hm_find hs cap m' = (hm_find hs cap m)(k := None)"
    using hm_erase_find[OF assms(1), of k] r by simp
  have "hm_size m' = card (dom (hm_find hs cap m) - {k})"
    using hm_size_card[OF inv] find by simp
  then have "hm_size m' = (if ok then hm_size m - 1 else hm_size m)"
    using hm_size_card[OF assms(1)] ok by (simp add: card_Diff_singleton_if)
  with inv ok find show ?thesis by blast
qed

text \<open>Two colliding keys: erasing the first leaves the second reachable.\<close>

end
