(* ===== verification/ArrayOrderBook.thy ===== *)
theory ArrayOrderBook
  imports PriceLevels LevelBitmap FixedHashMap "HOL-Library.Monad_Syntax"
begin

text \<open>
  The order book of \<^verbatim>\<open>orderbook/software/array_order_book.cpp\<close>: two arrays of price
  levels indexed by price, an occupancy bitmap and a cached best price per side, and
  the hash index from order identifiers to orders.

  An operation takes and returns the pair of the order heap and the book.  \<open>None\<close> is
  undefined behaviour: an index outside a level or bitmap array, or a null \<^verbatim>\<open>level\<close>
  pointer dereferenced.  The abstract book is a FIFO queue of order addresses per side
  and price; \<open>book_inv Q h b\<close> says that the heap and the arrays represent the queues
  \<open>Q\<close>, and the lemmas show what each operation does to \<open>Q\<close>.
\<close>

section \<open>State\<close>

record ArrayOrderBook =
  bid_levels :: "nat \<Rightarrow> PriceLevel"
  ask_levels :: "nat \<Rightarrow> PriceLevel"
  bid_level_bitmap :: bitmap
  ask_level_bitmap :: bitmap
  best_bid :: Price
  best_ask :: Price
  order_index :: "(OrderId, ptr) hashmap"

definition DefaultOrderCapacity :: nat where
  "DefaultOrderCapacity = 4096"

definition new_book :: ArrayOrderBook where
  "new_book = \<lparr>bid_levels = (\<lambda>_. new_level), ask_levels = (\<lambda>_. new_level),
     bid_level_bitmap = (\<lambda>_. 0), ask_level_bitmap = (\<lambda>_. 0),
     best_bid = 0, best_ask = 0, order_index = empty_map 0 0\<rparr>"

text \<open>\<^verbatim>\<open>std::hash<std::uint64_t>\<close> of libstdc++ is the identity.\<close>

definition index_find :: "ArrayOrderBook \<Rightarrow> OrderId \<Rightarrow> ptr option" where
  "index_find b = hm_find unat DefaultOrderCapacity (order_index b)"

definition index_insert :: "OrderId \<Rightarrow> ptr \<Rightarrow> ArrayOrderBook \<Rightarrow> ArrayOrderBook" where
  "index_insert oid p b =
     b\<lparr>order_index := snd (hm_insert unat DefaultOrderCapacity oid p (order_index b))\<rparr>"

definition index_erase :: "OrderId \<Rightarrow> ArrayOrderBook \<Rightarrow> ArrayOrderBook" where
  "index_erase oid b =
     b\<lparr>order_index := snd (hm_erase unat DefaultOrderCapacity oid (order_index b))\<rparr>"

definition getLevel :: "Side \<Rightarrow> Price \<Rightarrow> level_ref option" where
  "getLevel side price =
     (if priceToIndex price < MaxPriceLevels then Some (side, priceToIndex price) else None)"

fun level_at :: "level_ref \<Rightarrow> ArrayOrderBook \<Rightarrow> PriceLevel" where
  "level_at (Buy, i) b = bid_levels b i"
| "level_at (Sell, i) b = ask_levels b i"

fun set_level :: "level_ref \<Rightarrow> PriceLevel \<Rightarrow> ArrayOrderBook \<Rightarrow> ArrayOrderBook" where
  "set_level (Buy, i) l b = b\<lparr>bid_levels := (bid_levels b)(i := l)\<rparr>"
| "set_level (Sell, i) l b = b\<lparr>ask_levels := (ask_levels b)(i := l)\<rparr>"

definition bestBid :: "ArrayOrderBook \<Rightarrow> level_ref option option" where
  "bestBid b =
     (if best_bid b = 0 then Some None else map_option Some (getLevel Buy (best_bid b)))"

definition bestAsk :: "ArrayOrderBook \<Rightarrow> level_ref option option" where
  "bestAsk b =
     (if best_ask b = 0 then Some None else map_option Some (getLevel Sell (best_ask b)))"

section \<open>Operations\<close>

definition addOrder :: "ptr \<Rightarrow> heap \<times> ArrayOrderBook \<Rightarrow> (heap \<times> ArrayOrderBook) option" where
  "addOrder p = (\<lambda>(h, b). do {
     let side = ord_side (h p);
     let price = ord_price (h p);
     ref \<leftarrow> getLevel side price;
     b1 \<leftarrow>
       (if lvl_empty (level_at ref b)
        then let b0 = set_level ref ((level_at ref b)\<lparr>lvl_price := price\<rparr>) b
             in if side = Buy
                then map_option (\<lambda>bm. b0\<lparr>bid_level_bitmap := bm\<rparr>)
                       (setLevelActive (bid_level_bitmap b0) price)
                else map_option (\<lambda>bm. b0\<lparr>ask_level_bitmap := bm\<rparr>)
                       (setLevelActive (ask_level_bitmap b0) price)
        else Some b);
     let (h1, l) = lvl_push_back ref p (h, level_at ref b1);
     let b2 = set_level ref l b1;
     let b3 =
       (if side = Buy
        then if best_bid b2 = 0 \<or> price > best_bid b2 then b2\<lparr>best_bid := price\<rparr> else b2
        else if best_ask b2 = 0 \<or> price < best_ask b2 then b2\<lparr>best_ask := price\<rparr> else b2);
     Some (h1, index_insert (ord_id (h1 p)) p b3)
   })"

definition cancelOrder ::
  "OrderId \<Rightarrow> heap \<times> ArrayOrderBook \<Rightarrow> (ptr option \<times> heap \<times> ArrayOrderBook) option" where
  "cancelOrder oid = (\<lambda>(h, b).
     case index_find b oid of
       None \<Rightarrow> Some (None, h, b)
     | Some p \<Rightarrow> do {
         ref \<leftarrow> ord_level (h p);
         let (h1, l) = lvl_remove (Some p) (h, level_at ref b);
         let b1 = set_level ref l b;
         let side = ord_side (h1 p);
         let price = ord_price (h1 p);
         b4 \<leftarrow>
           (if lvl_empty l
            then do {
              b2 \<leftarrow>
                (if side = Buy
                 then map_option (\<lambda>bm. b1\<lparr>bid_level_bitmap := bm\<rparr>)
                        (clearLevelActive (bid_level_bitmap b1) price)
                 else map_option (\<lambda>bm. b1\<lparr>ask_level_bitmap := bm\<rparr>)
                        (clearLevelActive (ask_level_bitmap b1) price));
              b3 \<leftarrow>
                (if side = Buy \<and> price = best_bid b2
                 then map_option (\<lambda>x. b2\<lparr>best_bid := x\<rparr>)
                        (refreshBestBid (bid_level_bitmap b2) (best_bid b2))
                 else Some b2);
              if side = Sell \<and> price = best_ask b3
              then map_option (\<lambda>x. b3\<lparr>best_ask := x\<rparr>)
                     (refreshBestAsk (ask_level_bitmap b3) (best_ask b3))
              else Some b3
            }
            else Some b1);
         Some (Some p, h1, index_erase oid b4)
       })"

record OrderUpdateResult =
  upd_success :: bool
  upd_removed_order :: "ptr option"

definition no_update :: OrderUpdateResult where
  "no_update = \<lparr>upd_success = False, upd_removed_order = None\<rparr>"

definition reduceOrder ::
  "OrderId \<Rightarrow> Quantity \<Rightarrow> heap \<times> ArrayOrderBook \<Rightarrow> (OrderUpdateResult \<times> heap \<times> ArrayOrderBook) option" where
  "reduceOrder oid cancelledQuantity = (\<lambda>(h, b).
     case index_find b oid of
       None \<Rightarrow> Some (no_update, h, b)
     | Some p \<Rightarrow>
         if cancelledQuantity = 0 \<or> cancelledQuantity > ord_quantity (h p) then Some (no_update, h, b)
         else if cancelledQuantity = ord_quantity (h p)
         then do {
           (removed, h1, b1) \<leftarrow> cancelOrder oid (h, b);
           (case removed of
              None \<Rightarrow> Some (no_update, h1, b1)
            | Some r \<Rightarrow> Some (\<lparr>upd_success = True, upd_removed_order = Some r\<rparr>, h1, b1))
         }
         else Some (no_update\<lparr>upd_success := True\<rparr>,
                    h(p := (h p)\<lparr>ord_quantity := ord_quantity (h p) - cancelledQuantity\<rparr>), b))"

definition executeOrder ::
  "OrderId \<Rightarrow> Quantity \<Rightarrow> heap \<times> ArrayOrderBook \<Rightarrow> (OrderUpdateResult \<times> heap \<times> ArrayOrderBook) option" where
  "executeOrder oid executedQuantity = reduceOrder oid executedQuantity"

definition replaceOrder ::
  "OrderId \<Rightarrow> OrderId \<Rightarrow> Quantity \<Rightarrow> Price \<Rightarrow> heap \<times> ArrayOrderBook \<Rightarrow>
     (bool \<times> heap \<times> ArrayOrderBook) option" where
  "replaceOrder originalOrderId newOrderId newQuantity newPrice = (\<lambda>(h, b).
     if newOrderId = 0 \<or> newQuantity = 0 \<or> newOrderId = originalOrderId then Some (False, h, b)
     else if index_find b newOrderId \<noteq> None then Some (False, h, b)
     else case index_find b originalOrderId of
       None \<Rightarrow> Some (False, h, b)
     | Some found \<Rightarrow> do {
         let side = ord_side (h found);
         let accountId = ord_account (h found);
         (order, h1, b1) \<leftarrow> cancelOrder originalOrderId (h, b);
         (case order of
            None \<Rightarrow> Some (False, h1, b1)
          | Some p \<Rightarrow> do {
              let h2 = h1(p := (h1 p)\<lparr>ord_id := newOrderId, ord_account := accountId,
                ord_side := side, ord_price := newPrice, ord_quantity := newQuantity,
                ord_level := None, ord_prev := None, ord_next := None\<rparr>);
              (h3, b2) \<leftarrow> addOrder p (h2, b1);
              Some (True, h3, b2)
            })
       })"

section \<open>Both sides at once\<close>

text \<open>Accessors by side, so that one proof covers bids and asks.\<close>

fun bitmap_of :: "Side \<Rightarrow> ArrayOrderBook \<Rightarrow> bitmap" where
  "bitmap_of Buy b = bid_level_bitmap b"
| "bitmap_of Sell b = ask_level_bitmap b"

fun set_bitmap :: "Side \<Rightarrow> bitmap \<Rightarrow> ArrayOrderBook \<Rightarrow> ArrayOrderBook" where
  "set_bitmap Buy bm b = b\<lparr>bid_level_bitmap := bm\<rparr>"
| "set_bitmap Sell bm b = b\<lparr>ask_level_bitmap := bm\<rparr>"

fun best :: "Side \<Rightarrow> ArrayOrderBook \<Rightarrow> Price" where
  "best Buy b = best_bid b"
| "best Sell b = best_ask b"

fun set_best :: "Side \<Rightarrow> Price \<Rightarrow> ArrayOrderBook \<Rightarrow> ArrayOrderBook" where
  "set_best Buy x b = b\<lparr>best_bid := x\<rparr>"
| "set_best Sell x b = b\<lparr>best_ask := x\<rparr>"

fun better :: "Side \<Rightarrow> Price \<Rightarrow> Price \<Rightarrow> bool" where
  "better Buy x y \<longleftrightarrow> x > y"
| "better Sell x y \<longleftrightarrow> x < y"

fun refreshBest :: "Side \<Rightarrow> bitmap \<Rightarrow> Price \<Rightarrow> Price option" where
  "refreshBest Buy bm x = refreshBestBid bm x"
| "refreshBest Sell bm x = refreshBestAsk bm x"

lemma level_at_simps [simp]:
  "level_at r (set_level r' l b) = (if r = r' then l else level_at r b)"
  "level_at r (set_bitmap s bm b) = level_at r b" "level_at r (set_best s x b) = level_at r b"
  "level_at r (index_insert k p b) = level_at r b" "level_at r (index_erase k b) = level_at r b"
  by (cases r; cases "fst r"; cases r'; cases "fst r'"; cases s;
      auto simp: index_insert_def index_erase_def)+

lemma bitmap_of_simps [simp]:
  "bitmap_of s (set_level r l b) = bitmap_of s b"
  "bitmap_of s (set_bitmap s' bm b) = (if s = s' then bm else bitmap_of s b)"
  "bitmap_of s (set_best s' x b) = bitmap_of s b"
  "bitmap_of s (index_insert k p b) = bitmap_of s b" "bitmap_of s (index_erase k b) = bitmap_of s b"
  by (cases r; cases "fst r"; cases s; cases s'; auto simp: index_insert_def index_erase_def)+

lemma best_simps [simp]:
  "best s (set_level r l b) = best s b" "best s (set_bitmap s' bm b) = best s b"
  "best s (set_best s' x b) = (if s = s' then x else best s b)"
  "best s (index_insert k p b) = best s b" "best s (index_erase k b) = best s b"
  by (cases r; cases "fst r"; cases s; cases s'; auto simp: index_insert_def index_erase_def)+

lemma order_index_simps [simp]:
  "order_index (set_level r l b) = order_index b" "order_index (set_bitmap s bm b) = order_index b"
  "order_index (set_best s x b) = order_index b"
  by (cases r; cases "fst r"; cases s; auto)+

lemma set_level_fields [simp]:
  "bid_level_bitmap (set_level r l b) = bid_level_bitmap b"
  "ask_level_bitmap (set_level r l b) = ask_level_bitmap b"
  "best_bid (set_level r l b) = best_bid b" "best_ask (set_level r l b) = best_ask b"
  by (cases r; cases "fst r"; auto)+

lemma addOrder_by_side:
  "addOrder p (h, b) = do {
     ref \<leftarrow> getLevel (ord_side (h p)) (ord_price (h p));
     b1 \<leftarrow>
       (if lvl_empty (level_at ref b)
        then map_option (\<lambda>bm. set_bitmap (ord_side (h p)) bm
                                 (set_level ref ((level_at ref b)\<lparr>lvl_price := ord_price (h p)\<rparr>) b))
               (setLevelActive (bitmap_of (ord_side (h p)) b) (ord_price (h p)))
        else Some b);
     let (h1, l) = lvl_push_back ref p (h, level_at ref b1);
     let b2 = set_level ref l b1;
     let b3 =
       (if best (ord_side (h p)) b2 = 0 \<or> better (ord_side (h p)) (ord_price (h p)) (best (ord_side (h p)) b2)
        then set_best (ord_side (h p)) (ord_price (h p)) b2 else b2);
     Some (h1, index_insert (ord_id (h1 p)) p b3)
   }"
  unfolding addOrder_def Let_def
  by (cases "ord_side (h p)") (auto simp: getLevel_def intro!: Option.bind_cong split: prod.splits)

lemma cancelOrder_by_side:
  assumes "index_find b oid = Some p"
  shows "cancelOrder oid (h, b) = do {
     ref \<leftarrow> ord_level (h p);
     let (h1, l) = lvl_remove (Some p) (h, level_at ref b);
     let b1 = set_level ref l b;
     let side = ord_side (h1 p);
     let price = ord_price (h1 p);
     b4 \<leftarrow>
       (if lvl_empty l
        then do {
          b2 \<leftarrow> map_option (\<lambda>bm. set_bitmap side bm b1) (clearLevelActive (bitmap_of side b1) price);
          if price = best side b2
          then map_option (\<lambda>x. set_best side x b2) (refreshBest side (bitmap_of side b2) (best side b2))
          else Some b2
        }
        else Some b1);
     Some (Some p, h1, index_erase oid b4)
   }"
  unfolding cancelOrder_def Let_def
  by (auto simp: assms intro!: Option.bind_cong split: prod.splits)

section \<open>The queues a book represents\<close>

type_synonym queues = "Side \<Rightarrow> nat \<Rightarrow> ptr list"

definition live :: "queues \<Rightarrow> ptr set" where
  "live Q = {p. \<exists>s i. p \<in> set (Q s i)}"

definition levels_in :: "queues \<Rightarrow> Side \<Rightarrow> nat set" where
  "levels_in Q s = {i. Q s i \<noteq> []}"

definition set_queue :: "Side \<Rightarrow> nat \<Rightarrow> ptr list \<Rightarrow> queues \<Rightarrow> queues" where
  "set_queue s i xs Q = Q(s := (Q s)(i := xs))"

text \<open>The best of a set of prices, with 0 for none as the code has it.\<close>

fun best_in :: "Side \<Rightarrow> nat set \<Rightarrow> Price" where
  "best_in Buy S = (if S = {} then 0 else int (Max S))"
| "best_in Sell S = (if S = {} then 0 else int (Min S))"

definition book_inv :: "queues \<Rightarrow> heap \<Rightarrow> ArrayOrderBook \<Rightarrow> bool" where
  "book_inv Q h b \<longleftrightarrow>
     (\<forall>s i. lvl_rep h (level_at (s, i) b) (Q s i)) \<and>
     (\<forall>s i. Q s i \<noteq> [] \<longrightarrow> 0 < i \<and> i < MaxPriceLevels) \<and>
     (\<forall>s i. \<forall>p \<in> set (Q s i).
        ord_side (h p) = s \<and> ord_price (h p) = int i \<and> ord_level (h p) = Some (s, i)) \<and>
     (\<forall>s i. active (bitmap_of s b) i \<longleftrightarrow> Q s i \<noteq> []) \<and>
     (\<forall>s i. Q s i \<noteq> [] \<longrightarrow> lvl_price (level_at (s, i) b) = int i) \<and>
     (\<forall>s. best s b = best_in s (levels_in Q s)) \<and>
     hm_inv unat DefaultOrderCapacity (order_index b) \<and>
     indexes (index_find b) (live Q) (\<lambda>p. ord_id (h p))"

text \<open>Every level's cached total is the sum, modulo \<open>2\<^sup>3\<^sup>2\<close>, of the queued quantities.\<close>

definition totals_ok :: "queues \<Rightarrow> heap \<Rightarrow> ArrayOrderBook \<Rightarrow> bool" where
  "totals_ok Q h b \<longleftrightarrow> (\<forall>s i. lvl_total (level_at (s, i) b) = queue_total h (Q s i))"

lemma book_invD:
  assumes "book_inv Q h b"
  shows inv_rep: "lvl_rep h (level_at (s, i) b) (Q s i)"
    and inv_range: "Q s i \<noteq> [] \<Longrightarrow> 0 < i \<and> i < MaxPriceLevels"
    and inv_own: "p \<in> set (Q s i) \<Longrightarrow>
          ord_side (h p) = s \<and> ord_price (h p) = int i \<and> ord_level (h p) = Some (s, i)"
    and inv_bits: "active (bitmap_of s b) i \<longleftrightarrow> Q s i \<noteq> []"
    and inv_price: "Q s i \<noteq> [] \<Longrightarrow> lvl_price (level_at (s, i) b) = int i"
    and inv_best: "best s b = best_in s (levels_in Q s)"
    and inv_hm: "hm_inv unat DefaultOrderCapacity (order_index b)"
    and inv_index: "indexes (index_find b) (live Q) (\<lambda>p. ord_id (h p))"
  using assms unfolding book_inv_def by blast+

lemma liveI: "q \<in> set (Q s i) \<Longrightarrow> q \<in> live Q"
  unfolding live_def by blast

lemma set_queue_simps [simp]:
  "set_queue s i xs Q s' j = (if s' = s \<and> j = i then xs else Q s' j)"
  "levels_in (set_queue s i xs Q) s' =
     (if s' = s then if xs = [] then levels_in Q s - {i} else insert i (levels_in Q s) else levels_in Q s')"
  by (auto simp: set_queue_def levels_in_def)

lemma inv_unique:
  assumes "book_inv Q h b" "p \<in> set (Q s i)" "p \<in> set (Q s' j)"
  shows "s' = s \<and> j = i"
  using inv_own[OF assms(1,2)] inv_own[OF assms(1,3)] by simp

lemma inv_distinct: "book_inv Q h b \<Longrightarrow> distinct (Q s i)"
  using inv_rep[of Q h b s i] by (simp add: lvl_rep_def)

lemma finite_levels_in: "book_inv Q h b \<Longrightarrow> finite (levels_in Q s)"
  using inv_range[of Q h b s] by (auto intro: finite_subset[of _ "{..<MaxPriceLevels}"] simp: levels_in_def)

lemma zero_notin_levels: "book_inv Q h b \<Longrightarrow> 0 \<notin> levels_in Q s"
  using inv_range[of Q h b s] by (auto simp: levels_in_def)

lemma finite_live:
  assumes "book_inv Q h b"
  shows "finite (live Q)"
proof -
  have "live Q = (\<Union>i\<in>levels_in Q Buy. set (Q Buy i)) \<union> (\<Union>i\<in>levels_in Q Sell. set (Q Sell i))"
    (is "_ = ?R")
  proof (intro set_eqI iffI)
    fix p assume "p \<in> live Q"
    then obtain s i where "p \<in> set (Q s i)" by (auto simp: live_def)
    moreover from this have "i \<in> levels_in Q s" by (auto simp: levels_in_def)
    ultimately show "p \<in> ?R" by (cases s) auto
  qed (auto simp: live_def)
  then show ?thesis using finite_levels_in[OF assms] by simp
qed

lemma live_set_queue_add: "set xs' = insert p (set (Q s i)) \<Longrightarrow> live (set_queue s i xs' Q) = insert p (live Q)"
  unfolding live_def set_queue_simps by (auto split: if_splits)

section \<open>The best price\<close>

lemma best_in_zero:
  assumes "finite S" "0 \<notin> S"
  shows "best_in s S = 0 \<longleftrightarrow> S = {}"
proof (cases "S = {}")
  case False
  with Max_in[OF assms(1)] Min_in[OF assms(1)] assms(2) have "Max S \<noteq> 0" "Min S \<noteq> 0" by metis+
  with False show ?thesis by (cases s) (simp_all del: Max_eq_iff Min_eq_iff)
qed (cases s; simp)

lemma best_in_insert:
  assumes "finite S" "0 \<notin> S"
  shows "best_in s (insert i S) =
    (if best_in s S = 0 \<or> better s (int i) (best_in s S) then int i else best_in s S)"
proof (cases "S = {}")
  case False
  then have nz: "best_in s S \<noteq> 0" using best_in_zero[OF assms] by simp
  define m where "m = (if s = Buy then Max S else Min S)"
  have m: "best_in s S = int m" using False by (cases s) (simp_all add: m_def)
  have "best_in s (insert i S) = int (if s = Buy then max i m else min i m)"
    using Max_insert[OF assms(1) False, of i] Min_insert[OF assms(1) False, of i]
    by (cases s) (simp_all only: m_def best_in.simps insert_not_empty simp_thms if_True if_False Side.distinct)
  with m nz show ?thesis by (cases s) auto
qed (cases s; simp)

lemma best_in_remove:
  assumes "finite S" "i \<in> S" "int i \<noteq> best_in s S"
  shows "best_in s (S - {i}) = best_in s S"
proof -
  from assms(2) have "S \<noteq> {}" by auto
  then have "best_in s S = int (if s = Buy then Max S else Min S)" by (cases s) auto
  with assms(3) have ne: "(if s = Buy then Max S else Min S) \<in> S - {i}" (is "?m \<in> _")
    using Max_in[OF assms(1) \<open>S \<noteq> {}\<close>] Min_in[OF assms(1) \<open>S \<noteq> {}\<close>] by auto
  show ?thesis
  proof (cases s)
    case Buy
    with ne have "Max (S - {i}) = Max S" using assms(1) by (intro Max_eqI) auto
    with ne Buy show ?thesis by auto
  next
    case Sell
    with ne have "Min (S - {i}) = Min S" using assms(1) by (intro Min_eqI) auto
    with ne Sell show ?thesis by auto
  qed
qed

lemma refreshBest_removed:
  assumes fin: "finite S" and i: "i \<in> S" "int i = best_in s S" "0 < i" and S: "S \<subseteq> {..<MaxPriceLevels}"
    and act: "\<And>j. active bm j \<longleftrightarrow> j \<in> S - {i}"
  shows "refreshBest s bm (int i) = Some (best_in s (S - {i}))"
proof -
  have "i < MaxPriceLevels" using i S by auto
  have ne: "S \<noteq> {}" using i by auto
  show ?thesis
  proof (cases s)
    case Buy
    have le: "j < i" if "j \<in> S - {i}" for j
      using that i(2) Buy ne fin by (auto simp: less_le)
    then have eq: "{j. j < i \<and> active bm j} = S - {i}"
      and ex: "(\<exists>j<i. active bm j) \<longleftrightarrow> S - {i} \<noteq> {}" by (auto simp: act)
    have "top_below bm i = best_in s (S - {i})" unfolding top_below_def eq ex Buy best_in.simps by simp
    then show ?thesis
      using refreshBestBid_eq[OF \<open>0 < i\<close> \<open>i < MaxPriceLevels\<close>, of bm] by (simp add: Buy)
  next
    case Sell
    have ge: "Suc i \<le> j" if "j \<in> S - {i}" for j
      using that i(2) Sell ne fin by (auto simp: Suc_le_eq less_le)
    have lt: "j < 64 * BitmapWordCount" if "j \<in> S - {i}" for j
      using that S by (auto simp: BitmapWordCount_eq MaxPriceLevels_def dest!: subsetD)
    have eq: "{j. Suc i \<le> j \<and> j < 64 * BitmapWordCount \<and> active bm j} = S - {i}"
      using ge lt unfolding act by blast
    have ex: "(\<exists>j<64 * BitmapWordCount. Suc i \<le> j \<and> active bm j) \<longleftrightarrow> S - {i} \<noteq> {}"
      using ge lt unfolding act by blast
    have "low_from bm (Suc i) = best_in s (S - {i})" unfolding low_from_def eq ex Sell best_in.simps by simp
    then show ?thesis
      using refreshBestAsk_eq[OF \<open>0 < i\<close> \<open>i < MaxPriceLevels\<close>, of bm] by (simp add: Sell)
  qed
qed

section \<open>addOrder\<close>

text \<open>The part of \<^verbatim>\<open>addOrder\<close> before \<^verbatim>\<open>push_back\<close>: opening an empty level.\<close>

definition open_level :: "Side \<Rightarrow> nat \<Rightarrow> ArrayOrderBook \<Rightarrow> ArrayOrderBook option" where
  "open_level s i b =
     (if lvl_empty (level_at (s, i) b)
      then map_option (\<lambda>bm. set_bitmap s bm (set_level (s, i) ((level_at (s, i) b)\<lparr>lvl_price := int i\<rparr>) b))
             (setLevelActive (bitmap_of s b) (int i))
      else Some b)"

lemma open_level_ok:
  assumes inv: "book_inv Q h b" and i: "i < MaxPriceLevels"
  obtains b1 where "open_level s i b = Some b1"
    "lvl_rep h (level_at (s, i) b1) (Q s i)" "lvl_price (level_at (s, i) b1) = int i"
    "lvl_total (level_at (s, i) b1) = lvl_total (level_at (s, i) b)"
    "\<And>r. r \<noteq> (s, i) \<Longrightarrow> level_at r b1 = level_at r b"
    "\<And>s' j. active (bitmap_of s' b1) j \<longleftrightarrow> s' = s \<and> j = i \<or> active (bitmap_of s' b) j"
    "\<And>s'. best s' b1 = best s' b" "order_index b1 = order_index b"
proof (cases "Q s i = []")
  case True
  obtain bm where bm: "setLevelActive (bitmap_of s b) (int i) = Some bm"
    "\<And>j. active bm j \<longleftrightarrow> j = i \<or> active (bitmap_of s b) j"
    using setLevelActive_ok[OF i] by blast
  let ?b1 = "set_bitmap s bm (set_level (s, i) ((level_at (s, i) b)\<lparr>lvl_price := int i\<rparr>) b)"
  have "lvl_rep h ((level_at (s, i) b)\<lparr>lvl_price := int i\<rparr>) (Q s i)"
    using inv_rep[OF inv, of s i] by (simp add: lvl_rep_def)
  moreover have "open_level s i b = Some ?b1"
    using True lvl_rep_empty[OF inv_rep[OF inv, of s i]] by (simp add: open_level_def bm(1))
  ultimately show ?thesis using bm(2) by (intro that[of ?b1]) auto
next
  case False
  then have "open_level s i b = Some b"
    using lvl_rep_empty[OF inv_rep[OF inv, of s i]] by (simp add: open_level_def)
  then show ?thesis
    using False inv_rep[OF inv, of s i] inv_price[OF inv False] inv_bits[OF inv]
    by (intro that[of b]) auto
qed

lemma addOrder_open_level:
  assumes "ord_side (h p) = s" "ord_price (h p) = int i" "i < MaxPriceLevels" "open_level s i b = Some b1"
    "lvl_push_back (s, i) p (h, level_at (s, i) b1) = (h1, l)" "ord_id (h1 p) = oid"
  shows "addOrder p (h, b) = Some (h1, index_insert oid p
    (if best s b1 = 0 \<or> better s (int i) (best s b1)
     then set_best s (int i) (set_level (s, i) l b1) else set_level (s, i) l b1))"
  using assms unfolding addOrder_by_side open_level_def getLevel_def
  by (auto simp: Let_def split: if_splits)

lemma index_insert_ok:
  assumes inv: "hm_inv unat DefaultOrderCapacity (order_index b)"
    and idx: "indexes (index_find b) L key" and card: "card L < DefaultOrderCapacity"
    and fresh: "key' p = k" "\<And>q. q \<in> L \<Longrightarrow> key' q = key q" "\<And>q. q \<in> L \<Longrightarrow> key q \<noteq> k"
  shows "hm_inv unat DefaultOrderCapacity (order_index (index_insert k p b))"
    "indexes (index_find (index_insert k p b)) (insert p L) key'"
  using hm.put_indexes[OF inv idx[unfolded index_find_def] card fresh]
  by (simp_all add: index_insert_def index_find_def)

lemma addOrder_ok:
  assumes inv: "book_inv Q h b" and p: "p \<notin> live Q"
    and s: "ord_side (h p) = s" and price: "ord_price (h p) = int i"
    and i: "0 < i" "i < MaxPriceLevels"
    and fresh: "\<And>q. q \<in> live Q \<Longrightarrow> ord_id (h q) \<noteq> ord_id (h p)"
    and room: "card (live Q) < DefaultOrderCapacity"
  obtains h' b' where "addOrder p (h, b) = Some (h', b')"
    "book_inv (set_queue s i (Q s i @ [p]) Q) h' b'"
    "\<And>q. payload (h' q) = payload (h q)"
    "\<And>q. q \<notin> insert p (set (Q s i)) \<Longrightarrow> h' q = h q"
    "totals_ok Q h b \<Longrightarrow> totals_ok (set_queue s i (Q s i @ [p]) Q) h' b'"
proof -
  obtain b1 where b1: "open_level s i b = Some b1"
    "lvl_rep h (level_at (s, i) b1) (Q s i)" "lvl_price (level_at (s, i) b1) = int i"
    "lvl_total (level_at (s, i) b1) = lvl_total (level_at (s, i) b)"
    "\<And>r. r \<noteq> (s, i) \<Longrightarrow> level_at r b1 = level_at r b"
    "\<And>s' j. active (bitmap_of s' b1) j \<longleftrightarrow> s' = s \<and> j = i \<or> active (bitmap_of s' b) j"
    "\<And>s'. best s' b1 = best s' b" "order_index b1 = order_index b"
    using open_level_ok[OF inv i(2)] by metis
  obtain h1 l where push: "lvl_push_back (s, i) p (h, level_at (s, i) b1) = (h1, l)" by force
  have pQ: "p \<notin> set (Q s' j)" for s' j using p by (auto simp: live_def)
  note pb = push_back_queue[OF b1(2) pQ push]
  have id: "ord_id (h1 q) = ord_id (h q)" for q using payload_eqD(1)[OF pb(2)] .
  define b2 where "b2 = (if best s b1 = 0 \<or> better s (int i) (best s b1)
     then set_best s (int i) (set_level (s, i) l b1) else set_level (s, i) l b1)"
  define b' where "b' = index_insert (ord_id (h p)) p b2"
  let ?Q = "set_queue s i (Q s i @ [p]) Q"
  have lv: "level_at r b' = (if r = (s, i) then l else level_at r b)" for r
    using b1(5) by (simp add: b'_def b2_def)
  have other: "h1 q = h q" if "q \<in> set (Q s' j)" "(s', j) \<noteq> (s, i)" for q s' j
    using that inv_unique[OF inv that(1), of s i] pQ[of s' j] by (intro pb(4)) auto
  have rep: "lvl_rep h1 (level_at (s', j) b') (?Q s' j)" for s' j
  proof (cases "(s', j) = (s, i)")
    case False
    then show ?thesis using inv_rep[OF inv, of s' j] other[of _ s' j]
        lvl_rep_cong[of "Q s' j" h1 h "level_at (s', j) b" "level_at (s', j) b"] by (simp add: lv) blast
  qed (use pb(1) in \<open>simp add: lv\<close>)
  have live: "live ?Q = insert p (live Q)" by (rule live_set_queue_add) simp
  have "hm_inv unat DefaultOrderCapacity (order_index b2)" "indexes (index_find b2) (live Q) (\<lambda>q. ord_id (h q))"
    using inv_hm[OF inv] inv_index[OF inv] b1(8) by (simp_all add: b2_def index_find_def)
  from index_insert_ok[OF this room, of "\<lambda>q. ord_id (h1 q)" p "ord_id (h p)"] fresh id
  have index: "hm_inv unat DefaultOrderCapacity (order_index b')"
    "indexes (index_find b') (live ?Q) (\<lambda>q. ord_id (h1 q))"
    unfolding b'_def live by simp_all
  have best: "best s' b' = best_in s' (levels_in ?Q s')" for s'
    using inv_best[OF inv] b1(7) 
        best_in_insert[of "levels_in Q s" s i, OF finite_levels_in[OF inv] zero_notin_levels[OF inv]]
    by (simp add: b'_def b2_def)
  have "book_inv ?Q h1 b'"
    unfolding book_inv_def
  proof (intro conjI allI ballI impI rep best index)
    fix s' j
    show "0 < j" "j < MaxPriceLevels" if "?Q s' j \<noteq> []"
      using that i inv_range[OF inv, of s' j] by (auto split: if_splits)
    show "active (bitmap_of s' b') j = (?Q s' j \<noteq> [])"
      using b1(6)[of s' j] inv_bits[OF inv, of s' j] by (simp add: b'_def b2_def) blast
    show "lvl_price (level_at (s', j) b') = int j" if "?Q s' j \<noteq> []"
      using that b1(3) pb(5) inv_price[OF inv, of s' j] by (auto simp: lv split: if_splits)
    fix q assume q: "q \<in> set (?Q s' j)"
    then show "ord_side (h1 q) = s'" "ord_price (h1 q) = int j" "ord_level (h1 q) = Some (s', j)"
      using s price pb(3)[of q] payload_eqD[OF pb(2)[of q]] inv_own[OF inv, of q s' j]
        pQ[of s' j] inv_own[OF inv, of q s i]
      by (auto split: if_splits)
  qed
  moreover have "totals_ok ?Q h1 b'" if tot: "totals_ok Q h b"
  proof -
    have "queue_total h1 xs = queue_total h xs" for xs
      using payload_eqD(5)[OF pb(2)] by (intro queue_total_cong) simp
    then show ?thesis
      using tot pb(6) b1(4) payload_eqD(5)[OF pb(2)] by (simp add: totals_ok_def lv)
  qed
  moreover have "addOrder p (h, b) = Some (h1, b')"
    using addOrder_open_level[OF s price i(2) b1(1) push id[of p]] by (simp add: b'_def b2_def)
  ultimately show ?thesis using that pb(2,4) by blast
qed

section \<open>cancelOrder\<close>

lemma index_find_iff:
  assumes "book_inv Q h b"
  shows "index_find b k = Some p \<longleftrightarrow> p \<in> live Q \<and> ord_id (h p) = k"
  using inv_index[OF assms] by (simp add: indexes_def)

lemma index_find_None:
  assumes "book_inv Q h b"
  shows "index_find b k = None \<longleftrightarrow> (\<forall>p\<in>live Q. ord_id (h p) \<noteq> k)"
  using index_find_iff[OF assms, of k] by (cases "index_find b k") auto

lemma cancelOrder_absent: "index_find b oid = None \<Longrightarrow> cancelOrder oid (h, b) = Some (None, h, b)"
  by (simp add: cancelOrder_def)

text \<open>The part of \<^verbatim>\<open>cancelOrder\<close> after \<^verbatim>\<open>remove\<close>: closing a level that has become empty.\<close>

definition close_level :: "Side \<Rightarrow> nat \<Rightarrow> PriceLevel \<Rightarrow> ArrayOrderBook \<Rightarrow> ArrayOrderBook option" where
  "close_level s i l b =
     (if lvl_empty l
      then do {
        b2 \<leftarrow> map_option (\<lambda>bm. set_bitmap s bm b) (clearLevelActive (bitmap_of s b) (int i));
        if int i = best s b2
        then map_option (\<lambda>x. set_best s x b2) (refreshBest s (bitmap_of s b2) (best s b2))
        else Some b2
      }
      else Some b)"

lemma close_level_ok:
  assumes inv: "book_inv Q h b" and i: "i \<in> levels_in Q s"
    and l: "lvl_empty l \<longleftrightarrow> xs = []"
    and b1: "bitmap_of s b1 = bitmap_of s b" "\<And>s'. best s' b1 = best s' b"
  obtains b2 where "close_level s i l b1 = Some b2" "\<And>r. level_at r b2 = level_at r b1"
    "\<And>j. active (bitmap_of s b2) j \<longleftrightarrow> set_queue s i xs Q s j \<noteq> []"
    "bitmap_of (opposite s) b2 = bitmap_of (opposite s) b1"
    "\<And>s'. best s' b2 = best_in s' (levels_in (set_queue s i xs Q) s')"
    "order_index b2 = order_index b1"
proof (cases "xs = []")
  case False
  have "insert i (levels_in Q s) = levels_in Q s" using i by auto
  with False have lv: "levels_in (set_queue s i xs Q) s' = levels_in Q s'" for s' by simp
  have ne: "set_queue s i xs Q s j \<noteq> [] \<longleftrightarrow> Q s j \<noteq> []" for j
    using False i by (simp add: levels_in_def)
  have "close_level s i l b1 = Some b1" using False l by (simp add: close_level_def)
  then show ?thesis
    using b1 inv_bits[OF inv] inv_best[OF inv] by (intro that[of b1]) (simp_all only: lv ne)
next
  case True
  have range: "0 < i" "i < MaxPriceLevels" using inv_range[OF inv] i by (auto simp: levels_in_def)
  obtain bm where bm: "clearLevelActive (bitmap_of s b) (int i) = Some bm"
    "\<And>j. active bm j \<longleftrightarrow> j \<noteq> i \<and> active (bitmap_of s b) j"
    using clearLevelActive_ok[OF range(2)] by blast
  have act: "active bm j \<longleftrightarrow> j \<in> levels_in Q s - {i}" for j
    using bm(2) inv_bits[OF inv] by (auto simp: levels_in_def)
  have sub: "levels_in Q s \<subseteq> {..<MaxPriceLevels}" using inv_range[OF inv] by (auto simp: levels_in_def)
  have ne: "opposite s \<noteq> s" by simp
  have act': "active bm j \<longleftrightarrow> set_queue s i xs Q s j \<noteq> []" for j
    using act True by (auto simp: levels_in_def)
  let ?b2 = "set_bitmap s bm b1"
  show ?thesis
  proof (cases "int i = best s b")
    case top: True
    have "refreshBest s bm (int i) = Some (best_in s (levels_in Q s - {i}))"
      using refreshBest_removed[OF finite_levels_in[OF inv] i _ range(1) sub act] top inv_best[OF inv] by simp
    then have "close_level s i l b1 = Some (set_best s (best_in s (levels_in Q s - {i})) ?b2)"
      using True l b1 bm(1) top by (simp add: close_level_def)
    then show ?thesis
      by (intro that[of "set_best s (best_in s (levels_in Q s - {i})) ?b2"])
        (simp_all add: act' ne True b1 inv_best[OF inv] del: set_queue_simps(1))
  next
    case False
    then have "best_in s (levels_in Q s - {i}) = best_in s (levels_in Q s)"
      using best_in_remove[OF finite_levels_in[OF inv] i] inv_best[OF inv] by simp
    moreover have "close_level s i l b1 = Some ?b2"
      using True l b1 bm(1) False by (simp add: close_level_def)
    ultimately show ?thesis
      by (intro that[of ?b2]) (simp_all add: act' ne True b1 inv_best[OF inv] del: set_queue_simps(1))
  qed
qed

lemma cancelOrder_close_level:
  assumes "index_find b oid = Some p" "ord_level (h p) = Some (s, i)"
    "lvl_remove (Some p) (h, level_at (s, i) b) = (h1, l)"
    "ord_side (h1 p) = s" "ord_price (h1 p) = int i"
    "close_level s i l (set_level (s, i) l b) = Some b2"
  shows "cancelOrder oid (h, b) = Some (Some p, h1, index_erase oid b2)"
  unfolding cancelOrder_by_side[OF assms(1)]
  by (simp only: Let_def assms(2-5) Option.bind.simps prod.case assms(6)[unfolded close_level_def])

lemma index_erase_ok:
  assumes inv: "hm_inv unat DefaultOrderCapacity (order_index b)"
    and idx: "indexes (index_find b) L key" and p: "p \<in> L" "key p = k"
    and same: "\<And>q. q \<in> L - {p} \<Longrightarrow> key' q = key q"
  shows "hm_inv unat DefaultOrderCapacity (order_index (index_erase k b))"
    "indexes (index_find (index_erase k b)) (L - {p}) key'"
  using hm.del_indexes[OF inv idx[unfolded index_find_def] p same]
  by (simp_all add: index_erase_def index_find_def)

lemma live_set_queue_remove:
  assumes inv: "book_inv Q h b" and p: "p \<in> set (Q s i)"
  shows "live (set_queue s i (remove1 p (Q s i)) Q) = live Q - {p}"
proof -
  have set: "set (set_queue s i (remove1 p (Q s i)) Q s' j) = set (Q s' j) - {p}" for s' j
  proof (cases "s' = s \<and> j = i")
    case False
    then have "p \<notin> set (Q s' j)" using inv_unique[OF inv p, of s' j] by blast
    with False show ?thesis by auto
  qed (simp add: set_remove1_eq[OF inv_distinct[OF inv]])
  show ?thesis unfolding live_def set by blast
qed

lemma cancelOrder_ok:
  assumes inv: "book_inv Q h b" and p: "p \<in> set (Q s i)" and oid: "ord_id (h p) = oid"
  obtains h' b' where "cancelOrder oid (h, b) = Some (Some p, h', b')"
    "book_inv (set_queue s i (remove1 p (Q s i)) Q) h' b'"
    "\<And>q. payload (h' q) = payload (h q)"
    "\<And>q. q \<notin> set (Q s i) \<Longrightarrow> h' q = h q"
    "totals_ok Q h b \<Longrightarrow> totals_ok (set_queue s i (remove1 p (Q s i)) Q) h' b'"
    "live (set_queue s i (remove1 p (Q s i)) Q) = live Q - {p}"
proof -
  have pl: "p \<in> live Q" using p by (auto simp: live_def)
  have find: "index_find b oid = Some p" using index_find_iff[OF inv] pl oid by simp
  obtain h1 l where rem: "lvl_remove (Some p) (h, level_at (s, i) b) = (h1, l)" by force
  obtain ys zs where split: "Q s i = ys @ p # zs" "remove1 p (Q s i) = ys @ zs"
    "p \<notin> set ys" "p \<notin> set zs"
    using distinct_remove1_split[OF inv_distinct[OF inv] p] by blast
  note rs = remove_split[OF inv_rep[OF inv, of s i, unfolded split(1)] rem]
  let ?Q = "set_queue s i (remove1 p (Q s i)) Q"
  have own: "ord_side (h1 p) = s" "ord_price (h1 p) = int i" "ord_level (h p) = Some (s, i)"
    using inv_own[OF inv p] payload_eqD[OF rs(2)[of p]] by simp_all
  have "i \<in> levels_in Q s" using p by (auto simp: levels_in_def)
  moreover have "lvl_empty l \<longleftrightarrow> remove1 p (Q s i) = []" unfolding split(2) by (rule lvl_rep_empty[OF rs(1)])
  ultimately obtain b2 where b2: "close_level s i l (set_level (s, i) l b) = Some b2"
    "\<And>r. level_at r b2 = level_at r (set_level (s, i) l b)"
    "\<And>j. active (bitmap_of s b2) j \<longleftrightarrow> ?Q s j \<noteq> []"
    "bitmap_of (opposite s) b2 = bitmap_of (opposite s) (set_level (s, i) l b)"
    "\<And>s'. best s' b2 = best_in s' (levels_in ?Q s')"
    "order_index b2 = order_index (set_level (s, i) l b)"
    using close_level_ok[OF inv, of i s l "remove1 p (Q s i)" "set_level (s, i) l b"]
    by (metis bitmap_of_simps(1) best_simps(1))
  define b' where "b' = index_erase oid b2"
  have lv: "level_at r b' = (if r = (s, i) then l else level_at r b)" for r
    using b2(2) by (simp add: b'_def)
  have other: "h1 q = h q" if "q \<in> set (Q s' j)" "(s', j) \<noteq> (s, i)" for q s' j
    using that inv_unique[OF inv that(1), of s i] by (intro rs(4)) (auto simp: split(1)[symmetric])
  have rep: "lvl_rep h1 (level_at (s', j) b') (?Q s' j)" for s' j
  proof (cases "(s', j) = (s, i)")
    case False
    then show ?thesis using inv_rep[OF inv, of s' j] other[of _ s' j]
        lvl_rep_cong[of "Q s' j" h1 h "level_at (s', j) b" "level_at (s', j) b"] by (simp add: lv) blast
  qed (use rs(1) split(2) in \<open>simp add: lv\<close>)
  have live: "live ?Q = live Q - {p}"
    by (rule live_set_queue_remove[OF inv p])
  have "hm_inv unat DefaultOrderCapacity (order_index b2)" "indexes (index_find b2) (live Q) (\<lambda>q. ord_id (h q))"
    using inv_hm[OF inv] inv_index[OF inv] b2(6) by (simp_all add: index_find_def)
  from index_erase_ok[OF this pl oid, of "\<lambda>q. ord_id (h1 q)"] payload_eqD(1)[OF rs(2)]
  have index: "hm_inv unat DefaultOrderCapacity (order_index b')"
    "indexes (index_find b') (live ?Q) (\<lambda>q. ord_id (h1 q))"
    unfolding b'_def live by simp_all
  have bits: "active (bitmap_of s' b') j \<longleftrightarrow> ?Q s' j \<noteq> []" for s' j
  proof (cases "s' = s")
    case False
    then have "s' = opposite s" by (cases s; cases s') auto
    then show ?thesis using b2(4) inv_bits[OF inv, of s' j] by (simp add: b'_def)
  qed (use b2(3)[of j] in \<open>simp add: b'_def\<close>)
  have "book_inv ?Q h1 b'"
    unfolding book_inv_def
  proof (intro conjI allI ballI impI rep index bits)
    fix s' j
    show "best s' b' = best_in s' (levels_in ?Q s')" using b2(5) by (simp add: b'_def)
    have ne: "Q s' j \<noteq> []" if "?Q s' j \<noteq> []" using that p by (auto split: if_splits)
    then show "0 < j" "j < MaxPriceLevels" if "?Q s' j \<noteq> []"
      using that inv_range[OF inv, of s' j] by auto
    show "lvl_price (level_at (s', j) b') = int j" if "?Q s' j \<noteq> []"
      using ne[OF that] rs(5) inv_price[OF inv, of s' j] by (auto simp: lv)
    fix q assume q: "q \<in> set (?Q s' j)"
    then have "q \<in> live ?Q" unfolding live_def by blast
    with live have "q \<noteq> p" by simp
    moreover from q have "q \<in> set (Q s' j)" using split by (auto split: if_splits)
    ultimately show "ord_side (h1 q) = s'" "ord_price (h1 q) = int j" "ord_level (h1 q) = Some (s', j)"
      using rs(3)[of q] payload_eqD[OF rs(2)[of q]] inv_own[OF inv, of q s' j] by auto
  qed
  moreover have "totals_ok ?Q h1 b'" if tot: "totals_ok Q h b"
  proof -
    have "queue_total h1 xs = queue_total h xs" for xs
      using payload_eqD(5)[OF rs(2)] by (intro queue_total_cong) simp
    moreover have "lvl_total (level_at (s, i) b) = queue_total h (Q s i)"
      using tot unfolding totals_ok_def by blast
    ultimately show ?thesis
      using tot rs(6) split(1,3) unfolding totals_ok_def by (simp add: lv remove1_append)
  qed
  moreover have "cancelOrder oid (h, b) = Some (Some p, h1, b')"
    unfolding b'_def by (rule cancelOrder_close_level[OF find own(3) rem own(1,2) b2(1)])
  moreover have "\<And>q. q \<notin> set (Q s i) \<Longrightarrow> h1 q = h q" using rs(4) split(1) by simp
  ultimately show ?thesis using that rs(2) live by blast
qed

section \<open>reduceOrder and replaceOrder\<close>

abbreviation enq :: "Side \<Rightarrow> nat \<Rightarrow> ptr \<Rightarrow> queues \<Rightarrow> queues" where
  "enq s i p Q \<equiv> set_queue s i (Q s i @ [p]) Q"

abbreviation deq :: "Side \<Rightarrow> nat \<Rightarrow> ptr \<Rightarrow> queues \<Rightarrow> queues" where
  "deq s i p Q \<equiv> set_queue s i (remove1 p (Q s i)) Q"

text \<open>The invariant reads neither quantities nor accounts, nor any order outside the book.\<close>

lemma book_inv_heap_cong:
  assumes "book_inv Q h b"
    and "\<And>q. q \<in> live Q \<Longrightarrow> ord_id (h' q) = ord_id (h q) \<and> ord_side (h' q) = ord_side (h q) \<and>
      ord_price (h' q) = ord_price (h q) \<and> ord_level (h' q) = ord_level (h q) \<and>
      ord_prev (h' q) = ord_prev (h q) \<and> ord_next (h' q) = ord_next (h q)"
  shows "book_inv Q h' b"
proof -
  have in_live: "q \<in> live Q" if "q \<in> set (Q s i)" for q s i using that by (auto simp: live_def)
  have "lvl_rep h' (level_at (s, i) b) (Q s i)" for s i
    using inv_rep[OF assms(1), of s i] seg_cong[of "Q s i" h' h] assms(2)[OF in_live]
    unfolding lvl_rep_def by simp
  moreover have "indexes (index_find b) (live Q) (\<lambda>p. ord_id (h' p))"
    using inv_index[OF assms(1)] assms(2) unfolding indexes_def by metis
  ultimately show ?thesis
    using assms(1) assms(2)[OF in_live] unfolding book_inv_def by simp
qed

lemma book_inv_quantity:
  "book_inv Q h b \<Longrightarrow> book_inv Q (h(p := (h p)\<lparr>ord_quantity := c\<rparr>)) b"
  by (erule book_inv_heap_cong) auto

lemma reduceOrder_absent: "index_find b oid = None \<Longrightarrow> reduceOrder oid c (h, b) = Some (no_update, h, b)"
  by (simp add: reduceOrder_def)

lemma reduceOrder_rejected:
  assumes "index_find b oid = Some p" "c = 0 \<or> c > ord_quantity (h p)"
  shows "reduceOrder oid c (h, b) = Some (no_update, h, b)"
  using assms by (auto simp: reduceOrder_def)

lemma reduceOrder_partial:
  assumes "index_find b oid = Some p" "0 < c" "c < ord_quantity (h p)"
  shows "reduceOrder oid c (h, b) = Some (no_update\<lparr>upd_success := True\<rparr>,
    h(p := (h p)\<lparr>ord_quantity := ord_quantity (h p) - c\<rparr>), b)"
  using assms by (auto simp: reduceOrder_def)

lemma reduceOrder_full:
  assumes "index_find b oid = Some p" "c \<noteq> 0" "c = ord_quantity (h p)"
    "cancelOrder oid (h, b) = Some (Some p, h', b')"
  shows "reduceOrder oid c (h, b) =
    Some (\<lparr>upd_success = True, upd_removed_order = Some p\<rparr>, h', b')"
  using assms by (simp add: reduceOrder_def)

lemma replaceOrder_refused:
  assumes "newId = 0 \<or> newQty = 0 \<or> newId = oid \<or> index_find b newId \<noteq> None \<or> index_find b oid = None"
  shows "replaceOrder oid newId newQty newPrice (h, b) = Some (False, h, b)"
  using assms by (auto simp: replaceOrder_def)

definition reprice :: "OrderId \<Rightarrow> Quantity \<Rightarrow> Price \<Rightarrow> Order \<Rightarrow> Order" where
  "reprice newId newQty newPrice r = r\<lparr>ord_id := newId, ord_price := newPrice, ord_quantity := newQty\<rparr>"

lemma replaceOrder_ok:
  assumes inv: "book_inv Q h b" and p: "p \<in> set (Q s i)" "ord_id (h p) = oid"
    and new: "newId \<noteq> 0" "newQty \<noteq> 0" "newId \<noteq> oid" "\<forall>q\<in>live Q. ord_id (h q) \<noteq> newId"
    and j: "0 < j" "j < MaxPriceLevels" and room: "card (live Q) \<le> DefaultOrderCapacity"
  obtains h' b' where
    "replaceOrder oid newId newQty (int j) (h, b) = Some (True, h', b')"
    "book_inv (enq s j p (deq s i p Q)) h' b'"
    "\<And>q. payload (h' q) = payload (if q = p then reprice newId newQty (int j) (h q) else h q)"
    "totals_ok Q h b \<Longrightarrow> totals_ok (enq s j p (deq s i p Q)) h' b'"
proof -
  have pl: "p \<in> live Q" using p by (auto simp: live_def)
  obtain h1 b1 where c: "cancelOrder oid (h, b) = Some (Some p, h1, b1)" "book_inv (deq s i p Q) h1 b1"
    "\<And>q. payload (h1 q) = payload (h q)" "totals_ok Q h b \<Longrightarrow> totals_ok (deq s i p Q) h1 b1"
    "live (deq s i p Q) = live Q - {p}"
    using cancelOrder_ok[OF inv p] by metis
  define h2 where "h2 = h1(p := (h1 p)\<lparr>ord_id := newId, ord_account := ord_account (h p),
      ord_side := ord_side (h p), ord_price := int j, ord_quantity := newQty,
      ord_level := None, ord_prev := None, ord_next := None\<rparr>)"
  have same: "h2 q = h1 q" if "q \<in> live (deq s i p Q)" for q using that c(5) by (auto simp: h2_def)
  have inv2: "book_inv (deq s i p Q) h2 b1"
    using same by (intro book_inv_heap_cong[OF c(2)]) simp
  have pay2: "payload (h2 q) = payload (if q = p then reprice newId newQty (int j) (h q) else h q)" for q
    using c(3)[of q] by (auto simp: h2_def payload_def reprice_def)
  have fresh: "ord_id (h2 q) \<noteq> ord_id (h2 p)" if "q \<in> live (deq s i p Q)" for q
    using that new(4) same[OF that] payload_eqD(1)[OF c(3)[of q]] c(5) by (auto simp: h2_def)
  have "card (live (deq s i p Q)) < DefaultOrderCapacity"
    using room pl finite_live[OF inv] card_Diff1_less[of "live Q" p] unfolding c(5) by linarith
  moreover have "p \<notin> live (deq s i p Q)" using c(5) by simp
  moreover have "ord_side (h2 p) = s" "ord_price (h2 p) = int j"
    using inv_own[OF inv p(1)] by (simp_all add: h2_def)
  ultimately obtain h' b' where a: "addOrder p (h2, b1) = Some (h', b')"
    "book_inv (enq s j p (deq s i p Q)) h' b'" "\<And>q. payload (h' q) = payload (h2 q)"
    "totals_ok (deq s i p Q) h2 b1 \<Longrightarrow> totals_ok (enq s j p (deq s i p Q)) h' b'"
    using addOrder_ok[OF inv2 _ _ _ j fresh] by metis
  have "totals_ok (deq s i p Q) h2 b1" if "totals_ok Q h b"
  proof -
    have "queue_total h2 (deq s i p Q s' k) = queue_total h1 (deq s i p Q s' k)" for s' k
      by (rule queue_total_cong, subst same, erule liveI, rule refl)
    then show ?thesis using c(4)[OF that] unfolding totals_ok_def by simp
  qed
  moreover have "replaceOrder oid newId newQty (int j) (h, b) = Some (True, h', b')"
    using new c(1) a(1) index_find_iff[OF inv, of oid p] index_find_None[OF inv, of newId] pl p(2)
    by (simp add: replaceOrder_def h2_def Let_def)
  ultimately show ?thesis using that a pay2 by metis
qed

section \<open>The best levels\<close>

lemma best_in_mem:
  assumes "finite S" "S \<noteq> {}"
  shows "\<exists>i\<in>S. best_in s S = int i \<and> (\<forall>j\<in>S. \<not> better s (int j) (int i))"
  using Max_in[OF assms] Min_in[OF assms] assms
  by (cases s) (auto intro: bexI[of _ "Max S"] bexI[of _ "Min S"] simp: not_less)

fun best_ref :: "Side \<Rightarrow> ArrayOrderBook \<Rightarrow> level_ref option option" where
  "best_ref Buy b = bestBid b"
| "best_ref Sell b = bestAsk b"

lemma best_ref_by_side:
  "best_ref s b = (if best s b = 0 then Some None else map_option Some (getLevel s (best s b)))"
  by (cases s) (simp_all add: bestBid_def bestAsk_def)

lemma best_ref_cases:
  assumes inv: "book_inv Q h b"
  obtains (none) "best_ref s b = Some None" "levels_in Q s = {}" "best s b = 0"
  | (level) i where "best_ref s b = Some (Some (s, i))" "Q s i \<noteq> []" "best s b = int i"
      "\<And>j. Q s j \<noteq> [] \<Longrightarrow> \<not> better s (int j) (int i)"
proof (cases "levels_in Q s = {}")
  case True
  then have "best s b = 0" using inv_best[OF inv, of s] by (cases s) auto
  with True show ?thesis using none by (simp add: best_ref_by_side)
next
  case False
  from best_in_mem[OF finite_levels_in[OF inv] False] inv_best[OF inv]
  obtain i where i: "i \<in> levels_in Q s" "best s b = int i"
    "\<forall>j\<in>levels_in Q s. \<not> better s (int j) (int i)" by metis
  then have "0 < i" "i < MaxPriceLevels" using inv_range[OF inv, of s i] by (auto simp: levels_in_def)
  then have "best_ref s b = Some (Some (s, i))" using i(2) by (simp add: best_ref_by_side getLevel_def)
  with i show ?thesis by (intro level[of i]) (auto simp: levels_in_def)
qed

section \<open>Properties\<close>

lemma new_book_inv: "book_inv (\<lambda>_ _. []) h new_book" and new_book_totals: "totals_ok (\<lambda>_ _. []) h new_book"
proof -
  have lv: "level_at (s, i) new_book = new_level" and bm: "bitmap_of s new_book = (\<lambda>_. 0)"
    and bst: "best s new_book = 0" for s i
    by (cases s; simp add: new_book_def)+
  have idx: "order_index new_book = empty_map 0 0" by (simp add: new_book_def)
  have hm: "hm_inv unat DefaultOrderCapacity (order_index new_book)"
    unfolding idx by (rule hm_inv_empty_map) (simp add: DefaultOrderCapacity_def)
  have "hm_find unat DefaultOrderCapacity (empty_map 0 0 :: (OrderId, ptr) hashmap) k = None" for k
    using hm_find_None[OF hm[unfolded idx], of k] by (simp add: empty_map_def occ_def)
  then have "indexes (index_find new_book) (live (\<lambda>_ _. [])) (\<lambda>p. ord_id (h p))"
    by (simp add: indexes_def index_find_def idx live_def)
  moreover have "best_in s (levels_in (\<lambda>_ _. []) s) = 0" for s by (cases s) (simp_all add: levels_in_def)
  ultimately show "book_inv (\<lambda>_ _. []) h new_book"
    using hm by (simp add: book_inv_def lv bm bst lvl_rep_def new_level_def active_def)
  show "totals_ok (\<lambda>_ _. []) h new_book"
    by (simp add: totals_ok_def lv new_level_def)
qed

lemma live_empty [simp]: "live (\<lambda>_ _. []) = {}"
  by (simp add: live_def)

text \<open>A book holding one bid, for the examples.\<close>

lemma demo_book:
  obtains h b where "addOrder 1 (demo_heap, new_book) = Some (h, b)"
    "book_inv (enq Buy 100 1 (\<lambda>_ _. [])) h b" "payload (h 1) = payload (demo_heap 1)"
    "totals_ok (enq Buy 100 1 (\<lambda>_ _. [])) h b"
proof (rule addOrder_ok[OF new_book_inv[of demo_heap], of 1 Buy 100])
  fix h b
  assume "addOrder 1 (demo_heap, new_book) = Some (h, b)" "book_inv (enq Buy 100 1 (\<lambda>_ _. [])) h b"
    "\<And>q. payload (h q) = payload (demo_heap q)"
    "totals_ok (\<lambda>_ _. []) demo_heap new_book \<Longrightarrow> totals_ok (enq Buy 100 1 (\<lambda>_ _. [])) h b"
  then show thesis using that new_book_totals by blast
qed (simp_all add: MaxPriceLevels_def DefaultOrderCapacity_def)

text \<open>C2. \<^verbatim>\<open>ArrayOrderBook::addOrder\<close> refines appending to a queue: for an order not in the
  book with a fresh identifier, a price inside the array and room in the index, it performs
  no access out of range, the book then represents the old queues with the order at the
  back of the queue of its side and price and nothing else changed, and the bitmaps, best
  prices, index and level totals agree with these queues.\<close>

theorem addOrder_refines:
  assumes "book_inv Q h b" "p \<notin> live Q" "ord_side (h p) = s" "ord_price (h p) = int i"
    "0 < i" "i < MaxPriceLevels" "\<forall>q\<in>live Q. ord_id (h q) \<noteq> ord_id (h p)"
    "card (live Q) < DefaultOrderCapacity"
  shows "\<exists>h' b'. addOrder p (h, b) = Some (h', b') \<and>
    book_inv (set_queue s i (Q s i @ [p]) Q) h' b' \<and>
    (\<forall>q. payload (h' q) = payload (h q)) \<and>
    (totals_ok Q h b \<longrightarrow> totals_ok (set_queue s i (Q s i @ [p]) Q) h' b')"
  using addOrder_ok[OF assms(1-6)] assms(7,8) by metis

theorem addOrder_refines_witness:
  "\<exists>h' b'. addOrder 1 (demo_heap, new_book) = Some (h', b') \<and>
     book_inv (set_queue Buy 100 [1] (\<lambda>_ _. [])) h' b'"
  using addOrder_refines[OF new_book_inv[of demo_heap], of 1 Buy 100]
  by (auto simp: MaxPriceLevels_def DefaultOrderCapacity_def)

text \<open>C3. \<^verbatim>\<open>ArrayOrderBook::cancelOrder\<close> refines removal: an identifier not in the book
  returns null and changes nothing; an identifier in the book returns its order, which then
  is in no queue, every other queue position is kept, and best prices, bitmaps, index and
  totals are those of the remaining queues.\<close>

theorem cancelOrder_refines:
  assumes "book_inv Q h b"
  shows "((\<forall>p\<in>live Q. ord_id (h p) \<noteq> oid) \<longrightarrow> cancelOrder oid (h, b) = Some (None, h, b)) \<and>
    (\<forall>s i. \<forall>p\<in>set (Q s i). ord_id (h p) = oid \<longrightarrow>
       (\<exists>h' b'. cancelOrder oid (h, b) = Some (Some p, h', b') \<and>
          book_inv (set_queue s i (remove1 p (Q s i)) Q) h' b' \<and>
          live (set_queue s i (remove1 p (Q s i)) Q) = live Q - {p} \<and>
          (\<forall>q. payload (h' q) = payload (h q)) \<and>
          (totals_ok Q h b \<longrightarrow> totals_ok (set_queue s i (remove1 p (Q s i)) Q) h' b')))"
proof (intro conjI impI allI ballI)
  assume "\<forall>p\<in>live Q. ord_id (h p) \<noteq> oid"
  then show "cancelOrder oid (h, b) = Some (None, h, b)"
    using index_find_None[OF assms] cancelOrder_absent by simp
next
  fix s i p assume "p \<in> set (Q s i)" "ord_id (h p) = oid"
  from cancelOrder_ok[OF assms this] show "\<exists>h' b'. cancelOrder oid (h, b) = Some (Some p, h', b') \<and>
      book_inv (set_queue s i (remove1 p (Q s i)) Q) h' b' \<and>
      live (set_queue s i (remove1 p (Q s i)) Q) = live Q - {p} \<and>
      (\<forall>q. payload (h' q) = payload (h q)) \<and>
      (totals_ok Q h b \<longrightarrow> totals_ok (set_queue s i (remove1 p (Q s i)) Q) h' b')"
    by metis
qed

theorem cancelOrder_refines_witness:
  "\<exists>h b h' b'. addOrder 1 (demo_heap, new_book) = Some (h, b) \<and>
     cancelOrder 1 (h, b) = Some (Some 1, h', b') \<and> cancelOrder 9 (h, b) = Some (None, h, b)"
proof -
  obtain h b where hb: "addOrder 1 (demo_heap, new_book) = Some (h, b)"
    "book_inv (enq Buy 100 1 (\<lambda>_ _. [])) h b" "payload (h 1) = payload (demo_heap 1)"
    using demo_book by metis
  have id: "ord_id (h 1) = 1" using payload_eqD(1)[OF hb(3)] by simp
  have "live (enq Buy 100 1 (\<lambda>_ _. [])) = {1}" by (subst live_set_queue_add[of _ 1]) simp_all
  with cancelOrder_refines[OF hb(2), of 9] id have "cancelOrder 9 (h, b) = Some (None, h, b)" by simp
  moreover have "\<exists>h' b'. cancelOrder 1 (h, b) = Some (Some 1, h', b')"
    using cancelOrder_refines[OF hb(2), of 1] id by fastforce
  ultimately show ?thesis using hb(1) by blast
qed

text \<open>\<^verbatim>\<open>reduceOrder\<close>, and \<^verbatim>\<open>executeOrder\<close> which forwards to it, on every branch for an
  order in the book: a zero or excessive quantity is refused without effect; the whole
  quantity removes the order and returns it; a part of it only lowers the order's
  quantity and keeps its place in the queue.\<close>

lemma executeOrder_refines:
  assumes "book_inv Q h b" "p \<in> set (Q s i)" "ord_id (h p) = oid"
  shows "(c = 0 \<or> c > ord_quantity (h p) \<longrightarrow> executeOrder oid c (h, b) = Some (no_update, h, b)) \<and>
    (c \<noteq> 0 \<and> c = ord_quantity (h p) \<longrightarrow>
       (\<exists>h' b'. executeOrder oid c (h, b) =
            Some (\<lparr>upd_success = True, upd_removed_order = Some p\<rparr>, h', b') \<and>
          book_inv (set_queue s i (remove1 p (Q s i)) Q) h' b')) \<and>
    (0 < c \<and> c < ord_quantity (h p) \<longrightarrow>
       (\<exists>h'. executeOrder oid c (h, b) =
            Some (\<lparr>upd_success = True, upd_removed_order = None\<rparr>, h', b) \<and> book_inv Q h' b \<and>
          ord_quantity (h' p) = ord_quantity (h p) - c \<and> (\<forall>q. q \<noteq> p \<longrightarrow> h' q = h q)))"
proof -
  have find: "index_find b oid = Some p"
    using index_find_iff[OF assms(1)] assms(2,3) liveI by metis
  from cancelOrder_ok[OF assms] obtain h' b' where
    c: "cancelOrder oid (h, b) = Some (Some p, h', b')" "book_inv (deq s i p Q) h' b'" by metis
  show ?thesis
    using reduceOrder_rejected[OF find, of c h] reduceOrder_full[OF find _ _ c(1), of c] c(2)
      reduceOrder_partial[OF find, of c h] book_inv_quantity[OF assms(1), of p]
    by (auto simp: executeOrder_def no_update_def)
qed

text \<open>\<^verbatim>\<open>replaceOrder\<close> refuses a zero identifier or quantity, an unchanged identifier, a
  new identifier already in use and an unknown original, without effect; otherwise it
  moves the order to the back of the queue of the new price on the same side, with the new
  identifier, price and quantity and the old account: time priority is lost even when the
  price is unchanged.\<close>

lemma replaceOrder_refines:
  assumes "book_inv Q h b" "card (live Q) \<le> DefaultOrderCapacity" "0 < j" "j < MaxPriceLevels"
  shows "(newId = 0 \<or> newQty = 0 \<or> newId = oid \<or> (\<exists>q\<in>live Q. ord_id (h q) = newId) \<or>
        (\<forall>q\<in>live Q. ord_id (h q) \<noteq> oid) \<longrightarrow>
      replaceOrder oid newId newQty (int j) (h, b) = Some (False, h, b)) \<and>
    (\<forall>s i. \<forall>p\<in>set (Q s i). ord_id (h p) = oid \<and> newId \<noteq> 0 \<and> newQty \<noteq> 0 \<and> newId \<noteq> oid \<and>
        (\<forall>q\<in>live Q. ord_id (h q) \<noteq> newId) \<longrightarrow>
      (\<exists>h' b'. replaceOrder oid newId newQty (int j) (h, b) = Some (True, h', b') \<and>
         book_inv (enq s j p (deq s i p Q)) h' b' \<and>
         ord_id (h' p) = newId \<and> ord_price (h' p) = int j \<and> ord_quantity (h' p) = newQty \<and>
         ord_side (h' p) = ord_side (h p) \<and> ord_account (h' p) = ord_account (h p)))"
proof (intro conjI impI allI ballI)
  assume "newId = 0 \<or> newQty = 0 \<or> newId = oid \<or> (\<exists>q\<in>live Q. ord_id (h q) = newId) \<or>
    (\<forall>q\<in>live Q. ord_id (h q) \<noteq> oid)"
  then show "replaceOrder oid newId newQty (int j) (h, b) = Some (False, h, b)"
    using index_find_None[OF assms(1), of newId] index_find_None[OF assms(1), of oid]
    by (intro replaceOrder_refused) metis
next
  fix s i p assume "p \<in> set (Q s i)" and *: "ord_id (h p) = oid \<and> newId \<noteq> 0 \<and> newQty \<noteq> 0 \<and> newId \<noteq> oid \<and>
    (\<forall>q\<in>live Q. ord_id (h q) \<noteq> newId)"
  then have n: "ord_id (h p) = oid" "newId \<noteq> 0" "newQty \<noteq> 0" "newId \<noteq> oid"
    "\<forall>q\<in>live Q. ord_id (h q) \<noteq> newId" by auto
  obtain h' b' where r: "replaceOrder oid newId newQty (int j) (h, b) = Some (True, h', b')"
    "book_inv (enq s j p (deq s i p Q)) h' b'"
    and pay: "\<And>q. payload (h' q) = payload (if q = p then reprice newId newQty (int j) (h q) else h q)"
    using replaceOrder_ok[OF assms(1) \<open>p \<in> set (Q s i)\<close> n assms(3,4,2)] by blast
  from pay[of p] have rp: "payload (h' p) = payload (reprice newId newQty (int j) (h p))" by simp
  from payload_eqD[OF rp] r
  show "\<exists>h' b'. replaceOrder oid newId newQty (int j) (h, b) = Some (True, h', b') \<and>
      book_inv (enq s j p (deq s i p Q)) h' b' \<and>
      ord_id (h' p) = newId \<and> ord_price (h' p) = int j \<and> ord_quantity (h' p) = newQty \<and>
      ord_side (h' p) = ord_side (h p) \<and> ord_account (h' p) = ord_account (h p)"
    by (intro exI[of _ h'] exI[of _ b']) (simp add: reprice_def)
qed

text \<open>\<^verbatim>\<open>bestBid\<close> and \<^verbatim>\<open>bestAsk\<close> never index outside the arrays: they return null exactly
  when the side is empty, and otherwise the non-empty level of the highest bid or of the
  lowest ask, whose stored price is that price and whose front order is the oldest of it.\<close>

lemma best_levels_correct:
  assumes "book_inv Q h b"
  shows "(bestBid b = Some None \<and> (\<forall>i. Q Buy i = []) \<or>
      (\<exists>i. bestBid b = Some (Some (Buy, i)) \<and> Q Buy i \<noteq> [] \<and> (\<forall>j. Q Buy j \<noteq> [] \<longrightarrow> j \<le> i) \<and>
         lvl_price (level_at (Buy, i) b) = int i \<and> lvl_front (level_at (Buy, i) b) = Some (hd (Q Buy i)))) \<and>
    (bestAsk b = Some None \<and> (\<forall>i. Q Sell i = []) \<or>
      (\<exists>i. bestAsk b = Some (Some (Sell, i)) \<and> Q Sell i \<noteq> [] \<and> (\<forall>j. Q Sell j \<noteq> [] \<longrightarrow> i \<le> j) \<and>
         lvl_price (level_at (Sell, i) b) = int i \<and> lvl_front (level_at (Sell, i) b) = Some (hd (Q Sell i))))"
proof -
  have front: "lvl_front (level_at (s, i) b) = Some (hd (Q s i))" if "Q s i \<noteq> []" for s i
    using inv_rep[OF assms, of s i] that by (cases "Q s i") (simp_all add: lvl_rep_def lvl_front_def)
  have gen: "best_ref s b = Some None \<and> (\<forall>i. Q s i = []) \<or>
      (\<exists>i. best_ref s b = Some (Some (s, i)) \<and> Q s i \<noteq> [] \<and> (\<forall>j. Q s j \<noteq> [] \<longrightarrow> \<not> better s (int j) (int i)) \<and>
         lvl_price (level_at (s, i) b) = int i \<and> lvl_front (level_at (s, i) b) = Some (hd (Q s i)))" for s
  proof (cases rule: best_ref_cases[OF assms, of s, case_names none level])
    case none
    then show ?thesis by (auto simp: levels_in_def)
  next
    case (level i)
    then show ?thesis using front[of s i] inv_price[OF assms, of s i] by blast
  qed
  show ?thesis using gen[of Buy] gen[of Sell] by (simp add: not_less)
qed

text \<open>C32. A partial \<^verbatim>\<open>reduceOrder\<close> leaves the level's \<^verbatim>\<open>total_quantity\<close> as it was: from a book
  whose totals agree with its queues it leads to one whose totals do not, although
  \<^verbatim>\<open>push_back\<close>, \<^verbatim>\<open>remove\<close> and the matching engine all keep them in step.\<close>

theorem reduceOrder_stale_total:
  assumes "book_inv Q h b" "totals_ok Q h b" "p \<in> set (Q s i)" "ord_id (h p) = oid"
    "0 < c" "c < ord_quantity (h p)"
  shows "\<exists>h'. reduceOrder oid c (h, b) = Some (\<lparr>upd_success = True, upd_removed_order = None\<rparr>, h', b) \<and>
    lvl_total (level_at (s, i) b) = queue_total h' (Q s i) + c \<and> \<not> totals_ok Q h' b"
proof -
  let ?h = "h(p := (h p)\<lparr>ord_quantity := ord_quantity (h p) - c\<rparr>)"
  obtain ys zs where Q: "Q s i = ys @ p # zs" "p \<notin> set ys" "p \<notin> set zs"
    using distinct_remove1_split[OF inv_distinct[OF assms(1)] assms(3)] by blast
  have "queue_total ?h ys = queue_total h ys" "queue_total ?h zs = queue_total h zs"
    using Q(2,3) by (auto intro!: queue_total_cong)
  moreover have "lvl_total (level_at (s, i) b) = queue_total h (Q s i)"
    using assms(2) unfolding totals_ok_def by blast
  ultimately have tot: "lvl_total (level_at (s, i) b) = queue_total ?h (Q s i) + c" by (simp add: Q)
  then have "lvl_total (level_at (s, i) b) \<noteq> queue_total ?h (Q s i)" using assms(5) by simp
  then have "\<not> totals_ok Q ?h b" unfolding totals_ok_def by blast
  moreover have "index_find b oid = Some p"
    using index_find_iff[OF assms(1)] assms(3,4) liveI by metis
  ultimately show ?thesis
    using tot reduceOrder_partial[of b oid p c h] assms(5,6) by (auto simp: no_update_def)
qed

theorem reduceOrder_stale_total_witness:
  "\<exists>h b h'. addOrder 1 (demo_heap, new_book) = Some (h, b) \<and>
     reduceOrder 1 3 (h, b) = Some (\<lparr>upd_success = True, upd_removed_order = None\<rparr>, h', b) \<and>
     lvl_total (level_at (Buy, 100) b) = queue_total h' [1] + 3"
proof -
  obtain h b where hb: "addOrder 1 (demo_heap, new_book) = Some (h, b)"
    "book_inv (enq Buy 100 1 (\<lambda>_ _. [])) h b" "payload (h 1) = payload (demo_heap 1)"
    "totals_ok (enq Buy 100 1 (\<lambda>_ _. [])) h b"
    using demo_book by metis
  have "ord_id (h 1) = 1" "ord_quantity (h 1) = 7" using payload_eqD(1,5)[OF hb(3)] by simp_all
  with reduceOrder_stale_total[OF hb(2,4), of 1 Buy 100 1 3] hb(1) show ?thesis by auto
qed

text \<open>\<^verbatim>\<open>addOrder\<close> has no range check: an order priced outside the level array, negative
  prices included, is an access out of bounds.\<close>

lemma addOrder_out_of_range:
  assumes "ord_price (h p) < 0 \<and> - (2 ^ 63) \<le> ord_price (h p) \<or> int MaxPriceLevels \<le> ord_price (h p) \<and> ord_price (h p) < 2 ^ 63"
  shows "addOrder p (h, b) = None"
proof -
  have "\<not> priceToIndex (ord_price (h p)) < MaxPriceLevels"
  proof (cases "ord_price (h p) < 0")
    case True
    have "ord_price (h p) mod 2 ^ 64 = (ord_price (h p) + 2 ^ 64) mod 2 ^ 64"
      by (simp only: mod_add_self2)
    also have "\<dots> = ord_price (h p) + 2 ^ 64"
      using True assms by (intro mod_pos_pos_trivial) auto
    finally have "ord_price (h p) mod 2 ^ 64 = ord_price (h p) + 2 ^ 64" .
    with True assms show ?thesis by (simp add: priceToIndex_def MaxPriceLevels_def)
  next
    case False
    with assms show ?thesis by (auto simp: priceToIndex_def MaxPriceLevels_def)
  qed
  then show ?thesis by (simp add: addOrder_def getLevel_def Let_def)
qed

end
