(* ===== verification/OrderPool.thy ===== *)
theory OrderPool
  imports Prelude
begin

text \<open>
  The fixed pool of preallocated orders (\<^verbatim>\<open>orderbook/software/order_pool.cpp\<close>).
  \<^verbatim>\<open>storage_\<close> is a contiguous range of addresses; the free list is a stack of
  addresses and \<^verbatim>\<open>in_use_\<close> one flag per slot.  The locale \<open>slot_allocator\<close> is the
  contract the matching engine relies on: an address handed out is not handed out
  again before it is released, and a second release of the same address is ignored.
\<close>

section \<open>State and operations\<close>

record pool =
  storage_base :: ptr
  storage_size :: nat
  free_list :: "ptr list"
  in_use :: "u8 list"

definition new_pool :: "ptr \<Rightarrow> nat \<Rightarrow> pool" where
  "new_pool base cap =
     \<lparr>storage_base = base, storage_size = cap,
      free_list = [base ..< base + cap], in_use = replicate cap 0\<rparr>"

definition pool_owns :: "pool \<Rightarrow> ptr option \<Rightarrow> bool" where
  "pool_owns pl order =
     (case order of
        None \<Rightarrow> False
      | Some p \<Rightarrow>
          if storage_size pl = 0 then False
          else \<not> p < storage_base pl \<and> p < storage_base pl + storage_size pl)"

definition pool_acquire :: "pool \<Rightarrow> (ptr option \<times> pool) option" where
  "pool_acquire pl =
     (if free_list pl = [] then Some (None, pl)
      else let p = last (free_list pl);
               index = p - storage_base pl
           in if storage_base pl \<le> p \<and> index < length (in_use pl)
              then Some (Some p, pl\<lparr>free_list := butlast (free_list pl), in_use := (in_use pl)[index := 1]\<rparr>)
              else None)"

definition pool_release :: "ptr option \<Rightarrow> pool \<Rightarrow> pool option" where
  "pool_release order pl =
     (if \<not> pool_owns pl order then Some pl
      else case order of
        None \<Rightarrow> None
      | Some p \<Rightarrow>
          let index = p - storage_base pl
          in if index < length (in_use pl)
             then if in_use pl ! index = 0 then Some pl
                  else Some (pl\<lparr>in_use := (in_use pl)[index := 0], free_list := free_list pl @ [p]\<rparr>)
             else None)"

definition pool_capacity :: "pool \<Rightarrow> nat" where
  "pool_capacity pl = storage_size pl"

definition pool_available :: "pool \<Rightarrow> nat" where
  "pool_available pl = length (free_list pl)"

section \<open>Invariant\<close>

definition slots :: "pool \<Rightarrow> ptr set" where
  "slots pl = {storage_base pl ..< storage_base pl + storage_size pl}"

definition held :: "pool \<Rightarrow> ptr set" where
  "held pl = {p \<in> slots pl. in_use pl ! (p - storage_base pl) \<noteq> 0}"

definition pool_inv :: "pool \<Rightarrow> bool" where
  "pool_inv pl \<longleftrightarrow>
     length (in_use pl) = storage_size pl \<and> distinct (free_list pl) \<and>
     set (free_list pl) = slots pl - held pl"

lemma pool_invD:
  assumes "pool_inv pl"
  shows "length (in_use pl) = storage_size pl" "distinct (free_list pl)"
    "set (free_list pl) = slots pl - held pl"
  using assms by (auto simp: pool_inv_def)

lemma finite_slots [simp]: "finite (slots pl)" and held_sub: "held pl \<subseteq> slots pl"
  by (auto simp: slots_def held_def)

lemma pool_owns_slots: "pool_owns pl order \<longleftrightarrow> (\<exists>p\<in>slots pl. order = Some p)"
  by (auto simp: pool_owns_def slots_def split: option.splits)

lemma new_pool_inv: "pool_inv (new_pool base cap)" and new_pool_held: "held (new_pool base cap) = {}"
  by (auto simp: pool_inv_def new_pool_def slots_def held_def)

lemma slots_update [simp]:
  "slots (pl\<lparr>free_list := f, in_use := u\<rparr>) = slots pl"
  "slots (pl\<lparr>in_use := u, free_list := f\<rparr>) = slots pl"
  by (simp_all add: slots_def)

lemma held_set:
  assumes "length (in_use pl) = storage_size pl" "p \<in> slots pl" "v \<noteq> 0"
  shows "held (pl\<lparr>free_list := f, in_use := (in_use pl)[p - storage_base pl := v]\<rparr>) = insert p (held pl)"
  using assms by (auto simp: held_def slots_def nth_list_update split: if_splits)

lemma held_clear:
  assumes "length (in_use pl) = storage_size pl" "p \<in> slots pl"
  shows "held (pl\<lparr>in_use := (in_use pl)[p - storage_base pl := 0], free_list := f\<rparr>) = held pl - {p}"
  using assms by (auto simp: held_def slots_def nth_list_update split: if_splits)

lemma acquire_cases:
  assumes inv: "pool_inv pl"
  obtains (none) "pool_acquire pl = Some (None, pl)" "held pl = slots pl"
  | (slot) p pl' where "pool_acquire pl = Some (Some p, pl')" "p \<in> slots pl" "p \<notin> held pl"
      "held pl' = insert p (held pl)" "slots pl' = slots pl" "pool_inv pl'"
proof (cases "free_list pl = []")
  case True
  with pool_invD(3)[OF inv] held_sub have "held pl = slots pl" by auto
  with True show ?thesis by (intro none) (simp_all add: pool_acquire_def)
next
  case False
  define p where "p = last (free_list pl)"
  define pl' where "pl' = pl\<lparr>free_list := butlast (free_list pl),
    in_use := (in_use pl)[p - storage_base pl := 1]\<rparr>"
  note I = pool_invD[OF inv]
  have "p \<in> slots pl - held pl" using False I(3) last_in_set p_def by metis
  then have p: "p \<in> slots pl" "p \<notin> held pl" by auto
  have held: "held pl' = insert p (held pl)" unfolding pl'_def by (rule held_set[OF I(1) p(1)]) simp
  have sl: "slots pl' = slots pl" by (simp add: pl'_def)
  have "pool_inv pl'"
    using last_conv_remove[OF False I(2)] I held sl distinct_butlast[OF I(2)]
    by (auto simp: pool_inv_def pl'_def p_def[symmetric])
  moreover have "pool_acquire pl = Some (Some p, pl')"
    using False p(1) I(1) by (auto simp: pool_acquire_def pl'_def p_def slots_def Let_def)
  ultimately show ?thesis using slot p held sl by blast
qed

lemma release_cases:
  assumes inv: "pool_inv pl"
  obtains (ignored) "pool_release order pl = Some pl" "\<forall>p\<in>held pl. order \<noteq> Some p"
  | (freed) p pl' where "order = Some p" "p \<in> held pl" "pool_release order pl = Some pl'"
      "held pl' = held pl - {p}" "slots pl' = slots pl" "pool_inv pl'"
proof (cases "\<exists>p\<in>held pl. order = Some p")
  case False
  then have "pool_release order pl = Some pl"
    using pool_invD(1)[OF inv]
    by (auto simp: pool_release_def pool_owns_slots held_def slots_def Let_def split: option.splits)
  with False show ?thesis using ignored by blast
next
  case True
  then obtain p where p: "order = Some p" "p \<in> held pl" by blast
  note I = pool_invD[OF inv]
  have "p \<in> slots pl" using p(2) held_sub by blast
  define pl' where "pl' = pl\<lparr>in_use := (in_use pl)[p - storage_base pl := 0],
    free_list := free_list pl @ [p]\<rparr>"
  have held: "held pl' = held pl - {p}" unfolding pl'_def by (rule held_clear[OF I(1) \<open>p \<in> slots pl\<close>])
  have "pool_inv pl'" using I p \<open>p \<in> slots pl\<close> held by (auto simp: pool_inv_def pl'_def)
  moreover have "pool_release order pl = Some pl'"
    using p \<open>p \<in> slots pl\<close> I(1)
    by (auto simp: pool_release_def pool_owns_slots pl'_def held_def slots_def Let_def)
  ultimately show ?thesis using freed p held by (simp add: pl'_def)
qed

section \<open>The contract\<close>

locale slot_allocator =
  fixes alloc :: "'s \<Rightarrow> ('a option \<times> 's) option"
    and free :: "'a option \<Rightarrow> 's \<Rightarrow> 's option"
    and busy :: "'s \<Rightarrow> 'a set"
    and space :: "'s \<Rightarrow> 'a set"
    and invar :: "'s \<Rightarrow> bool"
  assumes busy_space: "invar s \<Longrightarrow> finite (space s) \<and> busy s \<subseteq> space s"
    and alloc_law: "invar s \<Longrightarrow> \<exists>r s'. alloc s = Some (r, s') \<and> invar s' \<and> space s' = space s \<and>
      (case r of None \<Rightarrow> s' = s \<and> busy s = space s
       | Some a \<Rightarrow> a \<in> space s - busy s \<and> busy s' = insert a (busy s))"
    and free_law: "invar s \<Longrightarrow> \<exists>s'. free r s = Some s' \<and> invar s' \<and> space s' = space s \<and>
      busy s' = busy s - set_option r"
begin

lemma alloc_fresh:
  assumes "invar s" "alloc s = Some (Some a, s')"
  shows "invar s'" "a \<in> space s" "a \<notin> busy s" "busy s' = insert a (busy s)" "space s' = space s"
  using alloc_law[OF assms(1)] assms(2) by auto

lemma alloc_none_iff:
  assumes "invar s"
  shows "alloc s = Some (None, s) \<longleftrightarrow> busy s = space s"
proof -
  from alloc_law[OF assms] obtain r s' where "alloc s = Some (r, s')"
    "case r of None \<Rightarrow> s' = s \<and> busy s = space s
     | Some a \<Rightarrow> a \<in> space s - busy s \<and> busy s' = insert a (busy s)" by blast
  then show ?thesis by (cases r) auto
qed

lemma free_exact:
  assumes "invar s" "a \<in> busy s" "free (Some a) s = Some s'"
  shows "invar s'" "busy s' = busy s - {a}" "space s' = space s"
  using free_law[OF assms(1), of "Some a"] assms(3) by auto

text \<open>A slot is never handed out twice without a release in between.\<close>

lemma alloc_exclusive:
  assumes "invar s" "alloc s = Some (Some a, s1)" "alloc s1 = Some (Some b, s2)"
  shows "a \<noteq> b"
  using alloc_fresh[OF assms(1,2)] alloc_fresh[OF _ assms(3)] by auto

text \<open>Releasing what was just allocated restores the set of busy slots.\<close>

lemma alloc_free:
  assumes "invar s" "alloc s = Some (Some a, s1)" "free (Some a) s1 = Some s2"
  shows "invar s2" "busy s2 = busy s" "space s2 = space s"
  using alloc_fresh[OF assms(1,2)] free_exact[OF _ _ assms(3)] by auto

end

interpretation op: slot_allocator pool_acquire pool_release held slots pool_inv
proof
  fix pl :: pool assume inv: "pool_inv pl"
  show "finite (slots pl) \<and> held pl \<subseteq> slots pl" using held_sub by simp
  show "\<exists>r s'. pool_acquire pl = Some (r, s') \<and> pool_inv s' \<and> slots s' = slots pl \<and>
      (case r of None \<Rightarrow> s' = pl \<and> held pl = slots pl
       | Some a \<Rightarrow> a \<in> slots pl - held pl \<and> held s' = insert a (held pl))"
    using inv by (cases rule: acquire_cases[OF inv, case_names none slot]) auto
  fix r :: "ptr option"
  show "\<exists>s'. pool_release r pl = Some s' \<and> pool_inv s' \<and> slots s' = slots pl \<and>
      held s' = held pl - set_option r"
    using inv by (cases rule: release_cases[OF inv, of r, case_names ignored freed]) auto
qed

section \<open>Properties\<close>

lemma available_count:
  assumes "pool_inv pl"
  shows "pool_available pl + card (held pl) = pool_capacity pl"
proof -
  have "length (free_list pl) = card (slots pl - held pl)"
    using pool_invD[OF assms] distinct_card by metis
  also have "\<dots> = card (slots pl) - card (held pl)"
    by (rule card_Diff_subset) (use held_sub finite_slots finite_subset in blast)+
  finally show ?thesis
    using card_mono[OF finite_slots held_sub, of pl]
    by (simp add: pool_available_def pool_capacity_def slots_def)
qed

text \<open>\<^verbatim>\<open>OrderPool::acquire\<close> never indexes outside \<^verbatim>\<open>in_use_\<close>, hands out a slot of the pool
  that nobody holds, and returns null exactly when every slot is held; the number of
  available slots is always the capacity minus the number held.\<close>

lemma pool_acquire_correct:
  assumes "pool_inv pl"
  shows "\<exists>r pl'. pool_acquire pl = Some (r, pl') \<and> pool_inv pl' \<and>
    (r = None \<longleftrightarrow> held pl = slots pl) \<and>
    (\<forall>p. r = Some p \<longrightarrow> p \<in> slots pl - held pl \<and> held pl' = insert p (held pl)) \<and>
    pool_available pl' + card (held pl') = pool_capacity pl"
proof (cases rule: acquire_cases[OF assms, case_names none slot])
  case none
  with assms available_count[OF assms] show ?thesis by auto
next
  case (slot p pl')
  have "card (slots pl') = card (slots pl)" using slot(5) by simp
  then have "pool_capacity pl' = pool_capacity pl" by (simp add: slots_def pool_capacity_def)
  with slot available_count[OF slot(6)] show ?thesis by auto
qed

text \<open>\<^verbatim>\<open>OrderPool::release\<close> never indexes outside \<^verbatim>\<open>in_use_\<close>; it returns a held slot to the
  free list exactly once, and ignores null, foreign addresses and slots already free, so a
  double release cannot make the pool hand out one order twice.\<close>

lemma pool_release_correct:
  assumes "pool_inv pl"
  shows "\<exists>pl'. pool_release r pl = Some pl' \<and> pool_inv pl' \<and> held pl' = held pl - set_option r \<and>
    (set_option r \<inter> held pl = {} \<longrightarrow> pl' = pl)"
  using assms by (cases rule: release_cases[OF assms, of r, case_names ignored freed]) auto

end
