(* ===== verification/MatchingEngine.thy ===== *)
theory MatchingEngine
  imports ArrayOrderBook OrderPool
begin

text \<open>
  The matching engine (\<^verbatim>\<open>orderbook/software/matching_engine.cpp\<close>) with the sequencer
  (\<^verbatim>\<open>sequencer/sequencer.cpp\<close>) it draws order identifiers and trade sequence numbers
  from, and the trade record (\<^verbatim>\<open>orderbook/software/trade.hpp\<close>).

  The engine's state holds the order heap, the book, the pool, the sequencer's counter
  and the list of trades handed to \<^verbatim>\<open>dispatcher_.publish\<close>, in order; what the
  dispatcher's listeners make of them is the matter of \<open>TradeListeners\<close>.  The
  matching loop is a \<open>partial_function\<close>, so that not returning would be \<open>None\<close>; the
  lemmas show that it returns.
\<close>

section \<open>Sequencer and trades\<close>

definition seq_next :: "u64 \<Rightarrow> u64 \<times> u64" where
  "seq_next sequence = (let sequence' = sequence + 1 in (sequence', sequence'))"

record Trade =
  tr_sequence :: u64
  tr_buy_order_id :: OrderId
  tr_sell_order_id :: OrderId
  tr_buy_account_id :: AccountId
  tr_sell_account_id :: AccountId
  tr_price :: Price
  tr_quantity :: Quantity

section \<open>The engine\<close>

record engine =
  eng_heap :: heap
  eng_book :: ArrayOrderBook
  eng_pool :: pool
  eng_seq :: u64
  eng_trades :: "Trade list"

definition new_engine :: "heap \<Rightarrow> ptr \<Rightarrow> engine" where
  "new_engine h base = \<lparr>eng_heap = h, eng_book = new_book,
     eng_pool = new_pool base DefaultOrderCapacity, eng_seq = 1000, eng_trades = []\<rparr>"

definition canCross :: "ptr \<Rightarrow> engine \<Rightarrow> bool option" where
  "canCross p e =
     (if ord_side (eng_heap e p) = Buy
      then do {
        best \<leftarrow> bestAsk (eng_book e);
        Some (case best of None \<Rightarrow> False
              | Some r \<Rightarrow> ord_price (eng_heap e p) \<ge> lvl_price (level_at r (eng_book e)))
      }
      else do {
        best \<leftarrow> bestBid (eng_book e);
        Some (case best of None \<Rightarrow> False
              | Some r \<Rightarrow> ord_price (eng_heap e p) \<le> lvl_price (level_at r (eng_book e)))
      })"

definition createTrade :: "Order \<Rightarrow> Order \<Rightarrow> Quantity \<Rightarrow> u64 \<Rightarrow> Trade \<times> u64" where
  "createTrade incoming resting tradedQuantity sequence =
     (let (n, sequence') = seq_next sequence
      in (\<lparr>tr_sequence = n,
           tr_buy_order_id = (if ord_side incoming = Buy then ord_id incoming else ord_id resting),
           tr_sell_order_id = (if ord_side incoming = Buy then ord_id resting else ord_id incoming),
           tr_buy_account_id = (if ord_side incoming = Buy then ord_account incoming else ord_account resting),
           tr_sell_account_id = (if ord_side incoming = Buy then ord_account resting else ord_account incoming),
           tr_price = ord_price resting,
           tr_quantity = tradedQuantity\<rparr>, sequence'))"

definition releaseIfOwned :: "ptr option \<Rightarrow> engine \<Rightarrow> engine option" where
  "releaseIfOwned order e =
     (if order \<noteq> None \<and> pool_owns (eng_pool e) order
      then map_option (\<lambda>pl. e\<lparr>eng_pool := pl\<rparr>) (pool_release order (eng_pool e))
      else Some e)"

definition matchOne :: "ptr \<Rightarrow> engine \<Rightarrow> (bool \<times> engine) option" where
  "matchOne p e = do {
     oppositeLevel \<leftarrow>
       (if ord_side (eng_heap e p) = Buy then bestAsk (eng_book e) else bestBid (eng_book e));
     (case Option.bind oppositeLevel (\<lambda>r. lvl_front (level_at r (eng_book e))) of
        None \<Rightarrow> Some (False, e)
      | Some resting \<Rightarrow> do {
          let h = eng_heap e;
          let tradedQuantity =
            (if ord_quantity (h p) < ord_quantity (h resting)
             then ord_quantity (h p) else ord_quantity (h resting));
          let (trade, sequence) = createTrade (h p) (h resting) tradedQuantity (eng_seq e);
          let e1 = e\<lparr>eng_trades := eng_trades e @ [trade], eng_seq := sequence\<rparr>;
          let h1 = h(p := (h p)\<lparr>ord_quantity := ord_quantity (h p) - tradedQuantity\<rparr>);
          let h2 = h1(resting := (h1 resting)\<lparr>ord_quantity := ord_quantity (h1 resting) - tradedQuantity\<rparr>);
          let b1 =
            (case ord_level (h2 resting) of
               None \<Rightarrow> eng_book e1
             | Some r \<Rightarrow>
                 set_level r ((level_at r (eng_book e1))\<lparr>lvl_total :=
                   lvl_total (level_at r (eng_book e1)) - tradedQuantity\<rparr>) (eng_book e1));
          let e2 = e1\<lparr>eng_heap := h2, eng_book := b1\<rparr>;
          e3 \<leftarrow>
            (if ord_quantity (h2 resting) = 0
             then do {
               (removedOrder, h3, b2) \<leftarrow> cancelOrder (ord_id (h2 resting)) (h2, b1);
               releaseIfOwned removedOrder (e2\<lparr>eng_heap := h3, eng_book := b2\<rparr>)
             }
             else Some e2);
          Some (tradedQuantity > 0, e3)
        })
   }"

partial_function (option) match_loop :: "ptr \<Rightarrow> engine \<Rightarrow> engine option" where
  "match_loop p e =
     (if ord_quantity (eng_heap e p) > 0
      then do {
        cross \<leftarrow> canCross p e;
        if cross
        then do {
          (matched, e1) \<leftarrow> matchOne p e;
          if matched then match_loop p e1 else Some e1
        }
        else Some e
      }
      else Some e)"

definition book_add :: "ptr \<Rightarrow> engine \<Rightarrow> engine option" where
  "book_add p e =
     map_option (\<lambda>(h, b). e\<lparr>eng_heap := h, eng_book := b\<rparr>) (addOrder p (eng_heap e, eng_book e))"

definition executeTrade :: "ptr \<Rightarrow> engine \<Rightarrow> engine option" where
  "executeTrade incoming e = do {
     e1 \<leftarrow> match_loop incoming e;
     if ord_quantity (eng_heap e1 incoming) > 0
     then book_add incoming e1
     else releaseIfOwned (Some incoming) e1
   }"

definition process :: "ptr option \<Rightarrow> engine \<Rightarrow> engine option" where
  "process order e =
     (case order of
        None \<Rightarrow> Some e
      | Some p \<Rightarrow> do {
          cross \<leftarrow> canCross p e;
          if cross then executeTrade p e else book_add p e
        })"

definition prepareOrder ::
  "AccountId \<Rightarrow> Side \<Rightarrow> Price \<Rightarrow> Quantity \<Rightarrow> engine \<Rightarrow> (ptr option \<times> engine) option" where
  "prepareOrder accountId side price quantity e = do {
     (order, pl) \<leftarrow> pool_acquire (eng_pool e);
     (case order of
        None \<Rightarrow> Some (None, e\<lparr>eng_pool := pl\<rparr>)
      | Some p \<Rightarrow>
          let (oid, sequence) = seq_next (eng_seq e)
          in Some (Some p, e\<lparr>eng_pool := pl, eng_seq := sequence,
               eng_heap := (eng_heap e)(p := \<lparr>ord_id = oid, ord_account = accountId, ord_side = side,
                 ord_price = price, ord_quantity = quantity, ord_level = None,
                 ord_prev = None, ord_next = None\<rparr>)\<rparr>))
   }"

definition submitOrder ::
  "AccountId \<Rightarrow> Side \<Rightarrow> Price \<Rightarrow> Quantity \<Rightarrow> engine \<Rightarrow> (OrderId \<times> engine) option" where
  "submitOrder accountId side price quantity e = do {
     (order, e1) \<leftarrow> prepareOrder accountId side price quantity e;
     (case order of
        None \<Rightarrow> Some (0, e1)
      | Some p \<Rightarrow> do {
          let orderId = ord_id (eng_heap e1 p);
          e2 \<leftarrow> process (Some p) e1;
          Some (orderId, e2)
        })
   }"

section \<open>Priority order\<close>

text \<open>The levels of a side, best first, and the orders of a side in price-time priority.\<close>

definition levels_by :: "Side \<Rightarrow> nat set \<Rightarrow> nat list" where
  "levels_by s S = (if s = Buy then rev (sorted_list_of_set S) else sorted_list_of_set S)"

definition plist :: "queues \<Rightarrow> Side \<Rightarrow> ptr list" where
  "plist Q s = concat (map (Q s) (levels_by s (levels_in Q s)))"

lemma sorted_list_of_set_Max:
  assumes "finite S" "S \<noteq> {}"
  shows "sorted_list_of_set S = sorted_list_of_set (S - {Max S}) @ [Max S]"
proof -
  have "sorted (sorted_list_of_set (S - {Max S}) @ [Max S])"
    using assms by (auto simp: sorted_append)
  moreover have "distinct (sorted_list_of_set (S - {Max S}) @ [Max S])" using assms by simp
  moreover have "set (sorted_list_of_set (S - {Max S}) @ [Max S]) = S"
    using assms Max_in[OF assms] by (simp add: insert_absorb)
  ultimately show ?thesis using sorted_list_of_set.idem_if_sorted_distinct by metis
qed

lemma levels_by_best:
  assumes "finite S" "S \<noteq> {}" "best_in s S = int i"
  shows "levels_by s S = i # levels_by s (S - {i})"
proof (cases s)
  case Buy
  with assms have "i = Max S" by auto
  then show ?thesis using sorted_list_of_set_Max[OF assms(1,2)] Buy by (simp add: levels_by_def)
next
  case Sell
  with assms have "i = Min S" by auto
  then show ?thesis using sorted_list_of_set_nonempty[OF assms(1,2)] Sell by (simp add: levels_by_def)
qed

lemma set_levels_by: "finite S \<Longrightarrow> set (levels_by s S) = S"
  by (simp add: levels_by_def)

lemma plist_cong:
  assumes "finite (levels_in Q s)" "\<And>i. Q' s i = Q s i"
  shows "plist Q' s = plist Q s"
proof -
  have "Q' s = Q s" using assms(2) by blast
  then show ?thesis by (simp add: plist_def levels_in_def)
qed

lemma plist_best:
  assumes inv: "book_inv Q h b" and best: "best s b = int i" and q: "Q s i = x # xs"
  shows "plist Q s = x # plist (deq s i x Q) s"
proof -
  have fin: "finite (levels_in Q s)" by (rule finite_levels_in[OF inv])
  have i: "i \<in> levels_in Q s" using q by (simp add: levels_in_def)
  let ?S = "levels_in Q s"
  define Q' where "Q' = deq s i x Q"
  have lv: "levels_by s ?S = i # levels_by s (?S - {i})"
    using i best inv_best[OF inv, of s] by (intro levels_by_best fin) auto
  have rest: "map (Q' s) (levels_by s (?S - {i})) = map (Q s) (levels_by s (?S - {i}))"
    using set_levels_by[of "?S - {i}" s] fin by (intro map_cong) (auto simp: Q'_def)
  have "plist Q s = x # plist Q' s"
  proof (cases "xs = []")
    case True
    then have "levels_in Q' s = ?S - {i}" using q by (simp add: Q'_def)
    with True q show ?thesis
      by (simp only: plist_def lv rest list.map concat.simps append.simps)
  next
    case False
    then have "levels_in Q' s = ?S" using q i by (auto simp: Q'_def insert_absorb)
    moreover have "Q' s i = xs" using q by (simp add: Q'_def)
    ultimately show ?thesis using q
      by (simp only: plist_def lv rest list.map concat.simps append.simps)
  qed
  then show ?thesis by (simp only: Q'_def)
qed

lemma plist_empty: "levels_in Q s = {} \<Longrightarrow> plist Q s = []"
  by (simp add: plist_def levels_by_def)

lemma set_plist: "book_inv Q h b \<Longrightarrow> set (plist Q s) = (\<Union>i. set (Q s i))"
  using set_levels_by[OF finite_levels_in, of Q h b s s] unfolding plist_def levels_in_def by fastforce

lemma distinct_plist:
  assumes inv: "book_inv Q h b"
  shows "distinct (plist Q s)"
proof -
  have fin: "finite (levels_in Q s)" by (rule finite_levels_in[OF inv])
  have sub: "Q s i \<noteq> []" if "i \<in> set (levels_by s (levels_in Q s))" for i
    using that set_levels_by[OF fin] by (auto simp: levels_in_def)
  have disj: "set (Q s i) \<inter> set (Q s j) = {}" if "i \<noteq> j" for i j
    using that inv_unique[OF inv, of _ s i s j] by blast
  have "inj_on (Q s) (set (levels_by s (levels_in Q s)))"
  proof (rule inj_onI)
    fix i j assume "i \<in> set (levels_by s (levels_in Q s))" "Q s i = Q s j"
    with sub[of i] disj[of i j] show "i = j" by auto
  qed
  moreover have "distinct (levels_by s (levels_in Q s))" by (simp add: levels_by_def)
  ultimately have "distinct (map (Q s) (levels_by s (levels_in Q s)))" by (simp add: distinct_map)
  then show ?thesis
    unfolding plist_def
  proof (rule distinct_concat)
    fix ys zs assume "ys \<in> set (map (Q s) (levels_by s (levels_in Q s)))"
      "zs \<in> set (map (Q s) (levels_by s (levels_in Q s)))" "ys \<noteq> zs"
    then obtain i j where "ys = Q s i" "zs = Q s j" "i \<noteq> j" by auto
    with disj show "set ys \<inter> set zs = {}" by blast
  qed (use inv_distinct[OF inv, of s] in auto)
qed

lemma length_plist_le:
  assumes "book_inv Q h b"
  shows "length (plist Q s) \<le> card (live Q)"
proof -
  have "set (plist Q s) \<subseteq> live Q" using set_plist[OF assms] by (auto simp: live_def)
  then have "card (set (plist Q s)) \<le> card (live Q)" by (rule card_mono[OF finite_live[OF assms]])
  then show ?thesis using distinct_card[OF distinct_plist[OF assms]] by simp
qed

section \<open>What matching should do\<close>

text \<open>The specification works on the resting orders of the opposite side in priority
  order, as plain records: fill the incoming quantity from the front while the front
  order crosses.\<close>

record resting =
  rs_id :: OrderId
  rs_account :: AccountId
  rs_price :: Price
  rs_qty :: Quantity

definition view :: "heap \<Rightarrow> ptr \<Rightarrow> resting" where
  "view h p = \<lparr>rs_id = ord_id (h p), rs_account = ord_account (h p), rs_price = ord_price (h p),
     rs_qty = ord_quantity (h p)\<rparr>"

definition crosses :: "Side \<Rightarrow> Price \<Rightarrow> resting \<Rightarrow> bool" where
  "crosses s price r \<longleftrightarrow> (if s = Buy then rs_price r \<le> price else price \<le> rs_price r)"

fun fill :: "(resting \<Rightarrow> bool) \<Rightarrow> resting list \<Rightarrow> Quantity \<Rightarrow>
  (resting \<times> Quantity) list \<times> resting list \<times> Quantity" where
  "fill cr [] q = ([], [], q)"
| "fill cr (r # rs) q =
     (if q = 0 \<or> \<not> cr r then ([], r # rs, q)
      else if q < rs_qty r then ([(r, q)], r\<lparr>rs_qty := rs_qty r - q\<rparr> # rs, 0)
      else let (fs, rs', q') = fill cr rs (q - rs_qty r) in ((r, rs_qty r) # fs, rs', q'))"

definition fill_trade :: "Side \<Rightarrow> OrderId \<Rightarrow> AccountId \<Rightarrow> u64 \<Rightarrow> resting \<times> Quantity \<Rightarrow> Trade" where
  "fill_trade s oid acc n = (\<lambda>(r, q).
     \<lparr>tr_sequence = n,
      tr_buy_order_id = (if s = Buy then oid else rs_id r),
      tr_sell_order_id = (if s = Buy then rs_id r else oid),
      tr_buy_account_id = (if s = Buy then acc else rs_account r),
      tr_sell_account_id = (if s = Buy then rs_account r else acc),
      tr_price = rs_price r, tr_quantity = q\<rparr>)"

fun fill_trades :: "Side \<Rightarrow> OrderId \<Rightarrow> AccountId \<Rightarrow> u64 \<Rightarrow> (resting \<times> Quantity) list \<Rightarrow> Trade list" where
  "fill_trades s oid acc n [] = []"
| "fill_trades s oid acc n (f # fs) = fill_trade s oid acc (n + 1) f # fill_trades s oid acc (n + 1) fs"

section \<open>One match\<close>

text \<open>The state while the order \<open>p\<close> is being matched: it is held but not in the book.\<close>

definition mid :: "ptr \<Rightarrow> queues \<Rightarrow> engine \<Rightarrow> bool" where
  "mid p Q e \<longleftrightarrow>
     book_inv Q (eng_heap e) (eng_book e) \<and> totals_ok Q (eng_heap e) (eng_book e) \<and>
     pool_inv (eng_pool e) \<and> held (eng_pool e) = insert p (live Q) \<and> p \<notin> live Q \<and>
     (\<forall>x\<in>insert p (live Q). ord_id (eng_heap e x) \<le> eng_seq e) \<and>
     (\<forall>x\<in>live Q. ord_id (eng_heap e x) \<noteq> ord_id (eng_heap e p))"

lemma midD:
  assumes "mid p Q e"
  shows "book_inv Q (eng_heap e) (eng_book e)" "totals_ok Q (eng_heap e) (eng_book e)"
    "finite (live Q)"
    "pool_inv (eng_pool e)" "held (eng_pool e) = insert p (live Q)" "p \<notin> live Q"
    "\<And>x. x \<in> insert p (live Q) \<Longrightarrow> ord_id (eng_heap e x) \<le> eng_seq e"
    "\<And>x. x \<in> live Q \<Longrightarrow> ord_id (eng_heap e x) \<noteq> ord_id (eng_heap e p)"
  using assms unfolding mid_def by (blast intro: finite_live)+

definition all_positive :: "queues \<Rightarrow> heap \<Rightarrow> bool" where
  "all_positive Q h \<longleftrightarrow> (\<forall>x\<in>live Q. 0 < ord_quantity (h x))"

lemma plist_front:
  assumes inv: "book_inv Q h b"
  shows "(plist Q s = [] \<longleftrightarrow> best_ref s b = Some None) \<and>
    (\<forall>x xs. plist Q s = x # xs \<longrightarrow>
       (\<exists>i ys. best_ref s b = Some (Some (s, i)) \<and> Q s i = x # ys \<and> xs = plist (deq s i x Q) s))"
proof (cases rule: best_ref_cases[OF inv, of s, case_names none level])
  case none
  then show ?thesis by (simp add: plist_empty)
next
  case (level i)
  then obtain y ys where q: "Q s i = y # ys" by (cases "Q s i") auto
  have "plist Q s = y # plist (deq s i y Q) s" by (rule plist_best[OF inv level(3) q])
  with level(1) q show ?thesis by auto
qed

lemma best_ref_if: "(if s = Buy then bestAsk b else bestBid b) = best_ref (opposite s) b"
  by (cases s) auto

lemma canCross_eq:
  assumes "mid p Q e" "ord_side (eng_heap e p) = s"
  shows "canCross p e = Some (case plist Q (opposite s) of [] \<Rightarrow> False
    | x # _ \<Rightarrow> crosses s (ord_price (eng_heap e p)) (view (eng_heap e) x))"
proof (cases "plist Q (opposite s)")
  case Nil
  then have "best_ref (opposite s) (eng_book e) = Some None"
    using plist_front[OF midD(1)[OF assms(1)], of "opposite s"] by blast
  then show ?thesis using Nil assms(2) by (cases s) (simp_all add: canCross_def)
next
  case (Cons x xs)
  then obtain i ys where i: "best_ref (opposite s) (eng_book e) = Some (Some (opposite s, i))"
    "Q (opposite s) i = x # ys"
    using plist_front[OF midD(1)[OF assms(1)], of "opposite s"] by blast
  have "lvl_price (level_at (opposite s, i) (eng_book e)) = int i"
    using inv_price[OF midD(1)[OF assms(1)], of "opposite s" i] i(2) by simp
  moreover have "ord_price (eng_heap e x) = int i"
    using inv_own[OF midD(1)[OF assms(1)], of x "opposite s" i] i(2) by simp
  ultimately show ?thesis
    using Cons i(1) assms(2) by (cases s) (simp_all add: canCross_def crosses_def view_def)
qed

lemma book_inv_total:
  assumes "book_inv Q h b"
  shows "book_inv Q h (set_level r ((level_at r b)\<lparr>lvl_total := c\<rparr>) b)"
proof -
  let ?b = "set_level r ((level_at r b)\<lparr>lvl_total := c\<rparr>) b"
  have "lvl_rep h (level_at (s, i) ?b) (Q s i)" for s i
    using inv_rep[OF assms, of s i] by (auto simp: lvl_rep_def)
  then show ?thesis
    using assms unfolding book_inv_def by (auto simp: index_find_def)
qed

text \<open>The state after the trade is published and the three quantities lowered.\<close>

definition after_match :: "ptr \<Rightarrow> ptr \<Rightarrow> level_ref \<Rightarrow> Quantity \<Rightarrow> engine \<Rightarrow> engine" where
  "after_match p x r t e =
     (let h = eng_heap e; l = level_at r (eng_book e)
      in e\<lparr>eng_trades := eng_trades e @ [fill_trade (ord_side (h p)) (ord_id (h p)) (ord_account (h p))
             (eng_seq e + 1) (view h x, t)],
           eng_seq := eng_seq e + 1,
           eng_heap := h(p := (h p)\<lparr>ord_quantity := ord_quantity (h p) - t\<rparr>,
                         x := (h x)\<lparr>ord_quantity := ord_quantity (h x) - t\<rparr>),
           eng_book := set_level r (l\<lparr>lvl_total := lvl_total l - t\<rparr>) (eng_book e)\<rparr>)"

definition traded :: "Quantity \<Rightarrow> Quantity \<Rightarrow> Quantity" where
  "traded q r = (if q < r then q else r)"

lemma matchOne_unfold:
  assumes "ord_side (eng_heap e p) = s" "best_ref (opposite s) (eng_book e) = Some (Some r)"
    "lvl_front (level_at r (eng_book e)) = Some x" "ord_level (eng_heap e x) = Some r" "p \<noteq> x"
  shows "matchOne p e =
    (let t = traded (ord_quantity (eng_heap e p)) (ord_quantity (eng_heap e x));
         e2 = after_match p x r t e
     in do {
       e3 \<leftarrow>
         (if ord_quantity (eng_heap e2 x) = 0
          then do {
            (removedOrder, h3, b2) \<leftarrow> cancelOrder (ord_id (eng_heap e2 x)) (eng_heap e2, eng_book e2);
            releaseIfOwned removedOrder (e2\<lparr>eng_heap := h3, eng_book := b2\<rparr>)
          }
          else Some e2);
       Some (t > 0, e3)
     })"
  unfolding matchOne_def assms(1) best_ref_if
  using assms
  by (simp add: Let_def traded_def after_match_def createTrade_def seq_next_def fill_trade_def view_def
      case_prod_beta)

lemma unat_Suc_no_wrap: "unat n + 1 < 2 ^ 64 \<Longrightarrow> unat (n + (1 :: u64)) = unat n + 1"
  by (simp add: unat_word_ariths(1))

lemma seq_le_next: "unat n + 1 < 2 ^ 64 \<Longrightarrow> x \<le> n \<Longrightarrow> x \<le> n + (1 :: u64)"
  by (simp add: word_le_nat_alt unat_Suc_no_wrap)

lemma queue_total_reduce:
  assumes "x \<in> set xs" "distinct xs" "\<And>y. y \<in> set xs \<Longrightarrow> y \<noteq> x \<Longrightarrow> ord_quantity (h' y) = ord_quantity (h y)"
    "ord_quantity (h' x) = ord_quantity (h x) - t"
  shows "queue_total h' xs = queue_total h xs - t"
proof -
  from distinct_remove1_split[OF assms(2,1)] obtain ys zs
    where xs: "xs = ys @ x # zs" "x \<notin> set ys" "x \<notin> set zs" by blast
  have "queue_total h' ys = queue_total h ys" "queue_total h' zs = queue_total h zs"
    using assms(3) xs by (auto intro!: queue_total_cong)
  then show ?thesis using assms(4) by (simp add: xs(1))
qed

lemma after_match_simps [simp]:
  "eng_pool (after_match p x r t e) = eng_pool e" "eng_seq (after_match p x r t e) = eng_seq e + 1"
  "eng_trades (after_match p x r t e) = eng_trades e @ [fill_trade (ord_side (eng_heap e p))
     (ord_id (eng_heap e p)) (ord_account (eng_heap e p)) (eng_seq e + 1) (view (eng_heap e) x, t)]"
  "p \<noteq> x \<Longrightarrow> eng_heap (after_match p x r t e) q =
     (if q = p \<or> q = x then (eng_heap e q)\<lparr>ord_quantity := ord_quantity (eng_heap e q) - t\<rparr> else eng_heap e q)"
  by (auto simp: after_match_def Let_def)

lemma after_match_book:
  assumes m: "mid p Q e" and x: "x \<in> set (Q s i)"
  shows "book_inv Q (eng_heap (after_match p x (s, i) t e)) (eng_book (after_match p x (s, i) t e))"
    "totals_ok Q (eng_heap (after_match p x (s, i) t e)) (eng_book (after_match p x (s, i) t e))"
proof -
  let ?e = "after_match p x (s, i) t e"
  have px: "p \<noteq> x" using midD(6)[OF m] liveI[of x Q s i, OF x] by auto
  have "book_inv Q (eng_heap ?e) (eng_book e)"
    by (rule book_inv_heap_cong[OF midD(1)[OF m]]) (simp add: px)
  then show "book_inv Q (eng_heap ?e) (eng_book ?e)"
    unfolding after_match_def Let_def by (simp add: book_inv_total)
  have tot: "lvl_total (level_at (s', j) (eng_book e)) = queue_total (eng_heap e) (Q s' j)" for s' j
    using midD(2)[OF m] unfolding totals_ok_def by blast
  have "queue_total (eng_heap ?e) (Q s i) = queue_total (eng_heap e) (Q s i) - t"
    using midD(6)[OF m] liveI[of _ Q s i] px
    by (intro queue_total_reduce[OF x inv_distinct[OF midD(1)[OF m]]]) auto
  moreover have "queue_total (eng_heap ?e) (Q s' j) = queue_total (eng_heap e) (Q s' j)"
    if "(s', j) \<noteq> (s, i)" for s' j
  proof (rule queue_total_cong)
    fix y assume "y \<in> set (Q s' j)"
    moreover from this have "y \<noteq> x" using inv_unique[OF midD(1)[OF m] x, of s' j] that by blast
    moreover have "y \<noteq> p" using midD(6)[OF m] liveI[of y Q s' j, OF \<open>y \<in> set (Q s' j)\<close>] by auto
    ultimately show "ord_quantity (eng_heap ?e y) = ord_quantity (eng_heap e y)" by (simp add: px)
  qed
  moreover have "level_at r (eng_book ?e) = (if r = (s, i)
      then (level_at (s, i) (eng_book e))\<lparr>lvl_total := lvl_total (level_at (s, i) (eng_book e)) - t\<rparr>
      else level_at r (eng_book e))" for r
    by (simp add: after_match_def Let_def)
  ultimately show "totals_ok Q (eng_heap ?e) (eng_book ?e)"
    unfolding totals_ok_def by (simp add: tot)
qed

text \<open>What a successful match leaves: one trade appended, the incoming order lowered by the
  traded quantity, and every order but the two untouched.\<close>

definition matched :: "ptr \<Rightarrow> ptr \<Rightarrow> Quantity \<Rightarrow> engine \<Rightarrow> engine \<Rightarrow> bool" where
  "matched p x t e e' \<longleftrightarrow>
     eng_seq e' = eng_seq e + 1 \<and>
     eng_trades e' = eng_trades e @ [fill_trade (ord_side (eng_heap e p)) (ord_id (eng_heap e p))
       (ord_account (eng_heap e p)) (eng_seq e + 1) (view (eng_heap e) x, t)] \<and>
     slots (eng_pool e') = slots (eng_pool e) \<and>
     (\<forall>q. payload (eng_heap e' q) = payload (if q = p \<or> q = x
        then (eng_heap e q)\<lparr>ord_quantity := ord_quantity (eng_heap e q) - t\<rparr> else eng_heap e q))"

lemma matchOne_partial:
  assumes m: "mid p Q e" and s: "ord_side (eng_heap e p) = s" and pl: "plist Q (opposite s) = x # xs"
    and lt: "0 < ord_quantity (eng_heap e p)" "ord_quantity (eng_heap e p) < ord_quantity (eng_heap e x)"
    and wrap: "unat (eng_seq e) + 1 < 2 ^ 64"
  obtains e' where "matchOne p e = Some (True, e')" "mid p Q e'"
    "matched p x (ord_quantity (eng_heap e p)) e e'"
proof -
  let ?q = "ord_quantity (eng_heap e p)"
  obtain i ys where i: "best_ref (opposite s) (eng_book e) = Some (Some (opposite s, i))"
    "Q (opposite s) i = x # ys"
    using plist_front[OF midD(1)[OF m], of "opposite s"] pl by blast
  let ?e = "after_match p x (opposite s, i) ?q e"
  have xQ: "x \<in> set (Q (opposite s) i)" using i(2) by simp
  have px: "p \<noteq> x" using midD(6)[OF m] liveI[of x Q "opposite s" i, OF xQ] by auto
  have "lvl_front (level_at (opposite s, i) (eng_book e)) = Some x"
    using inv_rep[OF midD(1)[OF m], of "opposite s" i] i(2) by (simp add: lvl_rep_def lvl_front_def)
  moreover have "ord_level (eng_heap e x) = Some (opposite s, i)"
    using inv_own[OF midD(1)[OF m] xQ] by simp
  ultimately have "matchOne p e = Some (True, ?e)"
    using lt by (subst matchOne_unfold[OF s i(1) _ _ px]) (auto simp: traded_def px Let_def)
  moreover have "mid p Q ?e"
    unfolding mid_def
  proof (intro conjI ballI after_match_book[OF m xQ])
    show "pool_inv (eng_pool ?e)" "held (eng_pool ?e) = insert p (live Q)" "p \<notin> live Q"
      using midD(4-6)[OF m] by simp_all
    show "ord_id (eng_heap ?e y) \<le> eng_seq ?e" if "y \<in> insert p (live Q)" for y
      using seq_le_next[OF wrap midD(7)[OF m that]] px by simp
    show "ord_id (eng_heap ?e y) \<noteq> ord_id (eng_heap ?e p)" if "y \<in> live Q" for y
      using midD(8)[OF m that] px by simp
  qed
  moreover have "matched p x ?q e ?e" using px by (simp add: matched_def)
  ultimately show ?thesis using that by blast
qed

lemma matchOne_full:
  assumes m: "mid p Q e" and s: "ord_side (eng_heap e p) = s" and pl: "plist Q (opposite s) = x # xs"
    and le: "ord_quantity (eng_heap e x) \<le> ord_quantity (eng_heap e p)"
    and wrap: "unat (eng_seq e) + 1 < 2 ^ 64"
  obtains e' i where "matchOne p e = Some (0 < ord_quantity (eng_heap e x), e')"
    "mid p (deq (opposite s) i x Q) e'" "x \<in> set (Q (opposite s) i)"
    "plist (deq (opposite s) i x Q) (opposite s) = xs"
    "matched p x (ord_quantity (eng_heap e x)) e e'"
proof -
  let ?q = "ord_quantity (eng_heap e x)" and ?o = "opposite s"
  obtain i ys where i: "best_ref ?o (eng_book e) = Some (Some (?o, i))"
    "Q ?o i = x # ys" "xs = plist (deq ?o i x Q) ?o"
    using plist_front[OF midD(1)[OF m], of ?o] pl by blast
  let ?e = "after_match p x (?o, i) ?q e" and ?Q = "deq ?o i x Q"
  have xQ: "x \<in> set (Q ?o i)" using i(2) by simp
  have px: "p \<noteq> x" using midD(6)[OF m] liveI[of x Q "opposite s" i, OF xQ] by auto
  have front: "lvl_front (level_at (?o, i) (eng_book e)) = Some x"
    using inv_rep[OF midD(1)[OF m], of ?o i] i(2) by (simp add: lvl_rep_def lvl_front_def)
  have level: "ord_level (eng_heap e x) = Some (?o, i)"
    using inv_own[OF midD(1)[OF m] xQ] by simp
  obtain h3 b3 where c: "cancelOrder (ord_id (eng_heap ?e x)) (eng_heap ?e, eng_book ?e) = Some (Some x, h3, b3)"
    "book_inv ?Q h3 b3" "\<And>q. payload (h3 q) = payload (eng_heap ?e q)" "totals_ok ?Q h3 b3"
    "live ?Q = live Q - {x}"
    using cancelOrder_ok[OF after_match_book(1)[OF m xQ] xQ refl] after_match_book(2)[OF m xQ] by metis
  have xh: "x \<in> held (eng_pool ?e)" using midD(5)[OF m] liveI[of x Q "opposite s" i, OF xQ] by simp
  obtain pl' where r: "pool_release (Some x) (eng_pool e) = Some pl'" "pool_inv pl'"
    "held pl' = held (eng_pool e) - {x}" "slots pl' = slots (eng_pool e)"
    using op.free_law[OF midD(4)[OF m], of "Some x"] by auto
  define e' where "e' = ?e\<lparr>eng_heap := h3, eng_book := b3, eng_pool := pl'\<rparr>"
  have "pool_owns (eng_pool ?e) (Some x)" using xh held_sub by (auto simp: pool_owns_slots)
  then have rel: "releaseIfOwned (Some x) (?e\<lparr>eng_heap := h3, eng_book := b3\<rparr>) = Some e'"
    using r(1) by (simp add: releaseIfOwned_def e'_def)
  have t: "traded (ord_quantity (eng_heap e p)) ?q = ?q" using le by (auto simp: traded_def)
  have "matchOne p e = Some (0 < ?q, e')"
    using px c(1) rel by (subst matchOne_unfold[OF s i(1) front level px]) (simp add: t Let_def)
  moreover have pay: "payload (eng_heap e' q) = payload (if q = p \<or> q = x
        then (eng_heap e q)\<lparr>ord_quantity := ord_quantity (eng_heap e q) - ?q\<rparr> else eng_heap e q)" for q
    using c(3)[of q] px by (simp add: e'_def)
  have id: "ord_id (eng_heap e' q) = ord_id (eng_heap e q)" for q
    using payload_eqD(1)[OF pay[of q]] by simp
  have "mid p ?Q e'"
    unfolding mid_def
  proof (intro conjI ballI)
    show "book_inv ?Q (eng_heap e') (eng_book e')" "totals_ok ?Q (eng_heap e') (eng_book e')"
      "pool_inv (eng_pool e')"
      using c(2,4) r(2) by (simp_all add: e'_def)
    show "held (eng_pool e') = insert p (live ?Q)" "p \<notin> live ?Q"
      using midD(5,6)[OF m] r(3) c(5) px by (auto simp: e'_def)
    show "ord_id (eng_heap e' y) \<le> eng_seq e'" if "y \<in> insert p (live ?Q)" for y
      using seq_le_next[OF wrap midD(7)[OF m, of y]] that c(5) unfolding id by (auto simp: e'_def)
    show "ord_id (eng_heap e' y) \<noteq> ord_id (eng_heap e' p)" if "y \<in> live ?Q" for y
      using midD(8)[OF m, of y] that c(5) unfolding id by simp
  qed
  moreover have "matched p x ?q e e'" using pay r(4) by (simp add: matched_def e'_def)
  ultimately show ?thesis using that i(3) xQ by blast
qed

section \<open>The matching loop\<close>

lemma view_eqI: "payload (h' y) = payload (h y) \<Longrightarrow> view h' y = view h y"
  by (simp add: view_def payload_def)

lemma fill_done: "fill cr rs q = (fs, rs', q') \<Longrightarrow> q' = 0 \<or> rs' = [] \<or> \<not> cr (hd rs')"
  by (induction rs arbitrary: q fs) (auto split: if_splits prod.splits)

text \<open>What the loop has done when it stops, in terms of the specification.\<close>

definition filled :: "ptr \<Rightarrow> Side \<Rightarrow> queues \<Rightarrow> engine \<Rightarrow> queues \<Rightarrow> engine \<Rightarrow>
  (resting \<times> Quantity) list \<times> resting list \<times> Quantity \<Rightarrow> bool" where
  "filled p s Q e Q' e' = (\<lambda>(fs, rs, q).
     mid p Q' e' \<and> all_positive Q' (eng_heap e') \<and> Q' s = Q s \<and>
     map (view (eng_heap e')) (plist Q' (opposite s)) = rs \<and>
     payload (eng_heap e' p) = payload ((eng_heap e p)\<lparr>ord_quantity := q\<rparr>) \<and>
     eng_trades e' = eng_trades e @
       fill_trades s (ord_id (eng_heap e p)) (ord_account (eng_heap e p)) (eng_seq e) fs \<and>
     slots (eng_pool e') = slots (eng_pool e) \<and>
     (\<forall>i. \<forall>x\<in>set (Q s i). payload (eng_heap e' x) = payload (eng_heap e x)))"

lemma matched_payload:
  assumes "matched p x t e e'"
  shows "payload (eng_heap e' q) = payload (if q = p \<or> q = x
    then (eng_heap e q)\<lparr>ord_quantity := ord_quantity (eng_heap e q) - t\<rparr> else eng_heap e q)"
    "eng_seq e' = eng_seq e + 1" "slots (eng_pool e') = slots (eng_pool e)"
    "eng_trades e' = eng_trades e @ [fill_trade (ord_side (eng_heap e p)) (ord_id (eng_heap e p))
       (ord_account (eng_heap e p)) (eng_seq e + 1) (view (eng_heap e) x, t)]"
  using assms unfolding matched_def by blast+

lemma own_side_off:
  assumes "book_inv Q h b" "x \<in> set (Q (opposite s) i)" "y \<in> set (Q s j)"
  shows "y \<noteq> x"
  using inv_unique[OF assms(1,2), of s j] assms(3) by auto

lemma match_loop_stop:
  assumes "ord_quantity (eng_heap e p) = 0 \<or> canCross p e = Some False"
  shows "match_loop p e = Some e"
  using assms by (subst match_loop.simps) auto

lemma match_loop_step:
  assumes "0 < ord_quantity (eng_heap e p)" "canCross p e = Some True" "matchOne p e = Some (True, e1)"
  shows "match_loop p e = match_loop p e1"
  using assms by (subst match_loop.simps) simp

lemma match_loop_fill:
  assumes "mid p Q e" "ord_side (eng_heap e p) = s"
    "unat (eng_seq e) + length (plist Q (opposite s)) < 2 ^ 64" "all_positive Q (eng_heap e)"
  shows "\<exists>e' Q'. match_loop p e = Some e' \<and> filled p s Q e Q' e'
    (fill (crosses s (ord_price (eng_heap e p))) (map (view (eng_heap e)) (plist Q (opposite s)))
       (ord_quantity (eng_heap e p)))"
  using assms
proof (induction "plist Q (opposite s)" arbitrary: Q e)
  case Nil
  then have "match_loop p e = Some e"
    using canCross_eq[OF Nil.prems(1,2)] by (intro match_loop_stop) (simp flip: Nil.hyps)
  moreover have "filled p s Q e Q e ([], [], ord_quantity (eng_heap e p))"
    using Nil by (simp add: filled_def flip: Nil.hyps)
  ultimately show ?case by (auto simp flip: Nil.hyps)
next
  case (Cons x xs)
  note m = Cons.prems(1) and s = Cons.prems(2) and pl = Cons.hyps(2)[symmetric]
  let ?q = "ord_quantity (eng_heap e p)" and ?qx = "ord_quantity (eng_heap e x)" and ?o = "opposite s"
  let ?cr = "crosses s (ord_price (eng_heap e p))"
  have wrap: "unat (eng_seq e) + 1 < 2 ^ 64" using Cons.prems(3) pl by simp
  have qx: "rs_qty (view (eng_heap e) x) = ?qx" by (simp add: view_def)
  have cross: "canCross p e = Some (?cr (view (eng_heap e) x))" using canCross_eq[OF m s] pl by simp
  have xin: "x \<in> (\<Union>i. set (Q ?o i))"
    using set_plist[OF midD(1)[OF m], of ?o] pl by auto
  then obtain ix where xQ: "x \<in> set (Q ?o ix)" by blast
  have xl: "x \<in> live Q" by (rule liveI[of x Q ?o ix, OF xQ])
  have own: "y \<noteq> x \<and> y \<noteq> p" if "y \<in> set (Q s j)" for y j
    using own_side_off[OF midD(1)[OF m] xQ that] midD(6)[OF m] liveI[of y Q s j, OF that] by auto
  have dist: "distinct (x # xs)" using distinct_plist[OF midD(1)[OF m], of ?o] pl by simp
  have offp: "y \<noteq> p" if "y \<in> set (x # xs)" for y
    using that set_plist[OF midD(1)[OF m], of ?o] pl midD(6)[OF m] by (auto simp: live_def)
  consider (stop) "?q = 0 \<or> \<not> ?cr (view (eng_heap e) x)"
    | (part) "0 < ?q" "?cr (view (eng_heap e) x)" "?q < ?qx"
    | (full) "0 < ?q" "?cr (view (eng_heap e) x)" "?qx \<le> ?q"
    by (metis not_less word_gt_0)
  then show ?case
  proof cases
    case stop
    then have "match_loop p e = Some e" using cross by (intro match_loop_stop) auto
    moreover have "filled p s Q e Q e ([], map (view (eng_heap e)) (x # xs), ?q)"
      using m pl Cons.prems(4) by (simp add: filled_def)
    ultimately show ?thesis using stop pl by auto
  next
    case part
    obtain e1 where e1: "matchOne p e = Some (True, e1)" "mid p Q e1" "matched p x ?q e e1"
      using matchOne_partial[OF m s pl part(1,3) wrap] by metis
    note pay = matched_payload(1)[OF e1(3)]
    have "ord_quantity (eng_heap e1 p) = 0" using payload_eqD(5)[OF pay[of p]] by simp
    then have "match_loop p e = Some e1"
      using match_loop_step[OF part(1) _ e1(1)] match_loop_stop[of e1 p] cross part(2) by simp
    moreover have "map (view (eng_heap e1)) xs = map (view (eng_heap e)) xs"
      using dist offp by (intro map_cong refl view_eqI) (auto simp: pay)
    moreover have "view (eng_heap e1) x = (view (eng_heap e) x)\<lparr>rs_qty := ?qx - ?q\<rparr>"
      using payload_eqD[OF pay[of x]] by (simp add: view_def)
    moreover have "payload (eng_heap e1 p) = payload ((eng_heap e p)\<lparr>ord_quantity := 0\<rparr>)"
      using pay[of p] by simp
    moreover have "all_positive Q (eng_heap e1)"
      using Cons.prems(4) midD(6)[OF m] part(3) payload_eqD(5)[OF pay]
      unfolding all_positive_def by (auto simp: word_gt_0 split: if_splits)
    ultimately show ?thesis
      using part e1(2) pl own s
      by (auto simp: filled_def qx pay matched_payload(3,4)[OF e1(3)] intro!: exI[of _ e1] exI[of _ Q])
  next
    case full
    have "0 < ?qx" using Cons.prems(4) xl by (simp add: all_positive_def)
    then obtain e1 i where e1: "matchOne p e = Some (True, e1)" "mid p (deq ?o i x Q) e1"
      "plist (deq ?o i x Q) ?o = xs" "matched p x ?qx e e1" "x \<in> set (Q ?o i)"
      using matchOne_full[OF m s pl full(3) wrap] by metis
    let ?Q = "deq ?o i x Q"
    note pay = matched_payload(1)[OF e1(4)]
    have p1: "payload (eng_heap e1 p) = payload ((eng_heap e p)\<lparr>ord_quantity := ?q - ?qx\<rparr>)"
      using pay[of p] by simp
    have "all_positive ?Q (eng_heap e1)"
      using Cons.prems(4) midD(6)[OF m] payload_eqD(5)[OF pay]
        live_set_queue_remove[OF midD(1)[OF m] e1(5)]
      unfolding all_positive_def by (auto split: if_splits)
    note pos1 = this
    have views: "map (view (eng_heap e1)) xs = map (view (eng_heap e)) xs"
      using dist offp by (intro map_cong refl view_eqI) (auto simp: pay)
    have "unat (eng_seq e1) + length xs < 2 ^ 64"
      using Cons.prems(3) pl matched_payload(2)[OF e1(4)] unat_Suc_no_wrap[OF wrap] by simp
    then obtain e' Q' where IH: "match_loop p e1 = Some e'"
      "filled p s ?Q e1 Q' e' (fill ?cr (map (view (eng_heap e)) xs) (?q - ?qx))"
      using Cons.hyps(1)[OF e1(3)[symmetric] e1(2) _ _ pos1] payload_eqD[OF p1] s e1(3) views by auto
    have "match_loop p e = Some e'"
      using match_loop_step[OF full(1) _ e1(1)] IH(1) cross full(2) by simp
    moreover obtain fs rs q' where f: "fill ?cr (map (view (eng_heap e)) xs) (?q - ?qx) = (fs, rs, q')"
      by (metis prod.exhaust)
    have Qs: "?Q s = Q s" by (rule ext) simp
    have own1: "payload (eng_heap e1 y) = payload (eng_heap e y)" if "y \<in> set (Q s j)" for y j
      using own[OF that] pay[of y] by simp
    have "payload ((eng_heap e1 p)\<lparr>ord_quantity := q'\<rparr>) = payload ((eng_heap e p)\<lparr>ord_quantity := q'\<rparr>)"
      using payload_eqD[OF p1] by (simp add: payload_def)
    then have "filled p s Q e Q' e' ((view (eng_heap e) x, ?qx) # fs, rs, q')"
      using IH(2) own1 matched_payload(2-4)[OF e1(4)] s payload_eqD[OF p1]
      unfolding filled_def f Qs by simp
    moreover have "fill ?cr (map (view (eng_heap e)) (x # xs)) ?q = ((view (eng_heap e) x, ?qx) # fs, rs, q')"
      using full f by (auto simp: qx word_gt_0)
    ultimately show ?thesis using pl by auto
  qed
qed

section \<open>Submitting an order\<close>

definition uncrossed :: "queues \<Rightarrow> bool" where
  "uncrossed Q \<longleftrightarrow> (\<forall>i j. Q Buy i \<noteq> [] \<and> Q Sell j \<noteq> [] \<longrightarrow> i < j)"

text \<open>Between submissions (\<open>idle\<close>) the pool's held slots are exactly the orders in the book
  and identifiers are below the sequencer's counter; \<open>engine_inv\<close> adds that every resting
  quantity is positive and no bid reaches an ask.\<close>

definition idle :: "queues \<Rightarrow> engine \<Rightarrow> bool" where
  "idle Q e \<longleftrightarrow>
     book_inv Q (eng_heap e) (eng_book e) \<and> totals_ok Q (eng_heap e) (eng_book e) \<and>
     pool_inv (eng_pool e) \<and> held (eng_pool e) = live Q \<and>
     pool_capacity (eng_pool e) = DefaultOrderCapacity \<and>
     (\<forall>x\<in>live Q. ord_id (eng_heap e x) \<le> eng_seq e)"

definition engine_inv :: "queues \<Rightarrow> engine \<Rightarrow> bool" where
  "engine_inv Q e \<longleftrightarrow> idle Q e \<and> all_positive Q (eng_heap e) \<and> uncrossed Q"

lemma idleD:
  assumes "idle Q e"
  shows "book_inv Q (eng_heap e) (eng_book e)" "totals_ok Q (eng_heap e) (eng_book e)"
    "pool_inv (eng_pool e)" "held (eng_pool e) = live Q"
    "pool_capacity (eng_pool e) = DefaultOrderCapacity"
    "\<And>x. x \<in> live Q \<Longrightarrow> ord_id (eng_heap e x) \<le> eng_seq e"
  using assms unfolding idle_def by blast+

lemma engine_invD:
  assumes "engine_inv Q e"
  shows "book_inv Q (eng_heap e) (eng_book e)" "totals_ok Q (eng_heap e) (eng_book e)"
    "\<And>x. x \<in> live Q \<Longrightarrow> 0 < ord_quantity (eng_heap e x)"
    "pool_inv (eng_pool e)" "held (eng_pool e) = live Q"
    "pool_capacity (eng_pool e) = DefaultOrderCapacity"
    "\<And>x. x \<in> live Q \<Longrightarrow> ord_id (eng_heap e x) \<le> eng_seq e" "uncrossed Q"
  using assms unfolding engine_inv_def idle_def all_positive_def by blast+

lemma card_slots: "card (slots pl) = pool_capacity pl"
  by (simp add: slots_def pool_capacity_def)

definition new_order :: "OrderId \<Rightarrow> AccountId \<Rightarrow> Side \<Rightarrow> Price \<Rightarrow> Quantity \<Rightarrow> Order" where
  "new_order oid acc s price q = \<lparr>ord_id = oid, ord_account = acc, ord_side = s, ord_price = price,
     ord_quantity = q, ord_level = None, ord_prev = None, ord_next = None\<rparr>"

lemma prepareOrder_ok:
  assumes inv: "idle Q e" and room: "card (live Q) < DefaultOrderCapacity"
    and wrap: "unat (eng_seq e) + 1 < 2 ^ 64"
  obtains p e1 where "prepareOrder acc s price q e = Some (Some p, e1)" "mid p Q e1"
    "eng_heap e1 = (eng_heap e)(p := new_order (eng_seq e + 1) acc s price q)"
    "eng_seq e1 = eng_seq e + 1" "eng_trades e1 = eng_trades e" "slots (eng_pool e1) = slots (eng_pool e)"
proof -
  note I = idleD[OF inv]
  have "held (eng_pool e) \<noteq> slots (eng_pool e)"
    using room I(4,5) card_slots[of "eng_pool e"] by auto
  then obtain p pl where a: "pool_acquire (eng_pool e) = Some (Some p, pl)" "p \<notin> held (eng_pool e)"
    "held pl = insert p (held (eng_pool e))" "slots pl = slots (eng_pool e)" "pool_inv pl"
    by (cases rule: acquire_cases[OF I(3), case_names none slot]) auto
  define e1 where "e1 = e\<lparr>eng_pool := pl, eng_seq := eng_seq e + 1,
    eng_heap := (eng_heap e)(p := new_order (eng_seq e + 1) acc s price q)\<rparr>"
  have p: "p \<notin> live Q" using a(2) I(4) by simp
  have "book_inv Q (eng_heap e1) (eng_book e1)"
    using p I(1) by (auto simp: e1_def intro: book_inv_heap_cong)
  moreover have "totals_ok Q (eng_heap e1) (eng_book e1)"
  proof -
    have "queue_total (eng_heap e1) (Q s' i) = queue_total (eng_heap e) (Q s' i)" for s' i
      using p liveI[of _ Q s' i] by (intro queue_total_cong) (auto simp: e1_def)
    then show ?thesis using I(2) unfolding totals_ok_def by (simp add: e1_def)
  qed
  moreover have "ord_id (eng_heap e x) \<noteq> eng_seq e + 1" if "x \<in> live Q" for x
    using I(6)[OF that] unat_Suc_no_wrap[OF wrap] by (auto simp: word_le_nat_alt)
  ultimately have "mid p Q e1"
    using p I a seq_le_next[OF wrap] unfolding mid_def by (auto simp: e1_def new_order_def)
  moreover have "prepareOrder acc s price q e = Some (Some p, e1)"
    using a(1) by (simp add: prepareOrder_def seq_next_def e1_def new_order_def Let_def)
  ultimately show ?thesis using that a(4) by (simp add: e1_def)
qed

lemma process_executeTrade:
  assumes "mid p Q e" "0 < ord_quantity (eng_heap e p)"
  shows "process (Some p) e = executeTrade p e"
proof (cases "canCross p e = Some False")
  case True
  then show ?thesis using assms(2) match_loop_stop[of e p] by (simp add: process_def executeTrade_def)
next
  case False
  then have "canCross p e = Some True" using canCross_eq[OF assms(1) refl] by (metis (full_types))
  then show ?thesis by (simp add: process_def)
qed

lemma fill_prices: "fill cr rs q = (fs, rs', q') \<Longrightarrow> rs_price ` set rs' \<subseteq> rs_price ` set rs"
  by (induction rs arbitrary: q fs) (auto split: if_splits prod.splits)

lemma levels_prices:
  assumes "book_inv Q h b"
  shows "int ` levels_in Q s = rs_price ` set (map (view h) (plist Q s))"
proof -
  have "rs_price (view h x) = int i" if "x \<in> set (Q s i)" for x i
    using inv_own[OF assms that] by (simp add: view_def)
  moreover have "\<exists>x. x \<in> set (Q s i)" if "Q s i \<noteq> []" for i using that by (meson list.set_sel(1))
  ultimately show ?thesis
    using set_plist[OF assms, of s] unfolding levels_in_def by (force simp: image_iff)
qed

lemma uncrossed_levels:
  assumes "uncrossed Q" "Q' s = Q s" "levels_in Q' (opposite s) \<subseteq> levels_in Q (opposite s)"
  shows "uncrossed Q'"
  using assms unfolding uncrossed_def levels_in_def by (cases s) auto

lemma releaseIfOwned_ok:
  assumes "mid p Q e" "pool_capacity (eng_pool e) = DefaultOrderCapacity"
  obtains e' where "releaseIfOwned (Some p) e = Some e'" "idle Q e'"
    "eng_heap e' = eng_heap e" "eng_trades e' = eng_trades e"
proof -
  note M = midD[OF assms(1)]
  obtain pl where r: "pool_release (Some p) (eng_pool e) = Some pl" "pool_inv pl"
    "held pl = held (eng_pool e) - {p}" "slots pl = slots (eng_pool e)"
    using op.free_law[OF M(4), of "Some p"] by auto
  have "p \<in> slots (eng_pool e)" using M(5) held_sub by auto
  then have "releaseIfOwned (Some p) e = Some (e\<lparr>eng_pool := pl\<rparr>)"
    using r(1) by (simp add: releaseIfOwned_def pool_owns_slots)
  moreover have "pool_capacity pl = pool_capacity (eng_pool e)"
    using r(4) card_slots by metis
  ultimately show ?thesis
    using that[of "e\<lparr>eng_pool := pl\<rparr>"] M r assms(2) by (simp add: idle_def)
qed

lemma book_add_ok:
  assumes m: "mid p Q e" and s: "ord_side (eng_heap e p) = s" "ord_price (eng_heap e p) = int i"
    and i: "0 < i" "i < MaxPriceLevels" and cap: "pool_capacity (eng_pool e) = DefaultOrderCapacity"
  obtains e' where "book_add p e = Some e'" "idle (enq s i p Q) e'"
    "\<And>x. payload (eng_heap e' x) = payload (eng_heap e x)" "eng_trades e' = eng_trades e"
proof -
  note M = midD[OF m]
  have "card (insert p (live Q)) \<le> DefaultOrderCapacity"
    using M(5) cap card_mono[OF finite_slots held_sub, of "eng_pool e"] card_slots by metis
  then have room: "card (live Q) < DefaultOrderCapacity" using M(6) finite_live[OF M(1)] by simp
  obtain h' b' where a: "addOrder p (eng_heap e, eng_book e) = Some (h', b')"
    "book_inv (enq s i p Q) h' b'" "\<And>x. payload (h' x) = payload (eng_heap e x)"
    "totals_ok (enq s i p Q) h' b'"
    using addOrder_ok[OF M(1,6) s i M(8) room] M(2) by metis
  have live: "live (enq s i p Q) = insert p (live Q)" by (rule live_set_queue_add) simp
  define e' where "e' = e\<lparr>eng_heap := h', eng_book := b'\<rparr>"
  have fld: "ord_quantity (h' x) = ord_quantity (eng_heap e x)" "ord_id (h' x) = ord_id (eng_heap e x)" for x
    using payload_eqD[OF a(3)] by simp_all
  have "idle (enq s i p Q) e'"
    using a M cap unfolding idle_def live by (simp add: e'_def fld)
  moreover have "book_add p e = Some e'" using a(1) by (simp add: book_add_def e'_def)
  ultimately show ?thesis using that a(3) by (simp add: e'_def)
qed

lemma uncrossed_rest:
  assumes inv: "book_inv Q h b" and un: "uncrossed Q"
    and stop: "map (view h) (plist Q (opposite s)) = [] \<or>
      \<not> crosses s (int i) (hd (map (view h) (plist Q (opposite s))))"
  shows "uncrossed (enq s i p Q)"
proof -
  have far: "\<not> crosses s (int i) r" if "rs_price r = int j" "Q (opposite s) j \<noteq> []" for j r
  proof (cases rule: best_ref_cases[OF inv, of "opposite s", case_names none level])
    case none
    with that show ?thesis by (auto simp: levels_in_def)
  next
    case (level k)
    then obtain x xs where x: "Q (opposite s) k = x # xs" by (cases "Q (opposite s) k") auto
    have "hd (map (view h) (plist Q (opposite s))) = view h x" "plist Q (opposite s) \<noteq> []"
      using plist_best[OF inv level(3) x] by simp_all
    with stop have "\<not> crosses s (int i) (view h x)" by simp
    moreover have "rs_price (view h x) = int k"
      using inv_own[OF inv, of x "opposite s" k] x by (simp add: view_def)
    ultimately show ?thesis using that level(4)[OF that(2)]
      by (cases s) (auto simp: crosses_def not_less)
  qed
  show ?thesis
    unfolding uncrossed_def
  proof (intro allI impI)
    fix a c assume ac: "enq s i p Q Buy a \<noteq> [] \<and> enq s i p Q Sell c \<noteq> []"
    show "a < c"
    proof (cases s)
      case Buy
      then have c: "Q Sell c \<noteq> []" using ac by simp
      have "i < c" using far[of "\<lparr>rs_id = 0, rs_account = 0, rs_price = int c, rs_qty = 0\<rparr>" c] c Buy
        by (simp add: crosses_def)
      with Buy ac un c show ?thesis unfolding uncrossed_def by (auto split: if_splits)
    next
      case Sell
      then have a: "Q Buy a \<noteq> []" using ac by simp
      have "a < i" using far[of "\<lparr>rs_id = 0, rs_account = 0, rs_price = int a, rs_qty = 0\<rparr>" a] a Sell
        by (simp add: crosses_def)
      with Sell ac un a show ?thesis unfolding uncrossed_def by (auto split: if_splits)
    qed
  qed
qed

text \<open>The observable outcome of a submission, in terms of the specification \<open>fill\<close>.\<close>

definition outcome :: "OrderId \<Rightarrow> AccountId \<Rightarrow> Side \<Rightarrow> nat \<Rightarrow> queues \<Rightarrow> engine \<Rightarrow> queues \<Rightarrow> engine \<Rightarrow>
  (resting \<times> Quantity) list \<times> resting list \<times> Quantity \<Rightarrow> bool" where
  "outcome oid acc s i Q e Q' e' = (\<lambda>(fs, rs, q).
     eng_trades e' = eng_trades e @ fill_trades s oid acc oid fs \<and>
     map (view (eng_heap e')) (plist Q' (opposite s)) = rs \<and>
     (\<forall>j. map (view (eng_heap e')) (Q' s j) = map (view (eng_heap e)) (Q s j) @
        (if j = i \<and> q \<noteq> 0
         then [\<lparr>rs_id = oid, rs_account = acc, rs_price = int i, rs_qty = q\<rparr>] else [])))"

lemma submitOrder_full:
  assumes "engine_inv Q e" "card (live Q) = DefaultOrderCapacity"
  shows "submitOrder acc s price q e = Some (0, e)"
proof -
  note I = engine_invD[OF assms(1)]
  have "held (eng_pool e) = slots (eng_pool e)"
    using I(5,6) assms(2) card_slots by (intro card_subset_eq held_sub finite_slots) metis
  then have "pool_acquire (eng_pool e) = Some (None, eng_pool e)" using op.alloc_none_iff[OF I(4)] by simp
  then show ?thesis by (simp add: submitOrder_def prepareOrder_def)
qed

lemma executeTrade_ok:
  assumes m: "mid p Q e" and ord: "eng_heap e p = new_order oid acc s (int i) q" "eng_seq e = oid"
    and i: "0 < i" "i < MaxPriceLevels" and un: "uncrossed Q"
    and cap: "pool_capacity (eng_pool e) = DefaultOrderCapacity"
    and wrap: "unat oid + length (plist Q (opposite s)) < 2 ^ 64" and pos: "all_positive Q (eng_heap e)"
  shows "\<exists>Q' e'. executeTrade p e = Some e' \<and> engine_inv Q' e' \<and> outcome oid acc s i Q e Q' e'
    (fill (crosses s (int i)) (map (view (eng_heap e)) (plist Q (opposite s))) q)"
proof -
  let ?o = "opposite s"
  obtain fs rs q' where f: "fill (crosses s (int i)) (map (view (eng_heap e)) (plist Q ?o)) q = (fs, rs, q')"
    by (metis prod.exhaust)
  have fields: "ord_side (eng_heap e p) = s" "ord_price (eng_heap e p) = int i" "ord_quantity (eng_heap e p) = q"
    "ord_id (eng_heap e p) = oid" "ord_account (eng_heap e p) = acc"
    using ord(1) by (simp_all add: new_order_def)
  obtain e1 Q1 where l: "match_loop p e = Some e1" and F: "filled p s Q e Q1 e1 (fs, rs, q')"
    using match_loop_fill[OF m fields(1)] wrap ord(2) f fields pos by auto
  have m1: "mid p Q1 e1" and pos1: "all_positive Q1 (eng_heap e1)" and Qs: "Q1 s = Q s"
    and rs: "map (view (eng_heap e1)) (plist Q1 ?o) = rs"
    and pay: "payload (eng_heap e1 p) = payload ((eng_heap e p)\<lparr>ord_quantity := q'\<rparr>)"
    and tr: "eng_trades e1 = eng_trades e @ fill_trades s oid acc oid fs"
    and sl: "slots (eng_pool e1) = slots (eng_pool e)"
    and own: "\<And>j x. x \<in> set (Q s j) \<Longrightarrow> payload (eng_heap e1 x) = payload (eng_heap e x)"
    using F ord(2) fields unfolding filled_def by auto
  have cap1: "pool_capacity (eng_pool e1) = DefaultOrderCapacity" using sl cap card_slots by metis
  have "int ` levels_in Q1 ?o \<subseteq> int ` levels_in Q ?o"
    using fill_prices[OF f] rs
    unfolding levels_prices[OF midD(1)[OF m]] levels_prices[OF midD(1)[OF m1]] by simp
  then have "levels_in Q1 ?o \<subseteq> levels_in Q ?o" by (simp add: inj_image_subset_iff)
  then have un1: "uncrossed Q1" by (rule uncrossed_levels[of Q Q1 s, OF un Qs])
  have own_views: "map (view (eng_heap e1)) (Q s j) = map (view (eng_heap e)) (Q s j)" for j
    using own by (intro map_cong refl view_eqI) simp
  have p1: "ord_side (eng_heap e1 p) = s" "ord_price (eng_heap e1 p) = int i"
    "ord_quantity (eng_heap e1 p) = q'" "view (eng_heap e1) p = \<lparr>rs_id = oid, rs_account = acc,
      rs_price = int i, rs_qty = q'\<rparr>"
    using payload_eqD[OF pay] fields by (simp_all add: view_def)
  show ?thesis
  proof (cases "q' = 0")
    case True
    obtain e' where e': "releaseIfOwned (Some p) e1 = Some e'" "engine_inv Q1 e'"
      "eng_heap e' = eng_heap e1" "eng_trades e' = eng_trades e1"
      using releaseIfOwned_ok[OF m1 cap1] un1 pos1 unfolding engine_inv_def by metis
    have "outcome oid acc s i Q e Q1 e' (fs, rs, q')"
      using True tr rs own_views Qs e'(3,4) by (simp add: outcome_def)
    moreover have "executeTrade p e = Some e'" using l True p1(3) e'(1) by (simp add: executeTrade_def)
    ultimately show ?thesis using e'(2) f by auto
  next
    case False
    then have qpos: "0 < ord_quantity (eng_heap e1 p)" using p1(3) by (simp add: word_gt_0)
    have "uncrossed (enq s i p Q1)"
      using fill_done[OF f] False rs by (intro uncrossed_rest[OF midD(1)[OF m1] un1]) auto
    moreover obtain e' where e': "book_add p e1 = Some e'" "idle (enq s i p Q1) e'"
      "\<And>x. payload (eng_heap e' x) = payload (eng_heap e1 x)" "eng_trades e' = eng_trades e1"
      using book_add_ok[OF m1 p1(1,2) i cap1] by metis
    moreover have "all_positive (enq s i p Q1) (eng_heap e')"
      using pos1 qpos payload_eqD(5)[OF e'(3)] live_set_queue_add[of "Q1 s i @ [p]" p Q1 s i]
      by (simp add: all_positive_def)
    ultimately have inv': "engine_inv (enq s i p Q1) e'" by (simp add: engine_inv_def)
    have v: "view (eng_heap e') = view (eng_heap e1)" using view_eqI[OF e'(3)] by (rule ext)
    have "enq s i p Q1 ?o = Q1 ?o" by (rule ext) simp
    then have "plist (enq s i p Q1) ?o = plist Q1 ?o" by (simp add: plist_def levels_in_def)
    then have "outcome oid acc s i Q e (enq s i p Q1) e' (fs, rs, q')"
      using False tr rs own_views Qs e'(4) p1(4) unfolding outcome_def v by auto
    moreover have "executeTrade p e = Some e'" using l qpos e'(1) by (simp add: executeTrade_def)
    ultimately show ?thesis using inv' f by auto
  qed
qed

lemma submitOrder_ok:
  assumes inv: "engine_inv Q e" and room: "card (live Q) < DefaultOrderCapacity"
    and i: "0 < i" "i < MaxPriceLevels" and q: "0 < q"
    and wrap: "unat (eng_seq e) + DefaultOrderCapacity < 2 ^ 64"
  shows "\<exists>Q' e'. submitOrder acc s (int i) q e = Some (eng_seq e + 1, e') \<and> engine_inv Q' e' \<and>
    outcome (eng_seq e + 1) acc s i Q e Q' e'
      (fill (crosses s (int i)) (map (view (eng_heap e)) (plist Q (opposite s))) q)"
proof -
  note I = engine_invD[OF inv]
  let ?oid = "eng_seq e + 1"
  have w1: "unat (eng_seq e) + 1 < 2 ^ 64" using wrap by (simp add: DefaultOrderCapacity_def)
  obtain p e1 where p: "prepareOrder acc s (int i) q e = Some (Some p, e1)" "mid p Q e1"
    "eng_heap e1 = (eng_heap e)(p := new_order ?oid acc s (int i) q)"
    "eng_seq e1 = ?oid" "eng_trades e1 = eng_trades e" "slots (eng_pool e1) = slots (eng_pool e)"
    using prepareOrder_ok[of Q e acc s "int i" q, OF _ room w1] inv unfolding engine_inv_def by metis
  have same: "view (eng_heap e1) x = view (eng_heap e) x" if "x \<in> live Q" for x
    using that midD(6)[OF p(2)] by (auto simp: p(3) view_def)
  have plq: "map (view (eng_heap e1)) (plist Q s') = map (view (eng_heap e)) (plist Q s')" for s'
    using same set_plist[OF I(1), of s'] by (intro map_cong) (auto simp: live_def)
  have ownq: "map (view (eng_heap e1)) (Q s' j) = map (view (eng_heap e)) (Q s' j)" for s' j
    using same liveI[of _ Q s' j] by (intro map_cong) auto
  have ord: "eng_heap e1 p = new_order ?oid acc s (int i) q" by (simp add: p(3))
  have cap: "pool_capacity (eng_pool e1) = DefaultOrderCapacity" using p(6) I(6) card_slots by metis
  have "unat ?oid + length (plist Q (opposite s)) < 2 ^ 64"
    using wrap room length_plist_le[OF I(1), of "opposite s"] unat_Suc_no_wrap[OF w1] by simp
  moreover have "all_positive Q (eng_heap e1)"
    using I(3) midD(6)[OF p(2)] by (auto simp: all_positive_def p(3))
  ultimately have "\<exists>Q' e'. executeTrade p e1 = Some e' \<and> engine_inv Q' e' \<and> outcome ?oid acc s i Q e1 Q' e'
      (fill (crosses s (int i)) (map (view (eng_heap e1)) (plist Q (opposite s))) q)"
    by (rule executeTrade_ok[OF p(2) ord p(4) i I(8) cap])
  then obtain Q' e' where e': "executeTrade p e1 = Some e'" "engine_inv Q' e'"
    "outcome ?oid acc s i Q e1 Q' e'
      (fill (crosses s (int i)) (map (view (eng_heap e)) (plist Q (opposite s))) q)"
    unfolding plq by blast
  have "process (Some p) e1 = Some e'"
    using process_executeTrade[OF p(2)] e'(1) q by (simp add: ord new_order_def)
  moreover have "ord_id (eng_heap e1 p) = ?oid" by (simp add: ord new_order_def)
  ultimately have "submitOrder acc s (int i) q e = Some (?oid, e')"
    using p(1) by (simp add: submitOrder_def)
  moreover have "outcome ?oid acc s i Q e Q' e'
      (fill (crosses s (int i)) (map (view (eng_heap e)) (plist Q (opposite s))) q)"
    using e'(3) p(5) unfolding outcome_def ownq by simp
  ultimately show ?thesis using e'(2) by blast
qed

end
