(* ===== verification/TradeListeners.thy ===== *)
theory TradeListeners
  imports MatchingEngine
begin

text \<open>
  Trade distribution (\<^verbatim>\<open>dispatcher/event_dispatcher.cpp\<close>) and the position keeper
  (\<^verbatim>\<open>position/position_manager.cpp\<close>).  A listener is a function that updates its own
  part of the listeners' common state; the dispatcher calls the registered listeners in
  order for every trade.  \<^verbatim>\<open>positions_\<close> holds an \<^verbatim>\<open>int\<close> per account, updated by adding and
  subtracting an unsigned 32-bit quantity, hence modulo \<open>2\<^sup>3\<^sup>2\<close>.
\<close>

section \<open>Dispatcher\<close>

type_synonym 's listener = "Trade \<Rightarrow> 's \<Rightarrow> 's"

definition addListener :: "'s listener option \<Rightarrow> 's listener list \<Rightarrow> 's listener list" where
  "addListener l listeners = (case l of None \<Rightarrow> listeners | Some f \<Rightarrow> listeners @ [f])"

fun publish :: "'s listener list \<Rightarrow> Trade \<Rightarrow> 's \<Rightarrow> 's" where
  "publish [] trade s = s"
| "publish (l # ls) trade s = publish ls trade (l trade s)"

text \<open>The engine publishes its trades one after the other.\<close>

definition publish_all :: "'s listener list \<Rightarrow> Trade list \<Rightarrow> 's \<Rightarrow> 's" where
  "publish_all ls trades s = fold (publish ls) trades s"

section \<open>Positions\<close>

type_synonym positions = "AccountId \<rightharpoonup> 32 word"

definition pos_at :: "positions \<Rightarrow> AccountId \<Rightarrow> 32 word" where
  "pos_at m a = (case m a of None \<Rightarrow> 0 | Some v \<Rightarrow> v)"

definition pm_onTrade :: "Trade \<Rightarrow> positions \<Rightarrow> positions" where
  "pm_onTrade trade m =
     (let m1 = m(tr_buy_account_id trade \<mapsto> pos_at m (tr_buy_account_id trade) + tr_quantity trade)
      in m1(tr_sell_account_id trade \<mapsto> pos_at m1 (tr_sell_account_id trade) - tr_quantity trade))"

definition pm_position :: "positions \<Rightarrow> AccountId \<Rightarrow> int" where
  "pm_position m a = (case m a of None \<Rightarrow> 0 | Some v \<Rightarrow> sint v)"

definition bought :: "AccountId \<Rightarrow> Trade list \<Rightarrow> nat" where
  "bought a ts = (\<Sum>t\<leftarrow>ts. if tr_buy_account_id t = a then unat (tr_quantity t) else 0)"

definition sold :: "AccountId \<Rightarrow> Trade list \<Rightarrow> nat" where
  "sold a ts = (\<Sum>t\<leftarrow>ts. if tr_sell_account_id t = a then unat (tr_quantity t) else 0)"

lemma pos_at_onTrade:
  "pos_at (pm_onTrade t m) a =
     pos_at m a + (if tr_buy_account_id t = a then tr_quantity t else 0)
       - (if tr_sell_account_id t = a then tr_quantity t else 0)"
  by (auto simp: pm_onTrade_def pos_at_def Let_def)

lemma pos_at_fold:
  "pos_at (fold pm_onTrade ts m) a = pos_at m a + of_nat (bought a ts) - of_nat (sold a ts)"
  by (induction ts arbitrary: m) (auto simp: bought_def sold_def pos_at_onTrade)

lemma pm_position_eq: "pm_position m a = sint (pos_at m a)"
  by (simp add: pm_position_def pos_at_def split: option.splits)

text \<open>What several listeners on separate parts of the state see is what each sees alone.\<close>

lemma publish_all_singleton: "publish_all [f] ts s = fold f ts s"
proof -
  have "publish [f] = f" by (intro ext) simp
  then show ?thesis by (simp add: publish_all_def)
qed

lemma publish_append: "publish (ls @ ks) t s = publish ks t (publish ls t s)"
  by (induction ls arbitrary: s) auto

lemma publish_all_projection:
  assumes "\<And>l t s. l \<in> set (ls @ ks) \<Longrightarrow> part (l t s) = part s"
    and "\<And>t s. part (f t s) = g t (part s)"
  shows "part (publish_all (ls @ [f] @ ks) ts s) = fold g ts (part s)"
proof -
  have skip: "part (publish xs t s) = part s" if "set xs \<subseteq> set (ls @ ks)" for xs t s
    using that assms(1) by (induction xs arbitrary: s) auto
  have "part (publish (ls @ [f] @ ks) t s) = g t (part s)" for t s
    using skip[of ls] skip[of ks] by (simp add: publish_append assms(2))
  then show ?thesis
    unfolding publish_all_def by (induction ts arbitrary: s) auto
qed

section \<open>Properties\<close>

text \<open>With the position keeper registered on the dispatcher among other listeners, an
  account's position after any sequence of trades is what it bought minus what it sold, as
  long as both stay below \<open>2\<^sup>3\<^sup>1\<close>; a trade between an account and itself leaves it
  unchanged.\<close>

lemma positions_follow_trades:
  assumes "\<And>l t s. l \<in> set (ls @ ks) \<Longrightarrow> fst (l t s) = fst s"
    "bought a ts < 2 ^ 31" "sold a ts < 2 ^ 31"
  shows "pm_position (fst (publish_all (ls @ [\<lambda>t (m, r). (pm_onTrade t m, r)] @ ks) ts (Map.empty, r0))) a =
    int (bought a ts) - int (sold a ts)"
proof -
  have "fst (publish_all (ls @ [\<lambda>t (m, r). (pm_onTrade t m, r)] @ ks) ts (Map.empty, r0)) =
      fold pm_onTrade ts (fst (Map.empty, r0))"
    by (rule publish_all_projection) (auto simp: assms(1))
  moreover have "pos_at Map.empty a = 0" by (simp add: pos_at_def)
  ultimately have "pm_position (fst (publish_all (ls @ [\<lambda>t (m, r). (pm_onTrade t m, r)] @ ks) ts (Map.empty, r0))) a =
      sint (of_nat (bought a ts) - of_nat (sold a ts) :: 32 word)"
    by (simp add: pm_position_eq pos_at_fold)
  also have "(of_nat (bought a ts) - of_nat (sold a ts) :: 32 word) =
      word_of_int (int (bought a ts) - int (sold a ts))"
    by simp
  also have "sint (word_of_int (int (bought a ts) - int (sold a ts)) :: 32 word) =
      int (bought a ts) - int (sold a ts)"
    using assms(2,3) unfolding sint_sbintrunc' by (intro signed_take_bit_int_eq_self) simp_all
  finally show ?thesis .
qed

definition demo_trade :: Trade where
  "demo_trade = \<lparr>tr_sequence = 1001, tr_buy_order_id = 1, tr_sell_order_id = 2, tr_buy_account_id = 10,
     tr_sell_account_id = 20, tr_price = 100, tr_quantity = 5\<rparr>"

end
