(* ===== verification/MatchingProperties.thy ===== *)
theory MatchingProperties
  imports MatchingEngine
begin

text \<open>
  What a client of the matching engine can rely on: price-time priority and the exact
  trades of one submission, conservation of quantity, and, for every engine reached by
  submissions from the initial one, a book that is never crossed, a pool that leaks no
  order, and a submission that always returns.
\<close>

section \<open>Facts on the specification\<close>

lemma fill_conserves:
  "fill cr rs q = (fs, rs', q') \<Longrightarrow> (\<Sum>(r, t)\<leftarrow>fs. unat t) + unat q' = unat q"
proof (induction rs arbitrary: q fs)
  case (Cons r rs)
  show ?case
  proof (cases "q = 0 \<or> \<not> cr r \<or> q < rs_qty r")
    case True
    with Cons.prems show ?thesis by (auto split: if_splits)
  next
    case False
    then obtain fs' where f: "fill cr rs (q - rs_qty r) = (fs', rs', q')" "fs = (r, rs_qty r) # fs'"
      using Cons.prems by (auto split: prod.splits)
    have "unat (q - rs_qty r) = unat q - unat (rs_qty r)" "unat (rs_qty r) \<le> unat q"
      using False by (simp_all add: unat_sub word_le_nat_alt not_less)
    with Cons.IH[OF f(1)] f(2) show ?thesis by simp
  qed
qed auto

lemma fill_within:
  "fill cr rs q = (fs, rs', q') \<Longrightarrow> (r, t) \<in> set fs \<Longrightarrow> (\<And>r. r \<in> set rs \<Longrightarrow> 0 < rs_qty r) \<Longrightarrow>
   r \<in> set rs \<and> cr r \<and> 0 < t \<and> t \<le> rs_qty r"
proof (induction rs arbitrary: q fs)
  case (Cons a rs)
  show ?case
  proof (cases "q = 0 \<or> \<not> cr a \<or> q < rs_qty a")
    case True
    with Cons.prems show ?thesis by (auto split: if_splits simp: word_gt_0)
  next
    case False
    then obtain fs' where f: "fill cr rs (q - rs_qty a) = (fs', rs', q')" "fs = (a, rs_qty a) # fs'"
      using Cons.prems(1) by (auto split: prod.splits)
    with Cons.IH[OF f(1)] Cons.prems(2,3) False show ?thesis by auto
  qed
qed auto

lemma fill_trades_quantity: "map tr_quantity (fill_trades s oid acc n fs) = map snd fs"
  by (induction fs arbitrary: n) (auto simp: fill_trade_def)

lemma fill_trades_price: "map tr_price (fill_trades s oid acc n fs) = map (rs_price \<circ> fst) fs"
  by (induction fs arbitrary: n) (auto simp: fill_trade_def)

lemma fill_trades_sequence:
  "map tr_sequence (fill_trades s oid acc n fs) = map (\<lambda>k. n + 1 + of_nat k) [0..<length fs]"
proof (induction fs arbitrary: n)
  case (Cons f fs)
  have "map (\<lambda>k. n + 1 + of_nat k) [0..<Suc (length fs)] =
      (n + 1) # map (\<lambda>k. n + 1 + of_nat (Suc k)) [0..<length fs]"
    by (simp add: upt_conv_Cons map_Suc_upt[symmetric] del: upt_Suc)
  moreover have "tr_sequence (fill_trade s oid acc (n + 1) f) = n + 1"
    by (simp add: fill_trade_def case_prod_beta)
  ultimately show ?case using Cons[of "n + 1"] by (simp add: add.assoc del: upt_Suc)
qed simp

section \<open>Engines reached by submissions\<close>

inductive engine_reach :: "engine \<Rightarrow> bool" where
  start: "engine_reach (new_engine h base)"
| submit: "engine_reach e \<Longrightarrow> 0 < i \<Longrightarrow> i < MaxPriceLevels \<Longrightarrow> 0 < q \<Longrightarrow>
    unat (eng_seq e) + DefaultOrderCapacity < 2 ^ 64 \<Longrightarrow>
    submitOrder acc s (int i) q e = Some (oid, e') \<Longrightarrow> engine_reach e'"

lemma new_engine_inv: "engine_inv (\<lambda>_ _. []) (new_engine h base)"
proof -
  have "pool_capacity (new_pool base DefaultOrderCapacity) = DefaultOrderCapacity"
    by (simp add: pool_capacity_def new_pool_def)
  then show ?thesis
    using new_book_inv[of h] new_book_totals[of h]
    by (simp add: engine_inv_def idle_def all_positive_def new_engine_def new_pool_inv new_pool_held uncrossed_def)
qed

lemma live_capacity:
  assumes "engine_inv Q e"
  shows "card (live Q) \<le> DefaultOrderCapacity"
  using engine_invD(5,6)[OF assms] card_mono[OF finite_slots held_sub, of "eng_pool e"] card_slots by metis

lemma submitOrder_cases:
  assumes inv: "engine_inv Q e" and i: "0 < i" "i < MaxPriceLevels" and q: "0 < q"
    and wrap: "unat (eng_seq e) + DefaultOrderCapacity < 2 ^ 64"
  shows "\<exists>oid e' Q'. submitOrder acc s (int i) q e = Some (oid, e') \<and> engine_inv Q' e'"
proof (cases "card (live Q) < DefaultOrderCapacity")
  case True
  from submitOrder_ok[OF inv this i q wrap] show ?thesis by blast
next
  case False
  then show ?thesis using submitOrder_full[OF inv] live_capacity[OF inv] inv
    by (metis le_neq_implies_less)
qed

lemma engine_reach_inv: "engine_reach e \<Longrightarrow> \<exists>Q. engine_inv Q e"
proof (induction rule: engine_reach.induct)
  case (start h base)
  show ?case using new_engine_inv by blast
next
  case (submit e i q acc s oid e')
  then obtain Q where "engine_inv Q e" by blast
  from submitOrder_cases[OF this submit.hyps(2-5), of acc s] submit.hyps(6) show ?case by auto
qed

lemma levels_in_empty [simp]: "levels_in (\<lambda>_ _. []) s = {}"
  by (simp add: levels_in_def)

section \<open>Orders of quantity zero\<close>

text \<open>An order that meets an empty opposite side rests, whatever its quantity.\<close>

lemma submitOrder_rests:
  assumes inv: "idle Q e" and room: "card (live Q) < DefaultOrderCapacity"
    and i: "0 < i" "i < MaxPriceLevels" and empty: "levels_in Q (opposite s) = {}"
    and wrap: "unat (eng_seq e) + 1 < 2 ^ 64"
  shows "\<exists>p e'. submitOrder acc s (int i) q e = Some (eng_seq e + 1, e') \<and>
    idle (enq s i p Q) e' \<and> p \<notin> live Q \<and> eng_trades e' = eng_trades e \<and> eng_seq e' = eng_seq e + 1 \<and>
    ord_quantity (eng_heap e' p) = q \<and>
    (\<forall>x\<in>live Q. ord_quantity (eng_heap e' x) = ord_quantity (eng_heap e x))"
proof -
  obtain p e1 where p: "prepareOrder acc s (int i) q e = Some (Some p, e1)" "mid p Q e1"
    "eng_heap e1 = (eng_heap e)(p := new_order (eng_seq e + 1) acc s (int i) q)"
    "eng_seq e1 = eng_seq e + 1" "eng_trades e1 = eng_trades e" "slots (eng_pool e1) = slots (eng_pool e)"
    using prepareOrder_ok[OF inv room wrap] by metis
  have fields: "ord_side (eng_heap e1 p) = s" "ord_price (eng_heap e1 p) = int i"
    by (simp_all add: p(3) new_order_def)
  have cap: "pool_capacity (eng_pool e1) = DefaultOrderCapacity" using p(6) idleD(5)[OF inv] card_slots by metis
  obtain h' b' where a: "addOrder p (eng_heap e1, eng_book e1) = Some (h', b')"
    "\<And>x. payload (h' x) = payload (eng_heap e1 x)"
  proof -
    have "card (insert p (live Q)) \<le> DefaultOrderCapacity"
      using midD(5)[OF p(2)] cap card_mono[OF finite_slots held_sub, of "eng_pool e1"] card_slots by metis
    then have "card (live Q) < DefaultOrderCapacity" using midD(3,6)[OF p(2)] by simp
    then show thesis using addOrder_ok[OF midD(1,6)[OF p(2)] fields i midD(8)[OF p(2)]] that by metis
  qed
  obtain e' where e': "book_add p e1 = Some e'" "idle (enq s i p Q) e'"
    "\<And>x. payload (eng_heap e' x) = payload (eng_heap e1 x)" "eng_trades e' = eng_trades e1"
    using book_add_ok[OF p(2) fields i cap] by metis
  have "canCross p e1 = Some False"
    using canCross_eq[OF p(2) fields(1)] plist_empty[OF empty] by simp
  then have "submitOrder acc s (int i) q e = Some (eng_seq e + 1, e')"
    using p(1) e'(1) by (simp add: submitOrder_def process_def p(3) new_order_def)
  moreover have "eng_seq e' = eng_seq e + 1" using e'(1) p(4) by (auto simp: book_add_def)
  moreover have "p \<notin> live Q" by (rule midD(6)[OF p(2)])
  moreover have "ord_quantity (eng_heap e' p) = q"
    using payload_eqD(5)[OF e'(3), of p] by (simp add: p(3) new_order_def)
  moreover have "ord_quantity (eng_heap e' x) = ord_quantity (eng_heap e x)" if "x \<in> live Q" for x
    using payload_eqD(5)[OF e'(3), of x] that \<open>p \<notin> live Q\<close> by (auto simp: p(3))
  ultimately show ?thesis using e'(2,4) p(5) by (intro exI[of _ p] exI[of _ e']) simp
qed

text \<open>A resting order of quantity zero at the front stops the matching loop.\<close>

lemma executeTrade_zero_front:
  assumes m: "mid p Q e" and s: "ord_side (eng_heap e p) = s" and price: "ord_price (eng_heap e p) = int i"
    and i: "0 < i" "i < MaxPriceLevels" and pl: "plist Q (opposite s) = x # xs"
    and zero: "ord_quantity (eng_heap e x) = 0" and q: "0 < ord_quantity (eng_heap e p)"
    and cross: "crosses s (int i) (view (eng_heap e) x)"
    and wrap: "unat (eng_seq e) + 1 < 2 ^ 64"
    and cap: "pool_capacity (eng_pool e) = DefaultOrderCapacity"
  shows "\<exists>e' k. process (Some p) e = Some e' \<and> idle (enq s i p (deq (opposite s) k x Q)) e' \<and>
    x \<in> set (Q (opposite s) k) \<and> map tr_quantity (eng_trades e') = map tr_quantity (eng_trades e) @ [0]"
proof -
  obtain e1 k where e1: "matchOne p e = Some (False, e1)" "mid p (deq (opposite s) k x Q) e1"
    "x \<in> set (Q (opposite s) k)" "matched p x 0 e e1"
    using matchOne_full[OF m s pl _ wrap] zero by (metis word_not_simps(1) word_zero_le)
  have can: "canCross p e = Some True" using canCross_eq[OF m s] pl cross price by simp
  then have "match_loop p e = Some e1" using q e1(1) by (subst match_loop.simps) simp
  moreover have p1: "payload (eng_heap e1 p) = payload (eng_heap e p)"
    using matched_payload(1)[OF e1(4), of p] by (simp add: payload_def)
  have f: "ord_side (eng_heap e1 p) = s" "ord_price (eng_heap e1 p) = int i"
    "0 < ord_quantity (eng_heap e1 p)" using payload_eqD[OF p1] s price q by simp_all
  have cap1: "pool_capacity (eng_pool e1) = DefaultOrderCapacity"
    using matched_payload(3)[OF e1(4)] cap card_slots by metis
  obtain e' where e': "book_add p e1 = Some e'" "idle (enq s i p (deq (opposite s) k x Q)) e'"
    "eng_trades e' = eng_trades e1"
    using book_add_ok[OF e1(2) f(1,2) i cap1] by metis
  ultimately have "process (Some p) e = Some e'"
    using can f(3) by (simp add: process_def executeTrade_def)
  moreover have "map tr_quantity (eng_trades e') = map tr_quantity (eng_trades e) @ [0]"
    using matched_payload(4)[OF e1(4)] e'(3) by (simp add: fill_trade_def)
  ultimately show ?thesis using e'(2) e1(3) by blast
qed

section \<open>Properties\<close>

text \<open>C1. \<^verbatim>\<open>MatchingEngine::submitOrder\<close> implements price-time priority.  From a consistent
  engine with a free slot it returns a fresh identifier and a consistent engine; the trades
  published are exactly those of filling the order from the opposite side in priority order
  while it crosses, at the resting orders' prices and with consecutive sequence numbers; the
  opposite side keeps what the fill leaves; and the order rests behind every order of its
  own price and side exactly when a quantity is left.\<close>

theorem submitOrder_price_time:
  assumes "engine_inv Q e" "card (live Q) < DefaultOrderCapacity" "0 < i" "i < MaxPriceLevels" "0 < q"
    "unat (eng_seq e) + DefaultOrderCapacity < 2 ^ 64"
    "fill (crosses s (int i)) (map (view (eng_heap e)) (plist Q (opposite s))) q = (fs, rs, q')"
  shows "\<exists>Q' e'. submitOrder acc s (int i) q e = Some (eng_seq e + 1, e') \<and> engine_inv Q' e' \<and>
    eng_trades e' = eng_trades e @ fill_trades s (eng_seq e + 1) acc (eng_seq e + 1) fs \<and>
    map (view (eng_heap e')) (plist Q' (opposite s)) = rs \<and>
    (\<forall>j. map (view (eng_heap e')) (Q' s j) = map (view (eng_heap e)) (Q s j) @
       (if j = i \<and> q' \<noteq> 0
        then [\<lparr>rs_id = eng_seq e + 1, rs_account = acc, rs_price = int i, rs_qty = q'\<rparr>] else []))"
  using submitOrder_ok[OF assms(1-6), of acc s] unfolding assms(7) outcome_def by auto

theorem submitOrder_price_time_witness:
  "\<exists>Q' e'. submitOrder 7 Buy (int 100) 5 (new_engine demo_heap 16) = Some (1001, e') \<and>
     engine_inv Q' e' \<and> eng_trades e' = [] \<and>
     map (view (eng_heap e')) (Q' Buy 100) = [\<lparr>rs_id = 1001, rs_account = 7, rs_price = 100, rs_qty = 5\<rparr>]"
proof -
  have fill: "fill (crosses Buy (int 100)) (map (view (eng_heap (new_engine demo_heap 16)))
      (plist (\<lambda>_ _. []) (opposite Buy))) 5 = ([], [], 5)"
    by (simp add: plist_def levels_in_def levels_by_def)
  have "card (live (\<lambda>_ _. [])) < DefaultOrderCapacity" "(100::nat) < MaxPriceLevels"
    by (simp_all add: DefaultOrderCapacity_def MaxPriceLevels_def)
  from submitOrder_price_time[OF new_engine_inv[of demo_heap 16] this(1) _ this(2) _ _ fill, of 7]
  obtain Q' e' where r: "submitOrder 7 Buy (int 100) 5 (new_engine demo_heap 16) = Some (1001, e')"
    "engine_inv Q' e'" "eng_trades e' = []"
    and own: "\<forall>j. map (view (eng_heap e')) (Q' Buy j) = (if j = 100
       then [\<lparr>rs_id = 1001, rs_account = 7, rs_price = 100, rs_qty = 5\<rparr>] else [])"
    by (auto simp: new_engine_def DefaultOrderCapacity_def)
  from own have "map (view (eng_heap e')) (Q' Buy 100) =
      [\<lparr>rs_id = 1001, rs_account = 7, rs_price = 100, rs_qty = 5\<rparr>]" by simp
  with r show ?thesis by (intro exI[of _ Q'] exI[of _ e'] conjI)
qed



text \<open>C7. For every engine reached from the initial one by submissions of valid prices and
  positive quantities: the book is never crossed, the cached totals are right, and the
  pool's free slots and the indexed orders always add up to the capacity, so no order is
  leaked or freed while it rests.\<close>

theorem engine_reach_safe:
  assumes "engine_reach e"
  shows "(best_bid (eng_book e) \<noteq> 0 \<and> best_ask (eng_book e) \<noteq> 0 \<longrightarrow>
      best_bid (eng_book e) < best_ask (eng_book e)) \<and>
    pool_available (eng_pool e) + hm_size (order_index (eng_book e)) = DefaultOrderCapacity \<and>
    (\<exists>Q. book_inv Q (eng_heap e) (eng_book e) \<and> totals_ok Q (eng_heap e) (eng_book e))"
proof -
  obtain Q where inv: "engine_inv Q e" using engine_reach_inv[OF assms] by blast
  note I = engine_invD[OF inv]
  have "hm_size (order_index (eng_book e)) = card (live Q)"
    using hm.count_indexes[OF inv_hm[OF I(1)] inv_index[OF I(1), unfolded index_find_def]] .
  then have "pool_available (eng_pool e) + hm_size (order_index (eng_book e)) = DefaultOrderCapacity"
    using available_count[OF I(4)] I(5,6) by simp
  moreover have "best_bid (eng_book e) < best_ask (eng_book e)"
    if nz: "best_bid (eng_book e) \<noteq> 0" "best_ask (eng_book e) \<noteq> 0"
  proof -
    obtain i where "best Buy (eng_book e) = int i" "Q Buy i \<noteq> []"
      using nz(1) by (cases rule: best_ref_cases[OF I(1), of Buy, case_names none level]) auto
    moreover obtain j where "best Sell (eng_book e) = int j" "Q Sell j \<noteq> []"
      using nz(2) by (cases rule: best_ref_cases[OF I(1), of Sell, case_names none level]) auto
    ultimately show ?thesis using I(8) by (simp add: uncrossed_def)
  qed
  ultimately show ?thesis using I(1,2) by blast
qed

theorem engine_reach_safe_witness:
  "pool_available (eng_pool (new_engine demo_heap 16)) +
     hm_size (order_index (eng_book (new_engine demo_heap 16))) = 4096"
  using engine_reach_safe[OF engine_reach.start[of demo_heap 16]] by (simp add: DefaultOrderCapacity_def)

text \<open>C8. Submissions never get stuck: on every reached engine with sequence numbers left, the
  matching loop terminates, no access leaves an array, and \<^verbatim>\<open>submitOrder\<close> returns; it returns
  0 exactly when all 4096 orders of the pool rest in the book.\<close>

theorem submitOrder_returns:
  assumes "engine_reach e" "0 < i" "i < MaxPriceLevels" "0 < q"
    "unat (eng_seq e) + DefaultOrderCapacity < 2 ^ 64"
  shows "\<exists>oid e'. submitOrder acc s (int i) q e = Some (oid, e') \<and> engine_reach e' \<and>
    (oid = 0 \<longleftrightarrow> hm_size (order_index (eng_book e)) = DefaultOrderCapacity)"
proof -
  obtain Q where inv: "engine_inv Q e" using engine_reach_inv[OF assms(1)] by blast
  note I = engine_invD[OF inv]
  have size: "hm_size (order_index (eng_book e)) = card (live Q)"
    using hm.count_indexes[OF inv_hm[OF I(1)] inv_index[OF I(1), unfolded index_find_def]] .
  have "\<exists>oid e'. submitOrder acc s (int i) q e = Some (oid, e') \<and>
    (oid = 0 \<longleftrightarrow> card (live Q) = DefaultOrderCapacity)"
  proof (cases "card (live Q) < DefaultOrderCapacity")
    case True
    have "unat (eng_seq e + 1) = unat (eng_seq e) + 1"
      using assms(5) by (intro unat_Suc_no_wrap) (simp add: DefaultOrderCapacity_def)
    then have "eng_seq e + 1 \<noteq> 0" by auto
    with submitOrder_ok[OF inv True assms(2-5), of acc s] True show ?thesis by auto
  next
    case False
    then have "card (live Q) = DefaultOrderCapacity" using live_capacity[OF inv] by simp
    with submitOrder_full[OF inv this] show ?thesis by auto
  qed
  then show ?thesis using engine_reach.submit[OF assms] size by metis
qed

theorem submitOrder_returns_witness:
  "\<exists>oid e'. submitOrder 7 Buy (int 100) 5 (new_engine demo_heap 16) = Some (oid, e') \<and> engine_reach e'"
  using submitOrder_returns[OF engine_reach.start[of demo_heap 16], of 100 5 7 Buy]
  by (auto simp: new_engine_def DefaultOrderCapacity_def MaxPriceLevels_def)

text \<open>C33. The engine does not refuse a quantity of zero, and such an order breaks matching:
  after selling 0 and then 7 at 100, a buy of 5 at 100 publishes a trade of quantity 0, is
  not matched with the 7 on offer, and is left resting at 100 against an ask of 100.\<close>

theorem zero_quantity_crosses_book:
  "\<exists>e1 e2 e3. submitOrder 1 Sell 100 0 (new_engine h base) = Some (1001, e1) \<and>
     submitOrder 2 Sell 100 7 e1 = Some (1002, e2) \<and> submitOrder 3 Buy 100 5 e2 = Some (1003, e3) \<and>
     map tr_quantity (eng_trades e3) = [0] \<and>
     best_bid (eng_book e3) = 100 \<and> best_ask (eng_book e3) = 100"
proof -
  let ?Q0 = "\<lambda>_ _. [] :: ptr list" and ?e0 = "new_engine h base"
  have c: "(0::nat) < 100" "100 < MaxPriceLevels" by (simp_all add: MaxPriceLevels_def)
  have e0: "idle ?Q0 ?e0" "eng_seq ?e0 = 1000" "eng_trades ?e0 = []"
    using new_engine_inv by (auto simp: engine_inv_def new_engine_def)
  obtain p e1 where e1: "submitOrder 1 Sell (int 100) 0 ?e0 = Some (1001, e1)" "idle (enq Sell 100 p ?Q0) e1"
    "eng_trades e1 = []" "eng_seq e1 = 1001" "ord_quantity (eng_heap e1 p) = 0"
    using submitOrder_rests[OF e0(1) _ c, of Sell 1 0] e0(2,3)
    by (auto simp: levels_in_def DefaultOrderCapacity_def)
  let ?Q1 = "enq Sell 100 p ?Q0"
  have l1: "live ?Q1 = {p}" by (subst live_set_queue_add[of _ p]) simp_all
  obtain r e2 where e2: "submitOrder 2 Sell (int 100) 7 e1 = Some (1002, e2)" "idle (enq Sell 100 r ?Q1) e2"
    "eng_trades e2 = []" "eng_seq e2 = 1002" "ord_quantity (eng_heap e2 p) = 0" "r \<noteq> p"
    using submitOrder_rests[OF e1(2) _ c, of Sell 2 7] e1(3,4,5) l1
    by (auto simp: levels_in_def DefaultOrderCapacity_def)
  let ?Q2 = "enq Sell 100 r ?Q1"
  have Q2: "?Q2 Sell = (\<lambda>_. [])(100 := [p, r])" "?Q2 Buy = (\<lambda>_. [])" by (auto simp: set_queue_def)
  have "live ?Q2 = insert r (live ?Q1)" by (rule live_set_queue_add) auto
  then have l2: "live ?Q2 = {r, p}" unfolding l1 .
  have pl: "plist ?Q2 (opposite Buy) = p # [r]" by (simp add: plist_def levels_by_def)
  obtain q e3 where q: "prepareOrder 3 Buy (int 100) 5 e2 = Some (Some q, e3)" "mid q ?Q2 e3"
    "eng_heap e3 = (eng_heap e2)(q := new_order (eng_seq e2 + 1) 3 Buy (int 100) 5)"
    "eng_seq e3 = eng_seq e2 + 1" "eng_trades e3 = eng_trades e2" "slots (eng_pool e3) = slots (eng_pool e2)"
  proof (rule prepareOrder_ok[OF e2(2), of 3 Buy "int 100" 5])
    show "card (live ?Q2) < DefaultOrderCapacity"
      using card_insert_le_m1[of 2 "{p}" r] unfolding l2 DefaultOrderCapacity_def by simp
    show "unat (eng_seq e2) + 1 < 2 ^ 64" by (simp add: e2(4))
  qed
  have qp: "q \<noteq> p" using midD(6)[OF q(2)] l2 by auto
  have pp: "ord_price (eng_heap e3 p) = int 100"
    using inv_own[OF midD(1)[OF q(2)], of p Sell 100] by (simp add: Q2)
  have cap: "pool_capacity (eng_pool e3) = DefaultOrderCapacity" using q(6) idleD(5)[OF e2(2)] card_slots by metis
  obtain e4 k where e4: "process (Some q) e3 = Some e4" "idle (enq Buy 100 q (deq Sell k p ?Q2)) e4"
    "p \<in> set (?Q2 Sell k)" "map tr_quantity (eng_trades e4) = [0]"
    using executeTrade_zero_front[OF q(2) _ _ c pl _ _ _ _ cap] pp qp e2(3-5)
    by (auto simp: q(3-5) new_order_def crosses_def view_def)
  have k: "k = 100" using e4(3) by (auto simp: Q2 split: if_splits)
  let ?Q4 = "enq Buy 100 q (deq Sell 100 p ?Q2)"
  have lv4: "levels_in ?Q4 Buy = {100}" "levels_in ?Q4 Sell = {100}"
    using e2(6) by (auto simp: levels_in_def Q2)
  have "best Buy (eng_book e4) = 100" "best Sell (eng_book e4) = 100"
    using inv_best[OF idleD(1)[OF e4(2)[unfolded k]], of Buy] inv_best[OF idleD(1)[OF e4(2)[unfolded k]], of Sell]
    by (simp_all only: lv4 best_in.simps) simp_all
  moreover have "submitOrder 3 Buy (int 100) 5 e2 = Some (1003, e4)"
    using q(1) e4(1) e2(4) by (simp add: submitOrder_def q(3) new_order_def)
  ultimately show ?thesis using e1(1) e2(1) e4(4) by auto
qed

end
