(* ===== verification/RiskGateway.thy ===== *)
theory RiskGateway
  imports MatchingProperties
begin

text \<open>
  Pre-trade risk (\<^verbatim>\<open>risk/risk_manager.cpp\<close>) and the gateway that puts it in front of an
  execution sink (\<^verbatim>\<open>gateway/gateway.cpp\<close>), with the sink that feeds the matching engine
  (\<^verbatim>\<open>gateway/matching_engine_execution_sink.cpp\<close>).

  The order value is computed in 64 unsigned bits and kept so.  Positions are signed
  64-bit; the gateway keeps them within \<^verbatim>\<open>MaxPosition\<close>, so they are \<open>int\<close> and no overflow
  arises.  \<^verbatim>\<open>OrderExecutionSink\<close> is an interface with several implementations: the gateway
  takes the sink as an argument, and the locale \<open>execution_sink\<close> states what it relies on.
\<close>

section \<open>Risk\<close>

record OrderIntent =
  int_accountId :: AccountId
  int_side :: Side
  int_symbol :: Symbol
  int_price :: Price
  int_quantity :: Quantity

datatype RiskResult =
    Accepted
  | InvalidPrice
  | InvalidQuantity
  | MaxOrderQuantityExceeded
  | MaxOrderValueExceeded
  | MaxPositionExceeded

definition MaxOrderQuantity :: Quantity where "MaxOrderQuantity = 100000"
definition MaxOrderValue :: u64 where "MaxOrderValue = 10000000"
definition MaxPosition :: int where "MaxPosition = 500"

type_synonym risk_positions = "AccountId \<rightharpoonup> int"

definition risk_pos :: "risk_positions \<Rightarrow> AccountId \<Rightarrow> int" where
  "risk_pos ps a = (case ps a of None \<Rightarrow> 0 | Some v \<Rightarrow> v)"

definition moved :: "Side \<Rightarrow> Quantity \<Rightarrow> int \<Rightarrow> int" where
  "moved side quantity position =
     (if side = Buy then position + int (unat quantity) else position - int (unat quantity))"

definition orderValue :: "OrderIntent \<Rightarrow> u64" where
  "orderValue intent = word_of_int (int_price intent) * ucast (int_quantity intent)"

definition risk_check :: "risk_positions \<Rightarrow> OrderIntent \<Rightarrow> RiskResult" where
  "risk_check ps intent =
     (if int_price intent \<le> 0 then InvalidPrice
      else if int_quantity intent = 0 then InvalidQuantity
      else if int_quantity intent > MaxOrderQuantity then MaxOrderQuantityExceeded
      else if orderValue intent > MaxOrderValue then MaxOrderValueExceeded
      else if \<bar>moved (int_side intent) (int_quantity intent) (risk_pos ps (int_accountId intent))\<bar> > MaxPosition
      then MaxPositionExceeded
      else Accepted)"

definition risk_onAccepted :: "OrderIntent \<Rightarrow> risk_positions \<Rightarrow> risk_positions" where
  "risk_onAccepted intent ps =
     ps(int_accountId intent \<mapsto>
          moved (int_side intent) (int_quantity intent) (risk_pos ps (int_accountId intent)))"

section \<open>Gateway\<close>

record GatewayResult =
  riskResult :: RiskResult
  executionSucceeded :: bool

definition gw_accepted :: "GatewayResult \<Rightarrow> bool" where
  "gw_accepted r \<longleftrightarrow> riskResult r = Accepted \<and> executionSucceeded r"

type_synonym 'x sink = "OrderIntent \<Rightarrow> 'x \<Rightarrow> (bool \<times> 'x) option"

definition gateway_submit ::
  "'x sink \<Rightarrow> OrderIntent \<Rightarrow> risk_positions \<times> 'x \<Rightarrow> (GatewayResult \<times> risk_positions \<times> 'x) option" where
  "gateway_submit sink intent = (\<lambda>(ps, x).
     let result = risk_check ps intent
     in if result \<noteq> Accepted
        then Some (\<lparr>riskResult = result, executionSucceeded = False\<rparr>, ps, x)
        else do {
          (ok, x1) \<leftarrow> sink intent x;
          if \<not> ok then Some (\<lparr>riskResult = Accepted, executionSucceeded = False\<rparr>, ps, x1)
          else Some (\<lparr>riskResult = Accepted, executionSucceeded = True\<rparr>, risk_onAccepted intent ps, x1)
        })"

definition intent_sink_submit ::
  "'x sink \<Rightarrow> OrderIntent \<Rightarrow> risk_positions \<times> 'x \<Rightarrow> (bool \<times> risk_positions \<times> 'x) option" where
  "intent_sink_submit sink intent s =
     map_option (\<lambda>(r, s'). (gw_accepted r, s')) (gateway_submit sink intent s)"

definition engine_sink :: "engine sink" where
  "engine_sink intent e =
     map_option (\<lambda>(oid, e'). (oid \<noteq> 0, e'))
       (submitOrder (int_accountId intent) (int_side intent) (int_price intent) (int_quantity intent) e)"

section \<open>What the gateway relies on\<close>

definition within_limits :: "risk_positions \<Rightarrow> bool" where
  "within_limits ps \<longleftrightarrow> (\<forall>a. \<bar>risk_pos ps a\<bar> \<le> MaxPosition)"

lemma risk_pos_onAccepted:
  "risk_pos (risk_onAccepted intent ps) a =
     (if a = int_accountId intent then moved (int_side intent) (int_quantity intent) (risk_pos ps a)
      else risk_pos ps a)"
  by (simp add: risk_onAccepted_def risk_pos_def)

lemma risk_check_Accepted:
  "risk_check ps intent = Accepted \<longleftrightarrow>
     0 < int_price intent \<and> int_quantity intent \<noteq> 0 \<and> int_quantity intent \<le> MaxOrderQuantity \<and>
     orderValue intent \<le> MaxOrderValue \<and>
     \<bar>moved (int_side intent) (int_quantity intent) (risk_pos ps (int_accountId intent))\<bar> \<le> MaxPosition"
  by (auto simp: risk_check_def)

text \<open>A sink returns from a ready state and keeps its invariant.\<close>

locale execution_sink =
  fixes sink :: "OrderIntent \<Rightarrow> 'x \<Rightarrow> (bool \<times> 'x) option"
    and ready :: "OrderIntent \<Rightarrow> 'x \<Rightarrow> bool"
    and invar :: "'x \<Rightarrow> bool"
  assumes sink_returns: "invar x \<Longrightarrow> ready intent x \<Longrightarrow> \<exists>ok x'. sink intent x = Some (ok, x') \<and> invar x'"
begin

lemma gateway_returns:
  assumes "invar x" "within_limits ps" "risk_check ps intent = Accepted \<Longrightarrow> ready intent x"
  shows "\<exists>r ps' x'. gateway_submit sink intent (ps, x) = Some (r, ps', x') \<and> invar x' \<and> within_limits ps' \<and>
    riskResult r = risk_check ps intent \<and>
    ps' = (if gw_accepted r then risk_onAccepted intent ps else ps) \<and>
    (riskResult r \<noteq> Accepted \<longrightarrow> x' = x)"
proof (cases "risk_check ps intent = Accepted")
  case False
  then show ?thesis using assms(1,2) by (simp add: gateway_submit_def gw_accepted_def)
next
  case True
  from sink_returns[OF assms(1) assms(3)[OF True]] obtain ok x' where "sink intent x = Some (ok, x')" "invar x'"
    by blast
  moreover have "within_limits (risk_onAccepted intent ps)"
    using True assms(2) unfolding risk_check_Accepted within_limits_def risk_pos_onAccepted by simp
  ultimately show ?thesis
    using True assms(2) by (simp add: gateway_submit_def gw_accepted_def)
qed

lemma gateway_many:
  assumes "invar x" "within_limits ps" "\<And>intent x. intent \<in> set intents \<Longrightarrow> invar x \<Longrightarrow> ready intent x"
  shows "\<exists>s. fold_opt (\<lambda>i s. map_option snd (gateway_submit sink i s)) intents (ps, x) = Some s \<and>
    invar (snd s) \<and> within_limits (fst s)"
proof -
  have "\<exists>s'. map_option snd (gateway_submit sink i s) = Some s' \<and> (invar (snd s') \<and> within_limits (fst s'))"
    if "i \<in> set intents" "invar (snd s) \<and> within_limits (fst s)" for i s
    using gateway_returns[of "snd s" "fst s" i] that assms(3) by force
  then show ?thesis
    using assms(1,2) by (intro fold_opt_inv[where P = "\<lambda>s. invar (snd s) \<and> within_limits (fst s)"]) auto
qed

end

definition engine_ready :: "OrderIntent \<Rightarrow> engine \<Rightarrow> bool" where
  "engine_ready intent e \<longleftrightarrow>
     0 < int_price intent \<and> int_price intent < int MaxPriceLevels \<and> int_quantity intent \<noteq> 0 \<and>
     unat (eng_seq e) + DefaultOrderCapacity < 2 ^ 64"

interpretation me: execution_sink engine_sink engine_ready engine_reach
proof
  fix e intent assume reach: "engine_reach e" and ready: "engine_ready intent e"
  then have p: "0 < nat (int_price intent)" "nat (int_price intent) < MaxPriceLevels"
    "0 < int_quantity intent" "unat (eng_seq e) + DefaultOrderCapacity < 2 ^ 64"
    "int (nat (int_price intent)) = int_price intent"
    by (auto simp: engine_ready_def word_gt_0)
  obtain Q where "engine_inv Q e" using engine_reach_inv[OF reach] by blast
  from submitOrder_cases[OF this p(1-4), of "int_accountId intent" "int_side intent"]
  obtain oid e' where s: "submitOrder (int_accountId intent) (int_side intent)
      (int (nat (int_price intent))) (int_quantity intent) e = Some (oid, e')" by blast
  then have "engine_reach e'" by (rule engine_reach.submit[OF reach p(1-4)])
  with s show "\<exists>ok x'. engine_sink intent e = Some (ok, x') \<and> engine_reach x'"
    unfolding p(5) by (simp add: engine_sink_def)
qed

section \<open>Properties\<close>


definition demo_intent :: OrderIntent where
  "demo_intent = \<lparr>int_accountId = 7, int_side = Buy, int_symbol = [], int_price = 100, int_quantity = 5\<rparr>"


text \<open>When price times quantity fits in 64 bits, \<^verbatim>\<open>RiskManager::check\<close> accepts an intent
  exactly when price and quantity are positive, the quantity, the true order value and the
  resulting position are within their limits.\<close>

lemma risk_check_exact:
  assumes "int_price intent * int (unat (int_quantity intent)) < 2 ^ 64"
  shows "risk_check ps intent = Accepted \<longleftrightarrow>
    0 < int_price intent \<and> 0 < int_quantity intent \<and> unat (int_quantity intent) \<le> 100000 \<and>
    int_price intent * int (unat (int_quantity intent)) \<le> 10000000 \<and>
    \<bar>moved (int_side intent) (int_quantity intent) (risk_pos ps (int_accountId intent))\<bar> \<le> 500"
proof -
  have "orderValue intent \<le> MaxOrderValue \<longleftrightarrow> int_price intent * int (unat (int_quantity intent)) \<le> 10000000"
    if "0 < int_price intent" "int_quantity intent \<noteq> 0"
  proof -
    let ?v = "int_price intent * int (unat (int_quantity intent))"
    have "orderValue intent = word_of_int ?v" by (simp only: orderValue_def ucast_eq wi_hom_mult uint_nat)
    then have "uint (orderValue intent) = ?v mod 2 ^ 64" by (simp only: uint_word_of_int len_of_numeral_defs) simp
    then have "uint (orderValue intent) = ?v"
      using assms that(1) by (simp add: mod_pos_pos_trivial)
    then show ?thesis by (simp add: word_le_def MaxOrderValue_def)
  qed
  then show ?thesis
    unfolding risk_check_Accepted
    by (auto simp: MaxOrderQuantity_def MaxPosition_def word_le_nat_alt word_gt_0)
qed


text \<open>A price beyond the level array, on an empty book, makes the engine index out of bounds.\<close>

lemma submitOrder_outside_book:
  assumes "int MaxPriceLevels \<le> price" "price < 2 ^ 63"
  shows "submitOrder a s price q (new_engine h base) = None"
proof -
  have idle: "idle (\<lambda>_ _. []) (new_engine h base)" using new_engine_inv by (simp add: engine_inv_def)
  obtain p e1 where p: "prepareOrder a s price q (new_engine h base) = Some (Some p, e1)" "mid p (\<lambda>_ _. []) e1"
    "eng_heap e1 = h(p := new_order 1001 a s price q)"
  proof (rule prepareOrder_ok[OF idle, of a s price q])
    fix p e1
    assume "prepareOrder a s price q (new_engine h base) = Some (Some p, e1)" "mid p (\<lambda>_ _. []) e1"
      "eng_heap e1 = (eng_heap (new_engine h base))(p := new_order (eng_seq (new_engine h base) + 1) a s price q)"
    then show thesis using that by (simp add: new_engine_def)
  qed (simp_all add: DefaultOrderCapacity_def new_engine_def)
  have "canCross p e1 = Some False"
    using canCross_eq[OF p(2), of s] by (simp add: p(3) new_order_def plist_def levels_by_def)
  moreover have "getLevel s price = None"
    using assms by (cases s) (simp_all add: getLevel_def priceToIndex_def MaxPriceLevels_def)
  then have "addOrder p (eng_heap e1, eng_book e1) = None" by (simp add: addOrder_def p(3) new_order_def Let_def)
  ultimately show ?thesis using p(1) by (simp add: submitOrder_def process_def book_add_def)
qed

text \<open>The risk limits do not imply the book's: an intent of one share at a price of
  200000 passes every check and makes the engine index its level array out of bounds.\<close>

lemma gateway_price_outside_book:
  "let intent = \<lparr>int_accountId = a, int_side = Buy, int_symbol = symb, int_price = 200000, int_quantity = 1\<rparr>
   in risk_check Map.empty intent = Accepted \<and>
      gateway_submit engine_sink intent (Map.empty, new_engine h base) = None"
proof -
  let ?i = "\<lparr>int_accountId = a, int_side = Buy, int_symbol = symb, int_price = 200000, int_quantity = 1\<rparr>"
  have ok: "risk_check Map.empty ?i = Accepted"
    by (simp add: risk_check_def MaxOrderQuantity_def MaxOrderValue_def MaxPosition_def moved_def
        risk_pos_def orderValue_def)
  have "engine_sink ?i (new_engine h base) = None"
    by (simp add: engine_sink_def submitOrder_outside_book MaxPriceLevels_def)
  with ok show ?thesis by (simp add: gateway_submit_def Let_def)
qed

end
