(* ===== verification/ExchangeHandler.thy ===== *)
theory ExchangeHandler
  imports OuchProtocol TradeListeners RiskGateway
begin

text \<open>
  The exchange behind its connections: the map from exchange order identifiers to the client's
  reference numbers (\<^verbatim>\<open>exchange/exchange_order_session_map.hpp\<close>), the listener that turns trades into
  \<^verbatim>\<open>Executed\<close> responses (\<^verbatim>\<open>exchange_execution_listener.cpp\<close>) and the handler of an \<^verbatim>\<open>EnterOrder\<close> message
  (\<^verbatim>\<open>exchange_ouch_handler.cpp\<close>).  The handler's state is the matching engine and the map, which it
  holds by reference.  The invariant is \<open>registered\<close>: every order in the book has a reference number.
\<close>

section \<open>Session map\<close>

type_synonym session_map = "OrderId \<rightharpoonup> UserRefNum"

definition registerOrder :: "OrderId \<Rightarrow> UserRefNum \<Rightarrow> session_map \<Rightarrow> session_map" where
  "registerOrder orderId userRefNum m = m(orderId \<mapsto> userRefNum)"

definition session_find :: "session_map \<Rightarrow> OrderId \<Rightarrow> UserRefNum option" where
  "session_find m orderId = m orderId"

definition session_erase :: "OrderId \<Rightarrow> session_map \<Rightarrow> session_map" where
  "session_erase orderId m = m(orderId := None)"

section \<open>Executions\<close>

abbreviation ch_R :: u8 where "ch_R \<equiv> 82"

record ExecutionResponses =
  buyResponse :: "buffer option"
  sellResponse :: "buffer option"

definition executed_for :: "UserRefNum \<Rightarrow> Trade \<Rightarrow> Executed" where
  "executed_for userRef trade = \<lparr>ex_timestamp = 0, ex_userRefNum = userRef, ex_quantity = tr_quantity trade,
     ex_price = word_of_int (tr_price trade), ex_liquidityFlag = ch_R, ex_matchNumber = tr_sequence trade,
     ex_appendageLength = 0\<rparr>"

definition respond :: "session_map \<Rightarrow> OrderId \<Rightarrow> Trade \<Rightarrow> buffer option option" where
  "respond m orderId trade =
     (case session_find m orderId of
        None \<Rightarrow> Some None
      | Some userRef \<Rightarrow> map_option Some (encode_executed (executed_for userRef trade)))"

definition listener_onTrade :: "session_map \<Rightarrow> Trade \<Rightarrow> ExecutionResponses option" where
  "listener_onTrade m trade = do {
     buy \<leftarrow> respond m (tr_buy_order_id trade) trade;
     sell \<leftarrow> respond m (tr_sell_order_id trade) trade;
     Some \<lparr>buyResponse = buy, sellResponse = sell\<rparr>
   }"

section \<open>Order entry\<close>

definition accepted_for :: "EnterOrder \<Rightarrow> OrderId \<Rightarrow> Accepted" where
  "accepted_for enterOrder orderId = \<lparr>ac_timestamp = 0, ac_userRefNum = eo_userRefNum enterOrder,
     ac_side = eo_side enterOrder, ac_quantity = eo_quantity enterOrder, ac_symbol = eo_symbol enterOrder,
     ac_price = eo_price enterOrder, ac_timeInForce = eo_timeInForce enterOrder, ac_display = eo_display enterOrder,
     ac_orderReferenceNumber = orderId, ac_capacity = eo_capacity enterOrder,
     ac_isoEligibility = eo_isoEligibility enterOrder, ac_crossType = eo_crossType enterOrder,
     ac_orderState = OrderState_Live, ac_clOrdId = eo_clOrdId enterOrder, ac_appendageLength = 0\<rparr>"

type_synonym exchange = "engine \<times> session_map"

definition handleEnterOrder ::
  "AccountId \<Rightarrow> buffer \<Rightarrow> cptr \<Rightarrow> nat \<Rightarrow> exchange \<Rightarrow> (buffer option \<times> exchange) option" where
  "handleEnterOrder accountId buf data len = (\<lambda>(e, m). do {
     decoded \<leftarrow> decodeEnterOrder buf data len;
     (case decoded of
        None \<Rightarrow> Some (None, e, m)
      | Some enterOrder \<Rightarrow> do {
          (order, e1) \<leftarrow> prepareOrder accountId (eo_side enterOrder) (sint (eo_price enterOrder))
            (eo_quantity enterOrder) e;
          (case order of
             None \<Rightarrow> Some (None, e1, m)
           | Some p \<Rightarrow> do {
               let orderId = ord_id (eng_heap e1 p);
               let m1 = registerOrder orderId (eo_userRefNum enterOrder) m;
               e2 \<leftarrow> process (Some p) e1;
               response \<leftarrow> encode_accepted (accepted_for enterOrder orderId);
               Some (Some response, e2, m1)
             })
        })
   })"

section \<open>Registration\<close>

definition registered :: "queues \<Rightarrow> engine \<Rightarrow> session_map \<Rightarrow> bool" where
  "registered Q e m \<longleftrightarrow> (\<forall>p\<in>live Q. session_find m (ord_id (eng_heap e p)) \<noteq> None)"

lemma fill_rest_ids:
  "fill cr rs q = (fs, rs', q') \<Longrightarrow> rs_id ` set rs' \<subseteq> rs_id ` set rs \<and> fst ` set fs \<subseteq> set rs"
proof (induction rs arbitrary: q fs)
  case (Cons r rs)
  show ?case
  proof (cases "q = 0 \<or> \<not> cr r \<or> q < rs_qty r")
    case True
    with Cons.prems show ?thesis by (auto split: if_splits)
  next
    case False
    then obtain fs' where f: "fill cr rs (q - rs_qty r) = (fs', rs', q')" "fs = (r, rs_qty r) # fs'"
      using Cons.prems by (auto split: prod.splits)
    show ?thesis using Cons.IH[OF f(1)] f(2) by auto
  qed
qed auto

lemma fill_trades_ids:
  "t \<in> set (fill_trades s oid acc n fs) \<Longrightarrow>
   {tr_buy_order_id t, tr_sell_order_id t} \<subseteq> insert oid (rs_id ` fst ` set fs)"
  by (induction fs arbitrary: n) (auto simp: fill_trade_def)

text \<open>After a submission the book holds orders it held before and possibly the new one, and the
  trades are between the new order and orders the book held.\<close>

lemma outcome_ids:
  assumes inv: "engine_inv Q e" "engine_inv Q' e'"
    and out: "outcome oid acc s i Q e Q' e' (fill cr (map (view (eng_heap e)) (plist Q (opposite s))) q)"
  obtains ts where "(\<lambda>p. ord_id (eng_heap e' p)) ` live Q' \<subseteq> insert oid ((\<lambda>p. ord_id (eng_heap e p)) ` live Q)"
    "eng_trades e' = eng_trades e @ ts"
    "\<And>t. t \<in> set ts \<Longrightarrow>
      {tr_buy_order_id t, tr_sell_order_id t} \<subseteq> insert oid ((\<lambda>p. ord_id (eng_heap e p)) ` live Q)"
proof -
  let ?I = "(\<lambda>p. ord_id (eng_heap e p)) ` live Q"
  obtain fs rs q' where f: "fill cr (map (view (eng_heap e)) (plist Q (opposite s))) q = (fs, rs, q')"
    by (metis prod_cases3)
  have vid: "rs_id (view h p) = ord_id (h p)" for h p by (simp add: view_def)
  have O: "eng_trades e' = eng_trades e @ fill_trades s oid acc oid fs"
    "map (view (eng_heap e')) (plist Q' (opposite s)) = rs"
    "\<And>j. map (view (eng_heap e')) (Q' s j) = map (view (eng_heap e)) (Q s j) @
        (if j = i \<and> q' \<noteq> 0 then [\<lparr>rs_id = oid, rs_account = acc, rs_price = int i, rs_qty = q'\<rparr>] else [])"
    using out unfolding f outcome_def by simp_all
  have resting: "rs_id ` set (map (view (eng_heap e)) (plist Q (opposite s))) \<subseteq> ?I"
  proof -
    have "set (plist Q (opposite s)) \<subseteq> live Q"
      using set_plist[OF engine_invD(1)[OF inv(1)], of "opposite s"] by (auto simp: live_def)
    then show ?thesis by (simp add: image_image vid image_mono)
  qed
  have fr: "rs_id ` set rs \<subseteq> ?I" "rs_id ` fst ` set fs \<subseteq> ?I"
    using fill_rest_ids[OF f] resting by blast+
  have "ord_id (eng_heap e' p) \<in> insert oid ?I" if p: "p \<in> set (Q' s' j)" for s' j p
  proof (cases "s' = s")
    case True
    then have "view (eng_heap e') p \<in> set (map (view (eng_heap e')) (Q' s j))" using p by simp
    then consider x where "x \<in> set (Q s j)" "view (eng_heap e') p = view (eng_heap e) x"
      | "rs_id (view (eng_heap e') p) = oid"
      unfolding O(3) by (auto split: if_splits)
    then show ?thesis
    proof cases
      case (1 x)
      then have "ord_id (eng_heap e' p) = ord_id (eng_heap e x)" by (metis vid)
      then show ?thesis using liveI[of x Q s j, OF 1(1)] by blast
    qed (simp add: vid)
  next
    case False
    then have "s' = opposite s" by (cases s; cases s') auto
    then have "p \<in> set (plist Q' (opposite s))" using p set_plist[OF engine_invD(1)[OF inv(2)]] by blast
    then have "view (eng_heap e') p \<in> set rs" unfolding O(2)[symmetric] by simp
    from imageI[OF this, of rs_id] show ?thesis unfolding vid using fr(1) by blast
  qed
  then have "(\<lambda>p. ord_id (eng_heap e' p)) ` live Q' \<subseteq> insert oid ?I" by (auto simp: live_def)
  moreover have "{tr_buy_order_id t, tr_sell_order_id t} \<subseteq> insert oid ?I"
    if "t \<in> set (fill_trades s oid acc oid fs)" for t
    using fill_trades_ids[OF that] fr(2) by blast
  ultimately show ?thesis using that[of "fill_trades s oid acc oid fs"] O(1) by blast
qed

lemma respond_registered:
  assumes "session_find m oid = Some ref"
  shows "respond m oid t = Some (Some (executed_bytes (executed_for ref t)))"
  using assms by (simp add: respond_def encode_executed_bytes)

lemma executed_decodes:
  "response_dispatch (executed_bytes (executed_for ref t)) (Some 0) (length (executed_bytes (executed_for ref t))) =
     Some (Some (RExecuted (executed_for ref t)))"
  using dispatch_response[of "RExecuted (executed_for ref t)" "[]"] by (simp add: executed_for_def)

lemma accepted_decodes:
  assumes "length (eo_symbol eo) = 8" "length (eo_clOrdId eo) = 14"
  shows "response_dispatch (accepted_bytes (accepted_for eo oid)) (Some 0) (length (accepted_bytes (accepted_for eo oid))) =
     Some (Some (RAccepted (accepted_for eo oid)))"
  using dispatch_response[of "RAccepted (accepted_for eo oid)" "[]"] assms by (simp add: accepted_for_def)

text \<open>The handler registers before it matches, but otherwise submits.\<close>

lemma handle_submits:
  assumes "decodeEnterOrder buf data len = Some (Some eo)" "length (eo_symbol eo) = 8" "length (eo_clOrdId eo) = 14"
    and "submitOrder acc (eo_side eo) (sint (eo_price eo)) (eo_quantity eo) e = Some (oid, e')"
    and "prepareOrder acc (eo_side eo) (sint (eo_price eo)) (eo_quantity eo) e = Some (Some p, e1)"
  shows "handleEnterOrder acc buf data len (e, m) =
    Some (Some (accepted_bytes (accepted_for eo oid)), e', registerOrder oid (eo_userRefNum eo) m)"
proof -
  have enc: "encode_accepted (accepted_for eo k) = Some (accepted_bytes (accepted_for eo k))" for k
    using assms(2,3) by (intro encode_accepted_bytes) (simp_all add: accepted_for_def)
  show ?thesis
    using assms(1,4) by (auto simp: handleEnterOrder_def submitOrder_def assms(5) enc Let_def bind_eq_Some_conv)
qed

text \<open>A trade all of whose parties are registered yields a decodable response for each.\<close>

definition both_informed :: "session_map \<Rightarrow> Trade \<Rightarrow> bool" where
  "both_informed m t \<longleftrightarrow> (\<exists>b s rb rs. listener_onTrade m t = Some \<lparr>buyResponse = Some b, sellResponse = Some s\<rparr> \<and>
     session_find m (tr_buy_order_id t) = Some rb \<and> session_find m (tr_sell_order_id t) = Some rs \<and>
     response_dispatch b (Some 0) (length b) = Some (Some (RExecuted (executed_for rb t))) \<and>
     response_dispatch s (Some 0) (length s) = Some (Some (RExecuted (executed_for rs t))))"

lemma both_informedI:
  assumes "session_find m (tr_buy_order_id t) \<noteq> None" "session_find m (tr_sell_order_id t) \<noteq> None"
  shows "both_informed m t"
proof -
  obtain rb rs where r: "session_find m (tr_buy_order_id t) = Some rb" "session_find m (tr_sell_order_id t) = Some rs"
    using assms by blast
  show ?thesis
    unfolding both_informed_def listener_onTrade_def respond_registered[OF r(1)] respond_registered[OF r(2)]
    using r executed_decodes by auto
qed

text \<open>The handler on a valid message, with room in the pool.\<close>

lemma handle_enter:
  assumes "engine_inv Q e" "card (live Q) < DefaultOrderCapacity"
    "length (eo_symbol eo) = 8" "length (eo_clOrdId eo) = 14" "eo_appendageLength eo = 0"
    "sint (eo_price eo) = int i" "0 < i" "i < MaxPriceLevels" "0 < eo_quantity eo"
    "unat (eng_seq e) + DefaultOrderCapacity < 2 ^ 64"
  shows "\<exists>Q' e'. submitOrder acc (eo_side eo) (int i) (eo_quantity eo) e = Some (eng_seq e + 1, e') \<and> engine_inv Q' e' \<and>
    outcome (eng_seq e + 1) acc (eo_side eo) i Q e Q' e'
      (fill (crosses (eo_side eo) (int i)) (map (view (eng_heap e)) (plist Q (opposite (eo_side eo)))) (eo_quantity eo)) \<and>
    handleEnterOrder acc (enter_bytes eo) (Some 0) 47 (e, m) =
      Some (Some (accepted_bytes (accepted_for eo (eng_seq e + 1))), e', m(eng_seq e + 1 \<mapsto> eo_userRefNum eo))"
proof -
  let ?oid = "eng_seq e + 1"
  obtain Q' e' where s: "submitOrder acc (eo_side eo) (int i) (eo_quantity eo) e = Some (?oid, e')" "engine_inv Q' e'"
    "outcome ?oid acc (eo_side eo) i Q e Q' e'
      (fill (crosses (eo_side eo) (int i)) (map (view (eng_heap e)) (plist Q (opposite (eo_side eo)))) (eo_quantity eo))"
    using submitOrder_ok[OF assms(1,2,7-10)] by blast
  have w1: "unat (eng_seq e) + 1 < 2 ^ 64" using assms(10) by (simp add: DefaultOrderCapacity_def)
  obtain p e1 where p: "prepareOrder acc (eo_side eo) (int i) (eo_quantity eo) e = Some (Some p, e1)"
    using prepareOrder_ok[of Q e acc "eo_side eo" "int i" "eo_quantity eo", OF _ assms(2) w1] assms(1)
    unfolding engine_inv_def by metis
  have eo: "eo\<lparr>eo_appendageLength := 0\<rparr> = eo" using assms(5) by (cases eo) simp
  have d: "decodeEnterOrder (enter_bytes eo) (Some 0) 47 = Some (Some eo)"
    using decode_enter[OF assms(3,4), of "[]"] by (simp add: eo)
  have "handleEnterOrder acc (enter_bytes eo) (Some 0) 47 (e, m) =
      Some (Some (accepted_bytes (accepted_for eo ?oid)), e', m(?oid \<mapsto> eo_userRefNum eo))"
    using handle_submits[OF d assms(3,4), of acc e ?oid e' p e1 m] s(1) p by (simp add: assms(6) registerOrder_def)
  with s show ?thesis by blast
qed

definition enter_demo :: EnterOrder where
  "enter_demo = \<lparr>eo_userRefNum = 77, eo_side = Buy, eo_quantity = 10, eo_symbol = replicate 8 ch_A, eo_price = 500,
     eo_timeInForce = TIF_Day, eo_display = Display_Visible, eo_capacity = Capacity_Agency,
     eo_isoEligibility = Iso_NotEligible, eo_crossType = Cross_ContinuousMarket, eo_clOrdId = replicate 14 0,
     eo_appendageLength = 0\<rparr>"

lemma enter_demo_fields:
  "length (eo_symbol enter_demo) = 8" "length (eo_clOrdId enter_demo) = 14" "eo_appendageLength enter_demo = 0"
  "sint (eo_price enter_demo) = int 500" "0 < eo_quantity enter_demo" "length (enter_bytes enter_demo) = 47"
  by (simp_all add: enter_demo_def enter_bytes_def)

lemma handle_demo:
  "\<exists>e'. handleEnterOrder acc (enter_bytes enter_demo) (Some 0) 47 (new_engine demo_heap 16, m) =
     Some (Some (accepted_bytes (accepted_for enter_demo 1001)), e', m(1001 \<mapsto> 77))"
proof -
  have seq: "eng_seq (new_engine demo_heap 16) = 1000" by (simp add: new_engine_def)
  have ref: "eo_userRefNum enter_demo = 77" by (simp add: enter_demo_def)
  show ?thesis
    using handle_enter[OF new_engine_inv[of demo_heap 16] _ enter_demo_fields(1-4) _ _ enter_demo_fields(5), of acc m]
    by (auto simp: seq ref MaxPriceLevels_def DefaultOrderCapacity_def)
qed

section \<open>Properties\<close>



text \<open>C38. The handler passes the price of the message to the engine unchecked: one well-formed 47-byte
  message with a price beyond the level array makes the engine access memory out of bounds.\<close>

theorem exchange_price_outside_book:
  assumes "length (eo_symbol eo) = 8" "length (eo_clOrdId eo) = 14" "int MaxPriceLevels \<le> sint (eo_price eo)"
  shows "handleEnterOrder acc (enter_bytes eo) (Some 0) 47 (new_engine h base, m) = None"
proof -
  have "decodeEnterOrder (enter_bytes eo) (Some 0) 47 = Some (Some (eo\<lparr>eo_appendageLength := 0\<rparr>))"
    using decode_enter[OF assms(1,2), of "[]"] by simp
  moreover have s: "submitOrder acc (eo_side eo) (sint (eo_price eo)) (eo_quantity eo) (new_engine h base) = None"
    using sint_lt[of "eo_price eo"] by (intro submitOrder_outside_book[OF assms(3)]) simp
  moreover have "prepareOrder acc (eo_side eo) (sint (eo_price eo)) (eo_quantity eo) (new_engine h base) = None \<or>
      (\<exists>p e1. prepareOrder acc (eo_side eo) (sint (eo_price eo)) (eo_quantity eo) (new_engine h base) = Some (Some p, e1) \<and>
         process (Some p) e1 = None)"
  proof (cases "prepareOrder acc (eo_side eo) (sint (eo_price eo)) (eo_quantity eo) (new_engine h base)")
    case (Some r)
    then show ?thesis
      using s by (cases r; cases "fst r") (simp_all add: submitOrder_def Let_def bind_eq_None_conv)
  qed simp
  ultimately show ?thesis by (auto simp: handleEnterOrder_def Let_def)
qed

theorem exchange_price_outside_book_witness:
  "handleEnterOrder 1001 (enter_bytes (enter_demo\<lparr>eo_price := 100000\<rparr>)) (Some 0) 47 (new_engine demo_heap 16, Map.empty) = None"
  by (rule exchange_price_outside_book) (simp_all add: enter_demo_def MaxPriceLevels_def)

end
