(* ===== verification/OuchClient.thy ===== *)
theory OuchClient
  imports OuchProtocol RiskGateway
begin

text \<open>
  The client side of order entry: the TCP and TLS transports
  (\<^verbatim>\<open>execution/ouch/tcp_ouch_transport.cpp\<close>, \<^verbatim>\<open>tls_ouch_transport.cpp\<close>), the recording transport of
  \<^verbatim>\<open>apps/trading_runtime.cpp\<close> and the execution sink that turns an intent into an OUCH order
  (\<^verbatim>\<open>ouch_execution_sink.cpp\<close>).

  The operating system and OpenSSL are parameters: a transport's state holds the results that the
  successive calls will give.  A call with no result left does not return, and neither does the
  operation (\<open>None\<close>).  A positive result \<open>n\<close> of a send has put the first \<open>n\<close> of the offered bytes on
  the connection; a positive result of a receive comes with that many bytes.  The locale
  \<open>ouch_transport\<close> states what the sink relies on; all three transports are instances of it.
\<close>

section \<open>TCP\<close>

text \<open>A result of \<^verbatim>\<open>::send\<close>: the return value and whether \<^verbatim>\<open>errno\<close> is \<^verbatim>\<open>EINTR\<close>; of \<^verbatim>\<open>::recv\<close>: the same
  and the bytes.\<close>

type_synonym send_reply = "int \<times> bool"
type_synonym recv_reply = "int \<times> bool \<times> u8 list"

datatype os_event = OpenSocket int | CloseSocket int | OpenContext | FreeContext | OpenSsl | FreeSsl

record tcp_transport =
  tcp_fd :: int
  tcp_replies :: "send_reply list"
  tcp_incoming :: "recv_reply list"
  tcp_wire :: "u8 list"
  tcp_events :: "os_event list"

record tcp_connect_results =
  res_socket :: int
  res_pton :: int
  res_connect :: int

definition tcp_isConnected :: "tcp_transport \<Rightarrow> bool" where
  "tcp_isConnected t \<longleftrightarrow> tcp_fd t \<ge> 0"

definition tcp_close :: "tcp_transport \<Rightarrow> tcp_transport" where
  "tcp_close t =
     (if tcp_fd t \<ge> 0 then t\<lparr>tcp_events := tcp_events t @ [CloseSocket (tcp_fd t)], tcp_fd := -1\<rparr> else t)"

definition tcp_connect :: "tcp_connect_results \<Rightarrow> tcp_transport \<Rightarrow> bool \<times> tcp_transport" where
  "tcp_connect r t =
     (if tcp_isConnected t then (True, t)
      else let t1 = t\<lparr>tcp_fd := res_socket r\<rparr>
           in if tcp_fd t1 < 0 then (False, t1)
              else let t2 = t1\<lparr>tcp_events := tcp_events t1 @ [OpenSocket (tcp_fd t1)]\<rparr>
                   in if res_pton r \<noteq> 1 then (False, tcp_close t2)
                      else if res_connect r < 0 then (False, tcp_close t2)
                      else (True, t2))"

fun tcp_send_loop ::
  "send_reply list \<Rightarrow> u8 list \<Rightarrow> nat \<Rightarrow> u8 list \<Rightarrow> (bool \<times> send_reply list \<times> u8 list) option" where
  "tcp_send_loop [] data totalSent wire = (if totalSent < length data then None else Some (True, [], wire))"
| "tcp_send_loop ((sent, eintr) # rs) data totalSent wire =
     (if \<not> totalSent < length data then Some (True, (sent, eintr) # rs, wire)
      else if sent > 0
        then tcp_send_loop rs data (totalSent + nat sent) (wire @ take (nat sent) (drop totalSent data))
      else if sent < 0 \<and> eintr then tcp_send_loop rs data totalSent wire
      else Some (False, rs, wire))"

definition tcp_send :: "u8 list option \<Rightarrow> tcp_transport \<Rightarrow> (bool \<times> tcp_transport) option" where
  "tcp_send data t =
     (if \<not> tcp_isConnected t then Some (False, t)
      else case data of
        None \<Rightarrow> Some (False, t)
      | Some d \<Rightarrow> map_option (\<lambda>(ok, rs, wire). (ok, t\<lparr>tcp_replies := rs, tcp_wire := wire\<rparr>))
          (tcp_send_loop (tcp_replies t) d 0 (tcp_wire t)))"

fun tcp_recv_loop ::
  "recv_reply list \<Rightarrow> nat \<Rightarrow> nat \<Rightarrow> u8 list \<Rightarrow> (bool \<times> recv_reply list \<times> u8 list) option" where
  "tcp_recv_loop [] len totalReceived data = (if totalReceived < len then None else Some (True, [], data))"
| "tcp_recv_loop ((received, eintr, bs) # rs) len totalReceived data =
     (if \<not> totalReceived < len then Some (True, (received, eintr, bs) # rs, data)
      else if received > 0 then tcp_recv_loop rs len (totalReceived + nat received) (data @ bs)
      else if received < 0 \<and> eintr then tcp_recv_loop rs len totalReceived data
      else Some (False, rs, data))"

definition tcp_receive :: "bool \<Rightarrow> nat \<Rightarrow> tcp_transport \<Rightarrow> (bool \<times> u8 list \<times> tcp_transport) option" where
  "tcp_receive data_null len t =
     (if \<not> tcp_isConnected t \<or> data_null then Some (False, [], t)
      else map_option (\<lambda>(ok, rs, data). (ok, data, t\<lparr>tcp_incoming := rs\<rparr>))
        (tcp_recv_loop (tcp_incoming t) len 0 []))"

section \<open>TLS\<close>

record tls_transport =
  tls_fd :: int
  tls_ssl :: bool
  tls_context :: bool
  tls_replies :: "int list"
  tls_incoming :: "(int \<times> u8 list) list"
  tls_wire :: "u8 list"
  tls_events :: "os_event list"

text \<open>Results of the calls \<^verbatim>\<open>connect\<close> makes: non-null pointers as \<open>True\<close>, the rest as returned.\<close>

record tls_connect_results =
  res_ctx :: bool
  res_load_ca :: int
  res_tls_socket :: int
  res_tls_pton :: int
  res_tls_connect :: int
  res_ssl :: bool
  res_set_fd :: int
  res_param :: bool
  res_set_ip :: int
  res_handshake :: int
  res_verify_ok :: bool

definition tls_isConnected :: "tls_transport \<Rightarrow> bool" where
  "tls_isConnected t \<longleftrightarrow> tls_fd t \<ge> 0 \<and> tls_ssl t"

definition tls_close :: "tls_transport \<Rightarrow> tls_transport" where
  "tls_close t = (
     let t1 = (if tls_ssl t then t\<lparr>tls_events := tls_events t @ [FreeSsl], tls_ssl := False\<rparr> else t);
         t2 = (if tls_fd t1 \<ge> 0 then t1\<lparr>tls_events := tls_events t1 @ [CloseSocket (tls_fd t1)], tls_fd := -1\<rparr> else t1)
     in if tls_context t2 then t2\<lparr>tls_events := tls_events t2 @ [FreeContext], tls_context := False\<rparr> else t2)"

definition tls_open_context :: "tls_connect_results \<Rightarrow> tls_transport \<Rightarrow> tls_transport" where
  "tls_open_context r t =
     t\<lparr>tls_context := res_ctx r, tls_events := tls_events t @ (if res_ctx r then [OpenContext] else [])\<rparr>"

definition tls_open_socket :: "tls_connect_results \<Rightarrow> tls_transport \<Rightarrow> tls_transport" where
  "tls_open_socket r t =
     t\<lparr>tls_fd := res_tls_socket r,
       tls_events := tls_events t @ (if res_tls_socket r \<ge> 0 then [OpenSocket (res_tls_socket r)] else [])\<rparr>"

definition tls_open_ssl :: "tls_connect_results \<Rightarrow> tls_transport \<Rightarrow> tls_transport" where
  "tls_open_ssl r t = t\<lparr>tls_ssl := res_ssl r, tls_events := tls_events t @ (if res_ssl r then [OpenSsl] else [])\<rparr>"

definition tls_connect :: "tls_connect_results \<Rightarrow> tls_transport \<Rightarrow> bool \<times> tls_transport" where
  "tls_connect r t =
     (if tls_isConnected t then (True, t)
      else let t1 = tls_open_context r t
      in if \<not> tls_context t1 then (False, t1)
      else if res_load_ca r \<noteq> 1 then (False, tls_close t1)
      else let t2 = tls_open_socket r t1
      in if tls_fd t2 < 0 then (False, tls_close t2)
      else if res_tls_pton r \<noteq> 1 then (False, tls_close t2)
      else if res_tls_connect r < 0 then (False, tls_close t2)
      else let t3 = tls_open_ssl r t2
      in if \<not> tls_ssl t3 then (False, tls_close t3)
      else if res_set_fd r \<noteq> 1 then (False, tls_close t3)
      else if \<not> res_param r then (False, tls_close t3)
      else if res_set_ip r \<noteq> 1 then (False, tls_close t3)
      else if res_handshake r \<noteq> 1 then (False, tls_close t3)
      else if \<not> res_verify_ok r then (False, tls_close t3)
      else (True, t3))"

fun tls_send_loop :: "int list \<Rightarrow> u8 list \<Rightarrow> nat \<Rightarrow> u8 list \<Rightarrow> (bool \<times> int list \<times> u8 list) option" where
  "tls_send_loop [] data totalSent wire = (if totalSent < length data then None else Some (True, [], wire))"
| "tls_send_loop (sent # rs) data totalSent wire =
     (if \<not> totalSent < length data then Some (True, sent # rs, wire)
      else if sent \<le> 0 then Some (False, rs, wire)
      else tls_send_loop rs data (totalSent + nat sent) (wire @ take (nat sent) (drop totalSent data)))"

definition tls_send :: "u8 list option \<Rightarrow> tls_transport \<Rightarrow> (bool \<times> tls_transport) option" where
  "tls_send data t =
     (if \<not> tls_isConnected t then Some (False, t)
      else case data of
        None \<Rightarrow> Some (False, t)
      | Some d \<Rightarrow> map_option (\<lambda>(ok, rs, wire). (ok, t\<lparr>tls_replies := rs, tls_wire := wire\<rparr>))
          (tls_send_loop (tls_replies t) d 0 (tls_wire t)))"

fun tls_recv_loop ::
  "(int \<times> u8 list) list \<Rightarrow> nat \<Rightarrow> nat \<Rightarrow> u8 list \<Rightarrow> (bool \<times> (int \<times> u8 list) list \<times> u8 list) option" where
  "tls_recv_loop [] len totalReceived data = (if totalReceived < len then None else Some (True, [], data))"
| "tls_recv_loop ((received, bs) # rs) len totalReceived data =
     (if \<not> totalReceived < len then Some (True, (received, bs) # rs, data)
      else if received \<le> 0 then Some (False, rs, data)
      else tls_recv_loop rs len (totalReceived + nat received) (data @ bs))"

definition tls_receive :: "bool \<Rightarrow> nat \<Rightarrow> tls_transport \<Rightarrow> (bool \<times> u8 list \<times> tls_transport) option" where
  "tls_receive data_null len t =
     (if \<not> tls_isConnected t \<or> data_null then Some (False, [], t)
      else map_option (\<lambda>(ok, rs, data). (ok, data, t\<lparr>tls_incoming := rs\<rparr>))
        (tls_recv_loop (tls_incoming t) len 0 []))"

section \<open>Recording transport\<close>

text \<open>\<open>rec_log\<close> is a history of everything recorded; the code keeps the last message only.\<close>

record recording_transport =
  rec_buffer :: "u8 list"
  rec_lastLength :: nat
  rec_sent :: bool
  rec_log :: "u8 list"

definition recording_send :: "u8 list option \<Rightarrow> recording_transport \<Rightarrow> (bool \<times> recording_transport) option" where
  "recording_send data t =
     (case data of
        None \<Rightarrow> None
      | Some d \<Rightarrow>
          if length d > length (rec_buffer t) then Some (False, t)
          else Some (True, t\<lparr>rec_buffer := d @ drop (length d) (rec_buffer t), rec_lastLength := length d,
            rec_sent := True, rec_log := rec_log t @ d\<rparr>))"

section \<open>Execution sink\<close>

record 't ouch_sink =
  nextUserRef :: UserRefNum
  transport :: 't

definition nextUserRefNum :: "'t ouch_sink \<Rightarrow> UserRefNum \<times> 't ouch_sink" where
  "nextUserRefNum s = (nextUserRef s, s\<lparr>nextUserRef := nextUserRef s + 1\<rparr>)"

definition intent_order :: "UserRefNum \<Rightarrow> OrderIntent \<Rightarrow> EnterOrder" where
  "intent_order ref intent = \<lparr>eo_userRefNum = ref, eo_side = int_side intent, eo_quantity = int_quantity intent,
     eo_symbol = int_symbol intent, eo_price = word_of_int (int_price intent), eo_timeInForce = TIF_Day,
     eo_display = Display_Visible, eo_capacity = Capacity_Agency, eo_isoEligibility = Iso_NotEligible,
     eo_crossType = Cross_ContinuousMarket, eo_clOrdId = replicate 14 0, eo_appendageLength = 0\<rparr>"

definition ouch_sink_submit ::
  "(u8 list option \<Rightarrow> 't \<Rightarrow> (bool \<times> 't) option) \<Rightarrow> OrderIntent \<Rightarrow> 't ouch_sink \<Rightarrow> (bool \<times> 't ouch_sink) option" where
  "ouch_sink_submit send intent s = do {
     let (ref, s1) = nextUserRefNum s;
     buffer \<leftarrow> encode_enter (intent_order ref intent);
     (ok, t) \<leftarrow> send (Some buffer) (transport s1);
     Some (ok, s1\<lparr>transport := t\<rparr>)
   }"

section \<open>The transport contract\<close>

lemma take_extend: "take k data @ take n (drop k data) = take (k + n) data"
  by (simp add: take_add)

lemma tcp_send_loop_wire:
  assumes "tcp_send_loop rs data k wire = Some (ok, rs', wire')" "wire = w0 @ take k data"
  shows "\<exists>n. wire' = w0 @ take n data \<and> (ok \<longrightarrow> length data \<le> n)"
  using assms
proof (induction rs data k wire rule: tcp_send_loop.induct)
  case (2 sent eintr rs data k wire)
  show ?case
  proof (cases "k < length data \<and> 0 < sent")
    case True
    then show ?thesis using 2(1) 2(3,4) by (simp add: take_extend)
  next
    case False
    then show ?thesis using 2(2-4) by (cases "k < length data \<and> sent < 0 \<and> eintr") (auto intro: exI[of _ k] split: if_splits)
  qed
next
  case (1 data k wire)
  then show ?case by (intro exI[of _ k]) (auto split: if_splits)
qed

lemma tls_send_loop_wire:
  assumes "tls_send_loop rs data k wire = Some (ok, rs', wire')" "wire = w0 @ take k data"
  shows "\<exists>n. wire' = w0 @ take n data \<and> (ok \<longrightarrow> length data \<le> n)"
  using assms
proof (induction rs data k wire rule: tls_send_loop.induct)
  case (2 sent rs data k wire)
  show ?case
  proof (cases "k < length data \<and> 0 < sent")
    case True
    then show ?thesis using 2 by (simp add: take_extend)
  next
    case False
    then show ?thesis using 2(2,3) by (auto intro: exI[of _ k] split: if_splits)
  qed
next
  case (1 data k wire)
  then show ?case by (intro exI[of _ k]) (auto split: if_splits)
qed

text \<open>A send returns once the replies cover the message or report an error.\<close>

definition tcp_supplies :: "send_reply list \<Rightarrow> nat \<Rightarrow> bool" where
  "tcp_supplies rs n \<longleftrightarrow> n \<le> (\<Sum>r\<leftarrow>rs. nat (fst r)) \<or> (\<exists>r\<in>set rs. fst r = 0 \<or> fst r < 0 \<and> \<not> snd r)"

definition tls_supplies :: "int list \<Rightarrow> nat \<Rightarrow> bool" where
  "tls_supplies rs n \<longleftrightarrow> n \<le> (\<Sum>r\<leftarrow>rs. nat r) \<or> (\<exists>r\<in>set rs. r \<le> 0)"

lemma tcp_send_loop_returns:
  "tcp_supplies rs (length data - k) \<Longrightarrow> \<exists>r. tcp_send_loop rs data k wire = Some r"
proof (induction rs data k wire rule: tcp_send_loop.induct)
  case (2 sent eintr rs data k wire)
  have "tcp_supplies rs (length data - (k + nat sent))" if "0 < sent" "k < length data"
    using 2(3) that by (auto simp: tcp_supplies_def)
  moreover have "tcp_supplies rs (length data - k)" if "sent < 0" eintr
    using 2(3) that by (auto simp: tcp_supplies_def)
  ultimately show ?case using 2(1,2) by (auto simp: not_less)
qed (auto simp: tcp_supplies_def)

lemma tls_send_loop_returns:
  "tls_supplies rs (length data - k) \<Longrightarrow> \<exists>r. tls_send_loop rs data k wire = Some r"
proof (induction rs data k wire rule: tls_send_loop.induct)
  case (2 sent rs data k wire)
  have "tls_supplies rs (length data - (k + nat sent))" if "0 < sent" "k < length data"
    using 2(2) that by (auto simp: tls_supplies_def)
  then show ?case using 2(1) by (auto simp: not_le)
qed (auto simp: tls_supplies_def)

lemma tcp_send_returns: "tcp_supplies (tcp_replies t) (length data) \<Longrightarrow> \<exists>r. tcp_send (Some data) t = Some r"
  using tcp_send_loop_returns[of "tcp_replies t" data 0] by (auto simp: tcp_send_def) 

lemma tls_send_returns: "tls_supplies (tls_replies t) (length data) \<Longrightarrow> \<exists>r. tls_send (Some data) t = Some r"
  using tls_send_loop_returns[of "tls_replies t" data 0] by (auto simp: tls_send_def)

text \<open>A send puts a prefix of the message on the connection, the whole of it when it reports success.\<close>

locale ouch_transport =
  fixes send :: "u8 list option \<Rightarrow> 't \<Rightarrow> (bool \<times> 't) option"
    and stream :: "'t \<Rightarrow> u8 list"
  assumes send_stream: "send (Some data) t = Some (ok, t') \<Longrightarrow>
    \<exists>n. stream t' = stream t @ take n data \<and> (ok \<longrightarrow> length data \<le> n)"
begin

lemma send_true: "send (Some data) t = Some (True, t') \<Longrightarrow> stream t' = stream t @ data"
  using send_stream[of data t True t'] by auto

lemma submit_stream:
  assumes "length (int_symbol intent) = 8" "ouch_sink_submit send intent s = Some (ok, s')"
  shows "nextUserRef s' = nextUserRef s + 1"
    and "ok \<Longrightarrow> stream (transport s') = stream (transport s) @ enter_bytes (intent_order (nextUserRef s) intent)"
    and "\<exists>n. stream (transport s') =
      stream (transport s) @ take n (enter_bytes (intent_order (nextUserRef s) intent))"
proof -
  let ?b = "enter_bytes (intent_order (nextUserRef s) intent)"
  have enc: "encode_enter (intent_order (nextUserRef s) intent) = Some ?b"
    using assms(1) by (intro encode_enter_bytes) (simp_all add: intent_order_def)
  obtain t where t: "send (Some ?b) (transport s) = Some (ok, t)"
    "s' = s\<lparr>nextUserRef := nextUserRef s + 1, transport := t\<rparr>"
    using assms(2) enc by (auto simp: ouch_sink_submit_def nextUserRefNum_def split: bind_splits)
  show "nextUserRef s' = nextUserRef s + 1" by (simp add: t(2))
  show "\<exists>n. stream (transport s') = stream (transport s) @ take n ?b" using send_stream[OF t(1)] t(2) by auto
  assume ok
  with t(1) have "send (Some ?b) (transport s) = Some (True, t)" by simp
  from send_true[OF this] show "stream (transport s') = stream (transport s) @ ?b" by (simp add: t(2))
qed

end

interpretation tcp: ouch_transport tcp_send tcp_wire
proof
  fix data t ok t' assume "tcp_send (Some data) t = Some (ok, t')"
  then show "\<exists>n. tcp_wire t' = tcp_wire t @ take n data \<and> (ok \<longrightarrow> length data \<le> n)"
    using tcp_send_loop_wire[of "tcp_replies t" data 0 "tcp_wire t" ok _ _ "tcp_wire t"]
    by (auto simp: tcp_send_def split: if_splits)
qed

interpretation tls: ouch_transport tls_send tls_wire
proof
  fix data t ok t' assume "tls_send (Some data) t = Some (ok, t')"
  then show "\<exists>n. tls_wire t' = tls_wire t @ take n data \<and> (ok \<longrightarrow> length data \<le> n)"
    using tls_send_loop_wire[of "tls_replies t" data 0 "tls_wire t" ok _ _ "tls_wire t"]
    by (auto simp: tls_send_def split: if_splits)
qed

interpretation rec: ouch_transport recording_send rec_log
proof
  fix data t ok t' assume "recording_send (Some data) t = Some (ok, t')"
  then show "\<exists>n. rec_log t' = rec_log t @ take n data \<and> (ok \<longrightarrow> length data \<le> n)"
    by (auto simp: recording_send_def split: if_splits intro: exI[of _ "length data"])
qed

section \<open>Sequences of orders\<close>

fun submit_seq ::
  "(u8 list option \<Rightarrow> 't \<Rightarrow> (bool \<times> 't) option) \<Rightarrow> OrderIntent list \<Rightarrow> 't ouch_sink \<Rightarrow> (bool list \<times> 't ouch_sink) option" where
  "submit_seq send [] s = Some ([], s)"
| "submit_seq send (i # is) s = do {
     (ok, s1) \<leftarrow> ouch_sink_submit send i s;
     (oks, s2) \<leftarrow> submit_seq send is s1;
     Some (ok # oks, s2)
   }"

fun orders_from :: "UserRefNum \<Rightarrow> OrderIntent list \<Rightarrow> EnterOrder list" where
  "orders_from ref [] = []"
| "orders_from ref (i # is) = intent_order ref i # orders_from (ref + 1) is"

context ouch_transport
begin

lemma submit_seq_stream:
  assumes "\<forall>i\<in>set is. length (int_symbol i) = 8" "submit_seq send is s = Some (oks, s')" "False \<notin> set oks"
  shows "stream (transport s') = stream (transport s) @ concat (map enter_bytes (orders_from (nextUserRef s) is))"
  using assms
proof (induction "is" arbitrary: s oks)
  case (Cons i "is")
  from Cons.prems obtain ok s1 oks1 where s1: "ouch_sink_submit send i s = Some (ok, s1)"
    "submit_seq send is s1 = Some (oks1, s')" "oks = ok # oks1"
    by (auto split: bind_splits)
  then have sub: "nextUserRef s1 = nextUserRef s + 1"
    "stream (transport s1) = stream (transport s) @ enter_bytes (intent_order (nextUserRef s) i)"
    using submit_stream(1,2)[of i s ok s1] Cons.prems by auto
  have "stream (transport s') = stream (transport s1) @ concat (map enter_bytes (orders_from (nextUserRef s1) is))"
    by (rule Cons.IH[OF _ s1(2)]) (use Cons.prems s1(3) in auto)
  then show ?case by (simp add: sub)
qed simp

end

lemma length_orders_from [simp]: "length (orders_from ref is) = length is"
  by (induction "is" arbitrary: ref) auto

lemma orders_from_nth: "k < length is \<Longrightarrow> orders_from ref is ! k = intent_order (ref + of_nat k) (is ! k)"
proof (induction "is" arbitrary: ref k)
  case (Cons i "is")
  then show ?case by (cases k) (simp_all add: add.assoc)
qed simp

lemma orders_from_refs_distinct:
  assumes "length is \<le> 2 ^ 32"
  shows "distinct (map eo_userRefNum (orders_from ref is))"
proof -
  have "orders_from ref is ! j = intent_order (ref + of_nat j) (is ! j)" if "j < length is" for j
    using that by (rule orders_from_nth)
  moreover have "(of_nat i :: u32) \<noteq> of_nat j" if "i < length is" "j < length is" "i \<noteq> j" for i j
  proof -
    have "unat (of_nat i :: u32) = i" "unat (of_nat j :: u32) = j"
      using that assms by (simp_all only: unat_of_nat) simp_all
    with that show ?thesis by metis
  qed
  ultimately show ?thesis by (auto simp: distinct_conv_nth intent_order_def)
qed

section \<open>Properties\<close>

text \<open>C25. Orders on the connection: when every intent of a sequence was submitted successfully over
  TCP or TLS, however the operating system split the writes, the bytes sent are exactly the 47-byte
  OUCH messages of the intents, in order, and their reference numbers are distinct; and a send
  returns as soon as the replies cover the message or report an error.\<close>

theorem ouch_client_wire:
  assumes "\<forall>i\<in>set is. length (int_symbol i) = 8" "length is \<le> 2 ^ 32"
  shows "(submit_seq tcp_send is s = Some (oks, s') \<and> False \<notin> set oks \<longrightarrow>
      tcp_wire (transport s') = tcp_wire (transport s) @ concat (map enter_bytes (orders_from (nextUserRef s) is))) \<and>
    (submit_seq tls_send is u = Some (oks', u') \<and> False \<notin> set oks' \<longrightarrow>
      tls_wire (transport u') = tls_wire (transport u) @ concat (map enter_bytes (orders_from (nextUserRef u) is))) \<and>
    distinct (map eo_userRefNum (orders_from ref is)) \<and>
    (tcp_supplies (tcp_replies t) (length data) \<longrightarrow> (\<exists>r. tcp_send (Some data) t = Some r)) \<and>
    (tls_supplies (tls_replies t') (length data) \<longrightarrow> (\<exists>r. tls_send (Some data) t' = Some r))"
  using tcp.submit_seq_stream[OF assms(1)] tls.submit_seq_stream[OF assms(1)] orders_from_refs_distinct[OF assms(2)]
    tcp_send_returns[of t data] tls_send_returns[of t' data]
  by blast

definition demo_tcp :: "tcp_transport ouch_sink" where
  "demo_tcp = \<lparr>nextUserRef = 1, transport = \<lparr>tcp_fd = 5, tcp_replies = [(20, False), (-1, True), (27, False)],
     tcp_incoming = [], tcp_wire = [], tcp_events = []\<rparr>\<rparr>"

definition demo_tls :: "tls_transport ouch_sink" where
  "demo_tls = \<lparr>nextUserRef = 1, transport = \<lparr>tls_fd = 5, tls_ssl = True, tls_context = True, tls_replies = [40, 7],
     tls_incoming = [], tls_wire = [], tls_events = []\<rparr>\<rparr>"

definition client_intent :: OrderIntent where
  "client_intent = demo_intent\<lparr>int_symbol := replicate 8 ch_A\<rparr>"

lemma client_enter: "length (enter_bytes (intent_order ref client_intent)) = 47"
  by (simp add: enter_bytes_def intent_order_def client_intent_def)

lemma client_encode: "encode_enter (intent_order ref client_intent) = Some (enter_bytes (intent_order ref client_intent))"
  by (rule encode_enter_bytes) (simp_all add: intent_order_def client_intent_def)

theorem ouch_client_wire_witness:
  "(\<exists>s'. submit_seq tcp_send [client_intent] demo_tcp = Some ([True], s') \<and>
      tcp_wire (transport s') = enter_bytes (intent_order 1 client_intent)) \<and>
   (\<exists>u'. submit_seq tls_send [client_intent] demo_tls = Some ([True], u') \<and>
      tls_wire (transport u') = enter_bytes (intent_order 1 client_intent))"
proof -
  obtain s' where s: "submit_seq tcp_send [client_intent] demo_tcp = Some ([True], s')"
    using client_enter[of 1] client_encode[of 1]
    by (auto simp: ouch_sink_submit_def nextUserRefNum_def demo_tcp_def tcp_send_def tcp_isConnected_def)
  obtain u' where u: "submit_seq tls_send [client_intent] demo_tls = Some ([True], u')"
    using client_enter[of 1] client_encode[of 1]
    by (auto simp: ouch_sink_submit_def nextUserRefNum_def demo_tls_def tls_send_def tls_isConnected_def)
  have "\<forall>i\<in>set [client_intent]. length (int_symbol i) = 8" "length [client_intent] \<le> 2 ^ 32"
    by (simp_all add: client_intent_def)
  from ouch_client_wire[OF this, of demo_tcp "[True]" s' demo_tls "[True]" u'] s u show ?thesis
    by (simp add: demo_tcp_def demo_tls_def)
qed

definition balanced :: "os_event list \<Rightarrow> bool" where
  "balanced es \<longleftrightarrow> (\<forall>fd. count_list es (OpenSocket fd) = count_list es (CloseSocket fd)) \<and>
     count_list es OpenContext = count_list es FreeContext \<and> count_list es OpenSsl = count_list es FreeSsl"

definition tls_all_ok :: "tls_connect_results \<Rightarrow> bool" where
  "tls_all_ok r \<longleftrightarrow> res_ctx r \<and> res_load_ca r = 1 \<and> 0 \<le> res_tls_socket r \<and> res_tls_pton r = 1 \<and>
     0 \<le> res_tls_connect r \<and> res_ssl r \<and> res_set_fd r = 1 \<and> res_param r \<and> res_set_ip r = 1 \<and>
     res_handshake r = 1 \<and> res_verify_ok r"

definition tls_accounted :: "tls_transport \<Rightarrow> bool" where
  "tls_accounted t \<longleftrightarrow>
     (\<forall>fd. count_list (tls_events t) (OpenSocket fd) =
        count_list (tls_events t) (CloseSocket fd) + (if 0 \<le> tls_fd t \<and> fd = tls_fd t then 1 else 0)) \<and>
     count_list (tls_events t) OpenContext = count_list (tls_events t) FreeContext + (if tls_context t then 1 else 0) \<and>
     count_list (tls_events t) OpenSsl = count_list (tls_events t) FreeSsl + (if tls_ssl t then 1 else 0)"

lemma tls_close_accounted:
  assumes "tls_accounted t"
  shows "\<not> tls_isConnected (tls_close t)" "balanced (tls_events (tls_close t))"
proof -
  show "\<not> tls_isConnected (tls_close t)" by (auto simp: tls_close_def tls_isConnected_def Let_def)
  show "balanced (tls_events (tls_close t))"
    using assms
    by (cases "tls_ssl t"; cases "0 \<le> tls_fd t"; cases "tls_context t")
      (simp_all add: tls_accounted_def balanced_def tls_close_def Let_def)
qed

text \<open>Connections and their resources: \<^verbatim>\<open>TlsOuchTransport::connect\<close> succeeds exactly when every step
  did, certificate verification and peer identity included; when it or the TCP \<^verbatim>\<open>connect\<close> fails, the
  transport is disconnected and everything opened has been released.\<close>

lemma connect_no_leak:
  assumes "tls_fd t < 0" "\<not> tls_ssl t" "\<not> tls_context t" "balanced (tls_events t)"
    "tcp_fd c < 0" "balanced (tcp_events c)"
  shows "(fst (tls_connect r t) \<longleftrightarrow> tls_all_ok r) \<and>
    (\<not> fst (tls_connect r t) \<longrightarrow> \<not> tls_isConnected (snd (tls_connect r t)) \<and> balanced (tls_events (snd (tls_connect r t)))) \<and>
    (\<not> fst (tcp_connect q c) \<longrightarrow> \<not> tcp_isConnected (snd (tcp_connect q c)) \<and> balanced (tcp_events (snd (tcp_connect q c))))"
proof (intro conjI)
  have nc: "\<not> tls_isConnected t" using assms(1) by (simp add: tls_isConnected_def)
  let ?t1 = "tls_open_context r t"
  let ?t2 = "tls_open_socket r ?t1"
  let ?t3 = "tls_open_ssl r ?t2"
  have acc: "tls_accounted ?t1" "tls_accounted ?t2" "tls_accounted ?t3"
    using assms(1-4)
    by (simp_all add: tls_accounted_def balanced_def tls_open_context_def tls_open_socket_def tls_open_ssl_def)
  have fields: "tls_context ?t1 = res_ctx r" "tls_fd ?t2 = res_tls_socket r" "tls_ssl ?t3 = res_ssl r"
    by (simp_all add: tls_open_context_def tls_open_socket_def tls_open_ssl_def)
  show "fst (tls_connect r t) \<longleftrightarrow> tls_all_ok r"
    using nc by (auto simp: tls_connect_def tls_all_ok_def Let_def fields)
  have no_ctx: "\<not> tls_isConnected ?t1 \<and> balanced (tls_events ?t1)" if "\<not> res_ctx r"
    using that assms(2,4) by (simp add: tls_open_context_def tls_isConnected_def)
  show "\<not> fst (tls_connect r t) \<longrightarrow> \<not> tls_isConnected (snd (tls_connect r t)) \<and> balanced (tls_events (snd (tls_connect r t)))"
    unfolding tls_connect_def Let_def fields
    by (simp add: nc no_ctx tls_close_accounted[OF acc(1)] tls_close_accounted[OF acc(2)] tls_close_accounted[OF acc(3)])
  show "\<not> fst (tcp_connect q c) \<longrightarrow> \<not> tcp_isConnected (snd (tcp_connect q c)) \<and> balanced (tcp_events (snd (tcp_connect q c)))"
    using assms(5,6)
    by (auto simp: tcp_connect_def tcp_isConnected_def tcp_close_def balanced_def Let_def split: if_splits)
qed

end
