(* ===== verification/ExchangeServer.thy ===== *)
theory ExchangeServer
  imports ExchangeHandler OuchClient "HOL-Library.Sublist"
begin

text \<open>
  \<^verbatim>\<open>exchange/exchange_tcp_server.cpp\<close>: the event loop that accepts connections, completes TLS handshakes,
  cuts the incoming byte streams into 47-byte \<^verbatim>\<open>EnterOrder\<close> messages, hands them to the handler and
  writes the responses, all without blocking.

  The operating system and OpenSSL are parameters.  Each client record carries, besides the fields
  of \<^verbatim>\<open>ClientState\<close>, its connection: the bytes the peer has sent and the server has not read, the bytes
  the server has written, the events it is registered for, and the results the next calls on it
  will give.  A receive delivers the next bytes of the peer's stream, at most as many as asked for, or
  reports an error; a send takes at least one of the offered bytes or reports an error; a call beyond
  the given results would block.  Further arguments give the results of the calls of \<^verbatim>\<open>start\<close>, of
  \<^verbatim>\<open>epoll_wait\<close> and of \<^verbatim>\<open>accept4\<close>.

  \<open>cl_peer\<close>, \<open>cl_frames\<close>, \<open>cl_answers\<close> and \<open>srv_log\<close> record what a client sent, its complete messages,
  their answers, and all calls of the handler; \<open>os_open\<close>, \<open>os_ssl\<close> and \<open>os_ctx\<close> the descriptors,
  connections and contexts that exist.  No branch of the code reads them.  Logging is left out.
\<close>

section \<open>State\<close>

datatype errno = EAGAIN | EWOULDBLOCK | EINTR | EOther
datatype ssl_error = WANT_READ | WANT_WRITE | ZERO_RETURN | SslOther
datatype poll_flag = EPOLLIN | EPOLLOUT | EPOLLERR | EPOLLHUP

datatype rx_reply = Deliver nat | PeerClosed | RxError errno ssl_error
datatype tx_reply = Taken nat | TxError errno ssl_error
datatype hs_reply = HsResult int ssl_error

record ClientState =
  ssl :: bool
  tlsHandshakeComplete :: bool
  receiveBuffer :: "u8 list"
  receivedBytes :: nat
  sendBuffer :: "u8 list"
  sentBytes :: nat
  cl_incoming :: "u8 list"
  cl_rx :: "rx_reply list"
  cl_tx :: "tx_reply list"
  cl_hs :: "hs_reply list"
  cl_wire :: "u8 list"
  cl_interest :: "poll_flag set"
  cl_peer :: "u8 list"
  cl_frames :: "u8 list list"
  cl_answers :: "u8 list list"

record server =
  srv_port :: u16
  srv_account :: AccountId
  srv_certificate :: string
  srv_key :: string
  srv_context :: bool
  srv_listen :: int
  srv_epoll :: int
  srv_clients :: "int \<rightharpoonup> ClientState"
  srv_exchange :: exchange
  srv_log :: "(u8 list \<times> buffer option) list"
  os_open :: "int list"
  os_ssl :: "int set"
  os_ctx :: nat
  os_ctl :: "bool list"

definition new_server :: "u16 \<Rightarrow> AccountId \<Rightarrow> exchange \<Rightarrow> string \<Rightarrow> string \<Rightarrow> server" where
  "new_server port accountId handler certificatePath privateKeyPath =
     \<lparr>srv_port = port, srv_account = accountId, srv_certificate = certificatePath, srv_key = privateKeyPath,
      srv_context = False, srv_listen = -1, srv_epoll = -1, srv_clients = Map.empty, srv_exchange = handler,
      srv_log = [], os_open = [], os_ssl = {}, os_ctx = 0, os_ctl = []\<rparr>"

definition new_client :: "bool \<Rightarrow> ClientState" where
  "new_client tls = \<lparr>ssl = tls, tlsHandshakeComplete = \<not> tls, receiveBuffer = replicate EnterOrderSize 0,
     receivedBytes = 0, sendBuffer = [], sentBytes = 0, cl_incoming = [], cl_rx = [], cl_tx = [], cl_hs = [],
     cl_wire = [], cl_interest = {EPOLLIN}, cl_peer = [], cl_frames = [], cl_answers = []\<rparr>"

definition set_client :: "int \<Rightarrow> ClientState \<Rightarrow> server \<Rightarrow> server" where
  "set_client fd c s = s\<lparr>srv_clients := (srv_clients s)(fd \<mapsto> c)\<rparr>"

section \<open>Writing\<close>

definition updateClientEvents :: "int \<Rightarrow> poll_flag set \<Rightarrow> server \<Rightarrow> bool \<times> server" where
  "updateClientEvents fd events s =
     (case os_ctl s of
        False # bs \<Rightarrow> (False, s\<lparr>os_ctl := bs\<rparr>)
      | _ \<Rightarrow> (True, s\<lparr>os_ctl := tl (os_ctl s),
            srv_clients := (srv_clients s)(fd := map_option (cl_interest_update (\<lambda>_. events)) (srv_clients s fd))\<rparr>))"

text \<open>The three ways out of the loop of \<^verbatim>\<open>flushPendingWrite\<close>.\<close>

datatype flush_end = Flushed | FlushBlocked | FlushFailed

definition client_sent :: "nat \<Rightarrow> ClientState \<Rightarrow> ClientState" where
  "client_sent n c = c\<lparr>cl_wire := cl_wire c @ take n (drop (sentBytes c) (sendBuffer c)), sentBytes := sentBytes c + n\<rparr>"

fun flush_loop :: "tx_reply list \<Rightarrow> ClientState \<Rightarrow> flush_end \<times> ClientState" where
  "flush_loop [] c = (if sentBytes c < length (sendBuffer c) then FlushBlocked else Flushed, c\<lparr>cl_tx := []\<rparr>)"
| "flush_loop (Taken k # rs) c =
     (if sentBytes c < length (sendBuffer c)
      then flush_loop rs (client_sent (min (max 1 k) (length (sendBuffer c) - sentBytes c)) c)
      else (Flushed, c\<lparr>cl_tx := Taken k # rs\<rparr>))"
| "flush_loop (TxError e se # rs) c =
     (if sentBytes c < length (sendBuffer c)
      then if ssl c
           then (if se = WANT_WRITE then FlushBlocked else if se = WANT_READ then FlushBlocked else FlushFailed,
                 c\<lparr>cl_tx := rs\<rparr>)
           else if e = EINTR then flush_loop rs c
           else (if e = EAGAIN \<or> e = EWOULDBLOCK then FlushBlocked else FlushFailed, c\<lparr>cl_tx := rs\<rparr>)
      else (Flushed, c\<lparr>cl_tx := TxError e se # rs\<rparr>))"

definition flushPendingWrite :: "int \<Rightarrow> server \<Rightarrow> bool \<times> server" where
  "flushPendingWrite clientFd s =
     (case srv_clients s clientFd of
        None \<Rightarrow> (False, s)
      | Some state \<Rightarrow>
          (case flush_loop (cl_tx state) state of
             (Flushed, c) \<Rightarrow> updateClientEvents clientFd {EPOLLIN} (set_client clientFd (c\<lparr>sendBuffer := [], sentBytes := 0\<rparr>) s)
           | (FlushBlocked, c) \<Rightarrow> updateClientEvents clientFd {EPOLLIN, EPOLLOUT} (set_client clientFd c s)
           | (FlushFailed, c) \<Rightarrow> (False, set_client clientFd c s)))"

definition sendAll :: "int \<Rightarrow> u8 list \<Rightarrow> server \<Rightarrow> bool \<times> server" where
  "sendAll clientFd data s =
     (case srv_clients s clientFd of
        None \<Rightarrow> (False, s)
      | Some state \<Rightarrow>
          if sendBuffer state \<noteq> [] then (False, s)
          else flushPendingWrite clientFd (set_client clientFd (state\<lparr>sendBuffer := data, sentBytes := 0\<rparr>) s))"

section \<open>Reading\<close>

text \<open>What \<^verbatim>\<open>recv\<close> or \<^verbatim>\<open>SSL_read\<close> returns: the count, the bytes, and the two kinds of error code.\<close>

fun received_of :: "rx_reply \<Rightarrow> nat \<Rightarrow> u8 list \<Rightarrow> int \<times> u8 list \<times> errno \<times> ssl_error" where
  "received_of (Deliver k) remaining incoming =
     (let n = min (max 1 k) (min remaining (length incoming))
      in if n = 0 then (-1, [], EAGAIN, WANT_READ) else (int n, take n incoming, EAGAIN, WANT_READ))"
| "received_of PeerClosed remaining incoming = (0, [], EAGAIN, ZERO_RETURN)"
| "received_of (RxError e se) remaining incoming = (-1, [], e, se)"

definition client_received :: "u8 list \<Rightarrow> ClientState \<Rightarrow> ClientState" where
  "client_received bs c =
     c\<lparr>receiveBuffer := take (receivedBytes c) (receiveBuffer c) @ bs @ drop (receivedBytes c + length bs) (receiveBuffer c),
       receivedBytes := receivedBytes c + length bs,
       cl_incoming := drop (length bs) (cl_incoming c)\<rparr>"

text \<open>A complete message: the inner branch of the loop.  The result tells whether the loop goes on.\<close>

definition handle_message :: "int \<Rightarrow> ClientState \<Rightarrow> server \<Rightarrow> (bool \<times> server) option" where
  "handle_message clientFd state s = do {
     (response, x) \<leftarrow> handleEnterOrder (srv_account s) (receiveBuffer state) (Some 0) (length (receiveBuffer state)) (srv_exchange s);
     let s1 = s\<lparr>srv_exchange := x, srv_log := srv_log s @ [(receiveBuffer state, response)]\<rparr>;
     (case response of
        None \<Rightarrow> Some (False, s1)
      | Some r \<Rightarrow>
          let s2 = set_client clientFd (state\<lparr>cl_frames := cl_frames state @ [receiveBuffer state],
                 cl_answers := cl_answers state @ [r]\<rparr>) s1;
              (ok, s3) = sendAll clientFd r s2
          in if ok
             then Some (True, s3\<lparr>srv_clients := (srv_clients s3)(clientFd :=
                    map_option (receivedBytes_update (\<lambda>_. 0)) (srv_clients s3 clientFd))\<rparr>)
             else Some (False, s3))
   }"

text \<open>The result of a read that delivered nothing; \<open>None\<close> means the loop tries again.\<close>

definition read_error :: "int \<Rightarrow> ClientState \<Rightarrow> int \<Rightarrow> errno \<Rightarrow> ssl_error \<Rightarrow> server \<Rightarrow> (bool \<times> server) option" where
  "read_error clientFd state received e se s =
     (if ssl state
      then if se = WANT_READ
           then Some (updateClientEvents clientFd ({EPOLLIN} \<union> (if sendBuffer state = [] then {} else {EPOLLOUT})) s)
           else if se = WANT_WRITE then Some (updateClientEvents clientFd {EPOLLIN, EPOLLOUT} s)
           else Some (False, s)
      else if received = 0 then Some (False, s)
      else if e = EAGAIN \<or> e = EWOULDBLOCK then Some (True, s)
      else if e = EINTR then None
      else Some (False, s))"

fun readable_loop :: "int \<Rightarrow> rx_reply list \<Rightarrow> server \<Rightarrow> (bool \<times> server) option" where
  "readable_loop clientFd [] s =
     (case srv_clients s clientFd of
        None \<Rightarrow> None
      | Some state \<Rightarrow> read_error clientFd (state\<lparr>cl_rx := []\<rparr>) (-1) EAGAIN WANT_READ (set_client clientFd (state\<lparr>cl_rx := []\<rparr>) s))"
| "readable_loop clientFd (r # rs) s =
     (case srv_clients s clientFd of
        None \<Rightarrow> None
      | Some state0 \<Rightarrow>
          let state = state0\<lparr>cl_rx := rs\<rparr>;
              (received, bs, e, se) = received_of r (EnterOrderSize - receivedBytes state) (cl_incoming state)
          in if received > 0
             then let c = client_received bs state; s1 = set_client clientFd c s
                  in if receivedBytes c = EnterOrderSize
                     then do {
                       (again, s2) \<leftarrow> handle_message clientFd c s1;
                       if again then readable_loop clientFd rs s2 else Some (False, s2)
                     }
                     else readable_loop clientFd rs s1
             else case read_error clientFd state received e se (set_client clientFd state s) of
                    None \<Rightarrow> readable_loop clientFd rs (set_client clientFd state s)
                  | Some result \<Rightarrow> Some result)"

definition handleClientReadable :: "int \<Rightarrow> server \<Rightarrow> (bool \<times> server) option" where
  "handleClientReadable clientFd s =
     (case srv_clients s clientFd of
        None \<Rightarrow> Some (False, s)
      | Some state \<Rightarrow> readable_loop clientFd (cl_rx state) s)"

section \<open>Connections\<close>

text \<open>A new descriptor is one not in use: the first such from some number on.\<close>

definition fresh_fd :: "nat \<Rightarrow> int list \<Rightarrow> int" where
  "fresh_fd k fds = hd (filter (\<lambda>fd. fd \<notin> set fds) (map int [k..<k + length fds + 1]))"

definition open_fd :: "int \<Rightarrow> server \<Rightarrow> server" where
  "open_fd fd s = s\<lparr>os_open := fd # os_open s\<rparr>"

definition close_fd :: "int \<Rightarrow> server \<Rightarrow> server" where
  "close_fd fd s = s\<lparr>os_open := removeAll fd (os_open s)\<rparr>"

definition progressTlsHandshake :: "int \<Rightarrow> server \<Rightarrow> bool \<times> server" where
  "progressTlsHandshake clientFd s =
     (case srv_clients s clientFd of
        None \<Rightarrow> (False, s)
      | Some state \<Rightarrow>
          if tlsHandshakeComplete state then (True, s)
          else if \<not> ssl state then (False, s)
          else let (result, error) = (case cl_hs state of [] \<Rightarrow> (-1, WANT_READ) | HsResult r e # _ \<Rightarrow> (r, e));
                   state = state\<lparr>cl_hs := tl (cl_hs state)\<rparr>
               in if result = 1
                  then updateClientEvents clientFd {EPOLLIN} (set_client clientFd (state\<lparr>tlsHandshakeComplete := True\<rparr>) s)
                  else if error = WANT_READ then updateClientEvents clientFd {EPOLLIN} (set_client clientFd state s)
                  else if error = WANT_WRITE then updateClientEvents clientFd {EPOLLIN, EPOLLOUT} (set_client clientFd state s)
                  else (False, set_client clientFd state s))"

definition closeClient :: "int \<Rightarrow> server \<Rightarrow> server" where
  "closeClient clientFd s =
     (close_fd clientFd
        (s\<lparr>os_ssl := (case srv_clients s clientFd of
                     None \<Rightarrow> os_ssl s
                   | Some state \<Rightarrow> if ssl state then os_ssl s - {clientFd} else os_ssl s)\<rparr>))
       \<lparr>srv_clients := (srv_clients s)(clientFd := None)\<rparr>"

text \<open>A result of \<^verbatim>\<open>accept4\<close>: a new descriptor, with the success of \<^verbatim>\<open>epoll_ctl\<close>, \<^verbatim>\<open>SSL_new\<close> and
  \<^verbatim>\<open>SSL_set_fd\<close> on it, or an error.\<close>

datatype accept_reply = AcceptFd nat bool bool bool | AcceptError errno

definition emplace :: "int \<Rightarrow> ClientState \<Rightarrow> server \<Rightarrow> server" where
  "emplace fd c s = (if srv_clients s fd = None then set_client fd c s else s)"

fun acceptClients :: "accept_reply list \<Rightarrow> server \<Rightarrow> bool \<times> server" where
  "acceptClients [] s = (True, s)"
| "acceptClients (AcceptFd k added ssl_new fd_set # rs) s =
     (let clientFd = fresh_fd k (os_open s); s1 = open_fd clientFd s
      in if \<not> added then (False, close_fd clientFd s1)
         else if srv_context s1
         then if \<not> ssl_new then (False, close_fd clientFd s1)
              else if \<not> fd_set then (False, close_fd clientFd s1)
              else acceptClients rs (emplace clientFd (new_client True) (s1\<lparr>os_ssl := insert clientFd (os_ssl s1)\<rparr>))
         else acceptClients rs (emplace clientFd (new_client False) s1))"
| "acceptClients (AcceptError e # rs) s =
     (if e = EAGAIN \<or> e = EWOULDBLOCK then (True, s)
      else if e = EINTR then acceptClients rs s
      else (False, s))"

section \<open>The event loop\<close>

datatype poll_reply = PollError errno | PollEvents "(int \<times> poll_flag set) list"

definition MaxEvents :: nat where "MaxEvents = 32"

text \<open>One ready client: handshake, pending output, input.\<close>

definition serve_client :: "int \<Rightarrow> poll_flag set \<Rightarrow> server \<Rightarrow> server option" where
  "serve_client fd events s =
     (if EPOLLERR \<in> events \<or> EPOLLHUP \<in> events then Some (closeClient fd s)
      else if (case srv_clients s fd of None \<Rightarrow> False | Some c \<Rightarrow> \<not> tlsHandshakeComplete c)
      then let (ok, s1) = progressTlsHandshake fd s in Some (if ok then s1 else closeClient fd s1)
      else let (ok, s1) =
             (if EPOLLOUT \<in> events \<and> (case srv_clients s fd of None \<Rightarrow> False | Some c \<Rightarrow> sendBuffer c \<noteq> [])
              then flushPendingWrite fd s else (True, s))
           in if \<not> ok then Some (closeClient fd s1)
              else if EPOLLIN \<in> events
              then do {
                (ok, s2) \<leftarrow> handleClientReadable fd s1;
                Some (if ok then s2 else closeClient fd s2)
              }
              else Some s1)"

fun poll_loop :: "accept_reply list \<Rightarrow> (int \<times> poll_flag set) list \<Rightarrow> server \<Rightarrow> (bool \<times> server) option" where
  "poll_loop accepts [] s = Some (True, s)"
| "poll_loop accepts ((fd, events) # rest) s =
     (if fd = srv_listen s
      then let (ok, s1) = acceptClients accepts s
           in if \<not> ok then Some (False, s1) else poll_loop [] rest s1
      else Option.bind (serve_client fd events s) (poll_loop accepts rest))"

definition pollOnce :: "poll_reply \<Rightarrow> accept_reply list \<Rightarrow> server \<Rightarrow> (bool \<times> server) option" where
  "pollOnce reply accepts s =
     (if srv_epoll s < 0 then Some (False, s)
      else case reply of
        PollError e \<Rightarrow> Some (e = EINTR, s)
      | PollEvents events \<Rightarrow> poll_loop accepts (take MaxEvents events) s)"

section \<open>Starting and stopping\<close>

definition stop :: "server \<Rightarrow> server" where
  "stop s =
     (let tls = (\<lambda>fd. case srv_clients s fd of None \<Rightarrow> False | Some c \<Rightarrow> ssl c);
          s = s\<lparr>os_ssl := {fd \<in> os_ssl s. \<not> tls fd}, os_open := filter (\<lambda>fd. srv_clients s fd = None) (os_open s), srv_clients := Map.empty\<rparr>;
          s = (if srv_epoll s \<ge> 0 then (close_fd (srv_epoll s) s)\<lparr>srv_epoll := -1\<rparr> else s);
          s = (if srv_listen s \<ge> 0 then (close_fd (srv_listen s) s)\<lparr>srv_listen := -1\<rparr> else s)
      in if srv_context s then s\<lparr>os_ctx := os_ctx s - 1, srv_context := False\<rparr> else s)"

record start_results =
  r_ctx :: bool
  r_certificate :: int
  r_key :: int
  r_check :: int
  r_socket :: "nat option"
  r_getfl :: int
  r_setfl :: int
  r_bind :: int
  r_sockname :: int
  r_bound :: u16
  r_listen :: int
  r_epoll :: "nat option"
  r_ctl :: int

definition initializeTls :: "start_results \<Rightarrow> server \<Rightarrow> bool \<times> server" where
  "initializeTls r s =
     (if srv_certificate s = [] \<or> srv_key s = [] then (True, s)
      else let s = s\<lparr>srv_context := r_ctx r, os_ctx := os_ctx s + (if r_ctx r then 1 else 0)\<rparr>
           in if \<not> srv_context s then (False, s)
              else if r_certificate r \<noteq> 1 then (False, s)
              else if r_key r \<noteq> 1 then (False, s)
              else if r_check r \<noteq> 1 then (False, s)
              else (True, s))"

definition setNonBlocking :: "start_results \<Rightarrow> bool" where
  "setNonBlocking r \<longleftrightarrow> (if r_getfl r < 0 then False else r_setfl r = 0)"

definition open_listen :: "start_results \<Rightarrow> server \<Rightarrow> server" where
  "open_listen r s =
     (case r_socket r of
        None \<Rightarrow> s\<lparr>srv_listen := -1\<rparr>
      | Some k \<Rightarrow> (open_fd (fresh_fd k (os_open s)) s)\<lparr>srv_listen := fresh_fd k (os_open s)\<rparr>)"

definition open_epoll :: "start_results \<Rightarrow> server \<Rightarrow> server" where
  "open_epoll r s =
     (case r_epoll r of
        None \<Rightarrow> s\<lparr>srv_epoll := -1\<rparr>
      | Some k \<Rightarrow> (open_fd (fresh_fd k (os_open s)) s)\<lparr>srv_epoll := fresh_fd k (os_open s)\<rparr>)"

definition bound_port :: "start_results \<Rightarrow> server \<Rightarrow> server" where
  "bound_port r s = (if srv_port s = 0 then s\<lparr>srv_port := r_bound r\<rparr> else s)"

definition start :: "start_results \<Rightarrow> server \<Rightarrow> bool \<times> server" where
  "start r s =
     (let (tls, s0) = initializeTls r s
      in if \<not> tls then (False, stop s0)
         else let s1 = open_listen r s0
         in if srv_listen s1 < 0 then (False, s1)
         else if \<not> setNonBlocking r then (False, stop s1)
         else if r_bind r < 0 then (False, stop s1)
         else if srv_port s1 = 0 \<and> r_sockname r < 0 then (False, stop s1)
         else let s2 = bound_port r s1
         in if r_listen r < 0 then (False, stop s2)
         else let s3 = open_epoll r s2
         in if srv_epoll s3 < 0 then (False, stop s3)
         else if r_ctl r < 0 then (False, stop s3)
         else (True, s3))"

definition port :: "server \<Rightarrow> u16" where
  "port s = srv_port s"

end
