(* ===== verification/ServerInvariant.thy ===== *)
theory ServerInvariant
  imports ExchangeServer
begin

text \<open>
  What the exchange server guarantees for every client in every reachable state: messages are cut
  from the byte stream exactly, however the network splits it; every message is answered by what the
  handler returned for it, in order; output that could not be written is kept and its descriptor
  registered for writing; and descriptors, TLS objects and the TLS context are exactly those in use.
\<close>

section \<open>Writing\<close>

text \<open>The part of a client record that writing does not touch.\<close>

definition in_part :: "ClientState \<Rightarrow> bool \<times> bool \<times> u8 list \<times> nat \<times> u8 list \<times> u8 list list \<times> u8 list list \<times> u8 list" where
  "in_part c = (ssl c, tlsHandshakeComplete c, receiveBuffer c, receivedBytes c, cl_peer c, cl_frames c, cl_answers c, cl_incoming c)"

definition out_ok :: "ClientState \<Rightarrow> bool" where
  "out_ok c \<longleftrightarrow> sentBytes c \<le> length (sendBuffer c) \<and>
     cl_wire c @ drop (sentBytes c) (sendBuffer c) = concat (cl_answers c)"

definition poll_ok :: "ClientState \<Rightarrow> bool" where
  "poll_ok c \<longleftrightarrow> EPOLLIN \<in> cl_interest c \<and> (sendBuffer c \<noteq> [] \<longrightarrow> EPOLLOUT \<in> cl_interest c)"

lemma in_part_simps [simp]:
  "in_part (c\<lparr>sendBuffer := b\<rparr>) = in_part c" "in_part (c\<lparr>sentBytes := n\<rparr>) = in_part c"
  "in_part (c\<lparr>cl_wire := w\<rparr>) = in_part c"
  "in_part (c\<lparr>cl_tx := t\<rparr>) = in_part c" "in_part (c\<lparr>cl_rx := r\<rparr>) = in_part c"
  "in_part (c\<lparr>cl_interest := ev\<rparr>) = in_part c" "in_part (c\<lparr>cl_hs := hs\<rparr>) = in_part c"
  "in_part (client_sent n c) = in_part c"
  by (simp_all add: in_part_def client_sent_def)

lemma in_part_eqD:
  assumes "in_part c' = in_part c"
  shows "ssl c' = ssl c" "tlsHandshakeComplete c' = tlsHandshakeComplete c" "receiveBuffer c' = receiveBuffer c"
    "receivedBytes c' = receivedBytes c" "cl_peer c' = cl_peer c" "cl_frames c' = cl_frames c" "cl_answers c' = cl_answers c"
    "cl_incoming c' = cl_incoming c"
  using assms by (simp_all add: in_part_def)

lemma client_sent_out:
  assumes "out_ok c" "n \<le> length (sendBuffer c) - sentBytes c"
  shows "out_ok (client_sent n c)"
proof -
  have "cl_wire c @ take n (drop (sentBytes c) (sendBuffer c)) @ drop (sentBytes c + n) (sendBuffer c) =
      cl_wire c @ drop (sentBytes c) (sendBuffer c)"
    by (metis append_take_drop_id drop_drop add.commute)
  then show ?thesis using assms by (simp add: out_ok_def client_sent_def) linarith
qed

lemma flush_loop_ok:
  assumes "flush_loop rs c = (r, c')" "out_ok c"
  shows "in_part c' = in_part c \<and> sendBuffer c' = sendBuffer c \<and> cl_interest c' = cl_interest c \<and> out_ok c' \<and>
    (r = Flushed \<longrightarrow> sentBytes c' = length (sendBuffer c))"
  using assms
proof (induction rs c rule: flush_loop.induct)
  case (1 c)
  then show ?case by (auto simp: out_ok_def split: if_splits)
next
  case (2 k rs c)
  let ?c = "client_sent (min (max 1 k) (length (sendBuffer c) - sentBytes c)) c"
  show ?case
  proof (cases "sentBytes c < length (sendBuffer c)")
    case True
    have "out_ok ?c" using 2(3) by (intro client_sent_out) simp_all
    moreover have "flush_loop rs ?c = (r, c')" using 2(2) True by simp
    moreover have "sendBuffer ?c = sendBuffer c" "cl_interest ?c = cl_interest c" by (simp_all add: client_sent_def)
    ultimately show ?thesis using 2(1)[OF True] by simp
  next
    case False
    then show ?thesis using 2(2,3) by (auto simp: out_ok_def)
  qed
next
  case (3 e se rs c)
  show ?case
  proof (cases "sentBytes c < length (sendBuffer c) \<and> \<not> ssl c \<and> e = EINTR")
    case True
    then show ?thesis using 3 by simp
  next
    case False
    then show ?thesis using 3(2,3) by (auto simp: out_ok_def split: if_splits)
  qed
qed

section \<open>What an operation on one client leaves alone\<close>

definition handler_call :: "AccountId \<Rightarrow> u8 list \<times> buffer option \<Rightarrow> exchange \<Rightarrow> exchange option" where
  "handler_call acc = (\<lambda>(frame, response) x.
     case handleEnterOrder acc frame (Some 0) (length frame) x of
       None \<Rightarrow> None
     | Some (r, x') \<Rightarrow> if r = response then Some x' else None)"

definition server_part :: "server \<Rightarrow> u16 \<times> AccountId \<times> bool \<times> int \<times> int \<times> int list \<times> int set \<times> nat" where
  "server_part s = (srv_port s, srv_account s, srv_context s, srv_listen s, srv_epoll s, os_open s, os_ssl s, os_ctx s)"

definition tls_of :: "server \<Rightarrow> int \<Rightarrow> bool option" where
  "tls_of s fd = map_option ssl (srv_clients s fd)"

definition only_client :: "int \<Rightarrow> server \<Rightarrow> server \<Rightarrow> bool" where
  "only_client fd s s' \<longleftrightarrow> server_part s' = server_part s \<and> tls_of s' = tls_of s \<and>
     (\<forall>fd'. fd' \<noteq> fd \<longrightarrow> srv_clients s' fd' = srv_clients s fd') \<and>
     (\<exists>l. srv_log s' = srv_log s @ l \<and> fold_opt (handler_call (srv_account s)) l (srv_exchange s) = Some (srv_exchange s'))"

lemma only_client_refl [simp]: "only_client fd s s"
  by (simp add: only_client_def)

lemma only_client_trans:
  assumes "only_client fd s s1" "only_client fd s1 s2"
  shows "only_client fd s s2"
proof -
  from assms obtain l1 l2 where "srv_log s1 = srv_log s @ l1"
    "fold_opt (handler_call (srv_account s)) l1 (srv_exchange s) = Some (srv_exchange s1)"
    "srv_log s2 = srv_log s1 @ l2"
    "fold_opt (handler_call (srv_account s1)) l2 (srv_exchange s1) = Some (srv_exchange s2)"
    "srv_account s1 = srv_account s"
    unfolding only_client_def server_part_def by auto
  then have "srv_log s2 = srv_log s @ (l1 @ l2) \<and>
      fold_opt (handler_call (srv_account s)) (l1 @ l2) (srv_exchange s) = Some (srv_exchange s2)"
    by (simp add: fold_opt_append)
  moreover have "server_part s2 = server_part s" "tls_of s2 = tls_of s"
    "\<forall>fd'. fd' \<noteq> fd \<longrightarrow> srv_clients s2 fd' = srv_clients s fd'"
    using assms unfolding only_client_def by simp_all
  ultimately show ?thesis unfolding only_client_def by blast
qed

lemma only_client_silent:
  assumes "server_part s' = server_part s" "tls_of s' = tls_of s" "srv_log s' = srv_log s"
    "srv_exchange s' = srv_exchange s" "\<And>fd'. fd' \<noteq> fd \<Longrightarrow> srv_clients s' fd' = srv_clients s fd'"
  shows "only_client fd s s'"
  using assms by (auto simp: only_client_def)

lemma set_client_same:
  assumes "srv_clients s fd = Some c" "ssl c' = ssl c"
  shows "only_client fd s (set_client fd c' s)"
  using assms by (intro only_client_silent) (auto simp: set_client_def server_part_def tls_of_def)

lemma set_client_at [simp]:
  "srv_clients (set_client fd c s) fd = Some c" "srv_log (set_client fd c s) = srv_log s"
  "srv_exchange (set_client fd c s) = srv_exchange s" "srv_account (set_client fd c s) = srv_account s"
  by (simp_all add: set_client_def)

lemma updateClientEvents_ok:
  assumes "updateClientEvents fd ev s = (ok, s')" "srv_clients s fd = Some c"
  shows "only_client fd s s' \<and> srv_log s' = srv_log s \<and> (ok \<longrightarrow> srv_clients s' fd = Some (c\<lparr>cl_interest := ev\<rparr>))"
proof -
  have "server_part s' = server_part s" "tls_of s' = tls_of s" "srv_log s' = srv_log s" "srv_exchange s' = srv_exchange s"
    "srv_clients s' = (srv_clients s)(fd := map_option (cl_interest_update (\<lambda>_. ev)) (srv_clients s fd)) \<or>
      \<not> ok \<and> srv_clients s' = srv_clients s"
    using assms
    by (auto simp: updateClientEvents_def server_part_def tls_of_def fun_eq_iff split: list.splits bool.splits)
  then show ?thesis using assms(2) by (auto intro!: only_client_silent)
qed

lemma flushPendingWrite_ok:
  assumes "flushPendingWrite fd s = (ok, s')" "srv_clients s fd = Some c" "out_ok c"
  shows "only_client fd s s' \<and> srv_log s' = srv_log s \<and>
    (ok \<longrightarrow> (\<exists>c'. srv_clients s' fd = Some c' \<and> in_part c' = in_part c \<and> out_ok c' \<and> poll_ok c'))"
proof -
  obtain r c1 where f: "flush_loop (cl_tx c) c = (r, c1)" by force
  note F = flush_loop_ok[OF f assms(3)]
  have ssl: "ssl c1 = ssl c" using F in_part_eqD(1) by blast
  show ?thesis
  proof (cases r)
    case Flushed
    let ?c = "c1\<lparr>sendBuffer := [], sentBytes := 0\<rparr>"
    have u: "updateClientEvents fd {EPOLLIN} (set_client fd ?c s) = (ok, s')"
      using assms(1,2) f Flushed by (simp add: flushPendingWrite_def)
    have "only_client fd s (set_client fd ?c s)" using set_client_same[OF assms(2)] ssl by simp
    moreover have "out_ok (?c\<lparr>cl_interest := {EPOLLIN}\<rparr>)" using F Flushed by (auto simp: out_ok_def)
    moreover note updateClientEvents_ok[OF u set_client_at(1)]
    ultimately show ?thesis using F only_client_trans by (auto simp: poll_ok_def)
  next
    case FlushBlocked
    have u: "updateClientEvents fd {EPOLLIN, EPOLLOUT} (set_client fd c1 s) = (ok, s')"
      using assms(1,2) f FlushBlocked by (simp add: flushPendingWrite_def)
    have "only_client fd s (set_client fd c1 s)" using set_client_same[OF assms(2)] ssl by simp
    moreover have "out_ok (c1\<lparr>cl_interest := {EPOLLIN, EPOLLOUT}\<rparr>)" using F by (auto simp: out_ok_def)
    moreover note updateClientEvents_ok[OF u set_client_at(1)]
    ultimately show ?thesis using F only_client_trans by (auto simp: poll_ok_def)
  next
    case FlushFailed
    then have "ok = False" "s' = set_client fd c1 s" using assms(1,2) f by (simp_all add: flushPendingWrite_def)
    then show ?thesis using set_client_same[OF assms(2)] ssl by simp
  qed
qed

lemma sendAll_ok:
  assumes "sendAll fd data s = (ok, s')" "srv_clients s fd = Some c"
    "sendBuffer c = [] \<Longrightarrow> cl_wire c @ data = concat (cl_answers c)"
  shows "only_client fd s s' \<and> srv_log s' = srv_log s \<and>
    (ok \<longrightarrow> (\<exists>c'. srv_clients s' fd = Some c' \<and> in_part c' = in_part c \<and> out_ok c' \<and> poll_ok c'))"
proof (cases "sendBuffer c = []")
  case True
  let ?c = "c\<lparr>sendBuffer := data, sentBytes := 0\<rparr>"
  have f: "flushPendingWrite fd (set_client fd ?c s) = (ok, s')" using assms(1,2) True by (simp add: sendAll_def)
  have "out_ok ?c" using assms(3) True by (simp add: out_ok_def)
  from flushPendingWrite_ok[OF f set_client_at(1) this] show ?thesis
    using set_client_same[OF assms(2), of ?c] only_client_trans by auto
next
  case False
  then show ?thesis using assms(1,2) by (simp add: sendAll_def)
qed

section \<open>Reading\<close>

type_synonym call_log = "(u8 list \<times> buffer option) list"

text \<open>The whole messages cut from what the peer sent, and the rest.\<close>

definition framed :: "ClientState \<Rightarrow> bool" where
  "framed c \<longleftrightarrow> length (receiveBuffer c) = EnterOrderSize \<and>
     cl_peer c = concat (cl_frames c) @ take (receivedBytes c) (receiveBuffer c) @ cl_incoming c \<and>
     (\<forall>f\<in>set (cl_frames c). length f = EnterOrderSize)"

definition answered :: "call_log \<Rightarrow> ClientState \<Rightarrow> bool" where
  "answered log c \<longleftrightarrow> length (cl_frames c) = length (cl_answers c) \<and>
     subseq (zip (cl_frames c) (map Some (cl_answers c))) log"

definition client_ok :: "call_log \<Rightarrow> ClientState \<Rightarrow> bool" where
  "client_ok log c \<longleftrightarrow> framed c \<and> answered log c \<and> out_ok c \<and> poll_ok c"

definition client_inv :: "call_log \<Rightarrow> ClientState \<Rightarrow> bool" where
  "client_inv log c \<longleftrightarrow> receivedBytes c < EnterOrderSize \<and> client_ok log c \<and>
     (tlsHandshakeComplete c \<or> ssl c \<and> sendBuffer c = [])"

lemma client_ok_log:
  assumes "client_ok log c"
  shows "client_ok (log @ l) c"
  using assms by (auto simp: client_ok_def answered_def intro: subseq_order.order_trans)

lemma client_inv_log:
  assumes "client_inv log c"
  shows "client_inv (log @ l) c"
  using assms by (simp add: client_inv_def client_ok_log)

lemma in_part_framed: "in_part c' = in_part c \<Longrightarrow> framed c' = framed c \<and> answered log c' = answered log c"
  by (simp add: in_part_def framed_def answered_def)

lemma handle_message_ok:
  assumes "handle_message fd c s = Some (again, s')" "srv_clients s fd = Some c"
    "receivedBytes c = EnterOrderSize" "client_ok (srv_log s) c" "tlsHandshakeComplete c"
  shows "only_client fd s s' \<and>
    (again \<longrightarrow> (\<exists>c'. srv_clients s' fd = Some c' \<and> client_inv (srv_log s') c' \<and> tlsHandshakeComplete c'))"
proof -
  from assms(1) obtain response x where
    h: "handleEnterOrder (srv_account s) (receiveBuffer c) (Some 0) (length (receiveBuffer c)) (srv_exchange s) = Some (response, x)"
    by (auto simp: handle_message_def bind_eq_Some_conv)
  define s1 where "s1 = s\<lparr>srv_exchange := x, srv_log := srv_log s @ [(receiveBuffer c, response)]\<rparr>"
  have s1: "only_client fd s s1" "srv_clients s1 fd = Some c" "srv_log s1 = srv_log s @ [(receiveBuffer c, response)]"
    using h assms(2) by (simp_all add: only_client_def s1_def server_part_def tls_of_def fun_eq_iff handler_call_def)
  show ?thesis
  proof (cases response)
    case None
    then have "again = False" "s' = s1" using assms(1) h by (simp_all add: handle_message_def s1_def)
    then show ?thesis using s1 by simp
  next
    case (Some r)
    let ?c = "c\<lparr>cl_frames := cl_frames c @ [receiveBuffer c], cl_answers := cl_answers c @ [r]\<rparr>"
    obtain ok s3 where send: "sendAll fd r (set_client fd ?c s1) = (ok, s3)" by force
    have s': "again = ok" "s' = (if ok then s3\<lparr>srv_clients := (srv_clients s3)(fd :=
        map_option (receivedBytes_update (\<lambda>_. 0)) (srv_clients s3 fd))\<rparr> else s3)"
      using assms(1) h send Some by (auto simp: handle_message_def s1_def split: if_splits)
    have out: "sendBuffer ?c = [] \<Longrightarrow> cl_wire ?c @ r = concat (cl_answers ?c)"
      using assms(4) by (simp add: client_ok_def out_ok_def)
    note S = sendAll_ok[OF send set_client_at(1) out]
    have o3: "only_client fd s s3"
      using s1(1) set_client_same[OF s1(2), of ?c] S only_client_trans by simp
    show ?thesis
    proof (cases ok)
      case True
      with S obtain c3 where c3: "srv_clients s3 fd = Some c3" "in_part c3 = in_part ?c" "out_ok c3" "poll_ok c3" by auto
      let ?c' = "c3\<lparr>receivedBytes := 0\<rparr>"
      have s'3: "s' = set_client fd ?c' s3" using s' True c3(1) by (simp add: set_client_def)
      have "answered (srv_log s @ [(receiveBuffer c, Some r)]) ?c" "framed (?c\<lparr>receivedBytes := 0\<rparr>)"
        using assms(3,4) by (auto simp: client_ok_def answered_def framed_def intro!: list_emb_append_mono)
      moreover have "srv_log s3 = srv_log s @ [(receiveBuffer c, Some r)]" using S s1(3) Some by simp
      ultimately have "client_inv (srv_log s3) ?c'" "tlsHandshakeComplete ?c'"
        using in_part_eqD[OF c3(2)] c3(3,4) assms(4,5)
        by (simp_all add: client_inv_def client_ok_def framed_def answered_def out_ok_def poll_ok_def EnterOrderSize_def)
      then show ?thesis
        using s'3 only_client_trans[OF o3 set_client_same[OF c3(1)], of ?c'] by simp
    qed (use s' o3 in simp)
  qed
qed

lemma client_received_ok:
  assumes "client_inv log c" "bs = take n (cl_incoming c)" "length bs \<le> EnterOrderSize - receivedBytes c"
  shows "client_ok log (client_received bs c)" "receivedBytes (client_received bs c) \<le> EnterOrderSize"
    "ssl (client_received bs c) = ssl c" "tlsHandshakeComplete (client_received bs c) = tlsHandshakeComplete c"
proof -
  have "bs @ drop (length bs) (cl_incoming c) = cl_incoming c"
    using assms(2) by (cases "n \<le> length (cl_incoming c)") simp_all
  then show "client_ok log (client_received bs c)"
    using assms(1,3)
    by (auto simp: client_inv_def client_ok_def framed_def answered_def out_ok_def poll_ok_def client_received_def)
qed (use assms in \<open>auto simp: client_received_def client_inv_def\<close>)

lemma received_of_bytes:
  assumes "received_of r remaining incoming = (received, bs, e, se)" "received > 0"
  shows "\<exists>n. bs = take n incoming" "length bs \<le> remaining" "bs \<noteq> []"
  using assms by (cases r; auto simp: Let_def split: if_splits)+

lemma client_inv_rx [simp]:
  "client_inv log (c\<lparr>cl_rx := rs\<rparr>) = client_inv log c" "client_inv log (c\<lparr>cl_hs := hs\<rparr>) = client_inv log c"
  "client_inv log (c\<lparr>cl_tx := ts\<rparr>) = client_inv log c"
  by (simp_all add: client_inv_def client_ok_def framed_def answered_def out_ok_def poll_ok_def)

lemma client_inv_events:
  assumes "client_inv log c" "EPOLLIN \<in> ev" "sendBuffer c \<noteq> [] \<Longrightarrow> EPOLLOUT \<in> ev"
  shows "client_inv log (c\<lparr>cl_interest := ev\<rparr>)"
  using assms by (simp add: client_inv_def client_ok_def framed_def answered_def out_ok_def poll_ok_def)

text \<open>The state an operation on one client leaves behind when it reports success.\<close>

definition served :: "int \<Rightarrow> server \<Rightarrow> bool \<Rightarrow> server \<Rightarrow> bool" where
  "served fd s ok s' \<longleftrightarrow> only_client fd s s' \<and> (ok \<longrightarrow> (\<exists>c'. srv_clients s' fd = Some c' \<and> client_inv (srv_log s') c'))"

lemma served_trans:
  assumes "only_client fd s s1" "served fd s1 ok s'"
  shows "served fd s ok s'"
  using assms only_client_trans unfolding served_def by blast

lemma update_served:
  assumes "updateClientEvents fd ev s = (ok, s')" "srv_clients s fd = Some c" "client_inv (srv_log s) (c\<lparr>cl_interest := ev\<rparr>)"
  shows "served fd s ok s'"
  using updateClientEvents_ok[OF assms(1,2)] assms(3) by (auto simp: served_def)

lemma read_error_served:
  assumes "read_error fd c received e se s = Some (ok, s')" "srv_clients s fd = Some c" "client_inv (srv_log s) c"
  shows "served fd s ok s'"
proof (cases "ssl c \<and> (se = WANT_READ \<or> se = WANT_WRITE)")
  case True
  then consider "updateClientEvents fd ({EPOLLIN} \<union> (if sendBuffer c = [] then {} else {EPOLLOUT})) s = (ok, s')"
    | "updateClientEvents fd {EPOLLIN, EPOLLOUT} s = (ok, s')"
    using assms(1) by (auto simp: read_error_def split: if_splits)
  then show ?thesis by cases (rule update_served, assumption, rule assms(2), rule client_inv_events, rule assms(3), simp, simp)+
next
  case False
  then show ?thesis using assms by (auto simp: read_error_def served_def split: if_splits)
qed

lemma readable_loop_served:
  assumes "readable_loop fd rs s = Some (ok, s')" "srv_clients s fd = Some c" "client_inv (srv_log s) c" "tlsHandshakeComplete c"
  shows "served fd s ok s'"
  using assms
proof (induction rs arbitrary: s c)
  case Nil
  let ?c = "c\<lparr>cl_rx := []\<rparr>"
  have "read_error fd ?c (-1) EAGAIN WANT_READ (set_client fd ?c s) = Some (ok, s')" using Nil by simp
  from read_error_served[OF this set_client_at(1)] show ?case
    using Nil(3) by (intro served_trans[OF set_client_same[OF Nil(2), of ?c]]) simp_all
next
  case (Cons r rs)
  let ?c = "c\<lparr>cl_rx := rs\<rparr>"
  obtain received bs e se where R: "received_of r (EnterOrderSize - receivedBytes c) (cl_incoming c) = (received, bs, e, se)"
    by (metis prod_cases4)
  show ?case
  proof (cases "received > 0")
    case True
    let ?d = "client_received bs ?c"
    let ?s = "set_client fd ?d s"
    obtain n where n: "bs = take n (cl_incoming c)" using received_of_bytes(1)[OF R True] by blast
    have d: "client_ok (srv_log s) ?d" "receivedBytes ?d \<le> EnterOrderSize" "ssl ?d = ssl c" "tlsHandshakeComplete ?d"
      using Cons.prems(4) client_received_ok[of "srv_log s" ?c bs n] Cons.prems(3) n received_of_bytes(2)[OF R True] by simp_all
    note S = set_client_same[OF Cons.prems(2) d(3)]
    show ?thesis
    proof (cases "receivedBytes ?d = EnterOrderSize")
      case True
      then obtain again s2 where m: "handle_message fd ?d ?s = Some (again, s2)"
        and rest: "(if again then readable_loop fd rs s2 else Some (False, s2)) = Some (ok, s')"
        using Cons.prems(1,2) R \<open>received > 0\<close> by (auto simp: bind_eq_Some_conv Let_def)
      note M = handle_message_ok[OF m set_client_at(1) True]
      have M: "only_client fd ?s s2" "again \<Longrightarrow> \<exists>c'. srv_clients s2 fd = Some c' \<and> client_inv (srv_log s2) c' \<and> tlsHandshakeComplete c'"
        using M d(1,4) by simp_all
      show ?thesis
      proof (cases again)
        case True
        then obtain c' where "srv_clients s2 fd = Some c'" "client_inv (srv_log s2) c'" "tlsHandshakeComplete c'"
          using M(2) by blast
        moreover have "readable_loop fd rs s2 = Some (ok, s')" using rest True by simp
        ultimately have "served fd s2 ok s'" using Cons.IH by blast
        then show ?thesis using served_trans[OF only_client_trans[OF S M(1)]] by blast
      next
        case False
        then show ?thesis using rest only_client_trans[OF S M(1)] by (auto simp: served_def)
      qed
    next
      case False
      then have "readable_loop fd rs ?s = Some (ok, s')" using Cons.prems(1,2) R \<open>received > 0\<close> by (simp add: Let_def)
      moreover have "client_inv (srv_log ?s) ?d" using d False by (simp add: client_inv_def)
      ultimately show ?thesis using Cons.IH[of ?s ?d] served_trans[OF S] d(4) by simp
    qed
  next
    case False
    let ?s = "set_client fd ?c s"
    have S: "only_client fd s ?s" using set_client_same[OF Cons.prems(2), of ?c] by simp
    have "served fd ?s ok s'"
    proof (cases "read_error fd ?c received e se ?s")
      case None
      then have "readable_loop fd rs ?s = Some (ok, s')" using Cons.prems(1,2) R False by simp
      then show ?thesis using Cons.IH[of ?s ?c] Cons.prems(3,4) by simp
    next
      case (Some res)
      then have "read_error fd ?c received e se ?s = Some (ok, s')" using Cons.prems(1,2) R False by simp
      from read_error_served[OF this set_client_at(1)] show ?thesis using Cons.prems(3) by simp
    qed
    then show ?thesis by (rule served_trans[OF S])
  qed
qed

section \<open>The server invariant\<close>

definition resources :: "server \<Rightarrow> bool" where
  "resources s \<longleftrightarrow> set (os_open s) = dom (tls_of s) \<union> ({srv_listen s, srv_epoll s} \<inter> {0..}) \<and>
     os_ssl s = {fd. tls_of s fd = Some True} \<and> os_ctx s = (if srv_context s then 1 else 0) \<and>
     srv_listen s \<notin> dom (tls_of s) \<and> srv_epoll s \<notin> dom (tls_of s)"

definition server_inv :: "exchange \<Rightarrow> server \<Rightarrow> bool" where
  "server_inv x s \<longleftrightarrow> resources s \<and> (\<forall>fd c. srv_clients s fd = Some c \<longrightarrow> client_inv (srv_log s) c) \<and>
     fold_opt (handler_call (srv_account s)) (srv_log s) x = Some (srv_exchange s)"

lemma resources_cong: "server_part s' = server_part s \<Longrightarrow> tls_of s' = tls_of s \<Longrightarrow> resources s' = resources s"
  by (simp add: resources_def server_part_def)

lemma served_inv:
  assumes "served fd s True s'" "server_inv x s"
  shows "server_inv x s'"
proof -
  have O: "only_client fd s s'" and C: "\<exists>c'. srv_clients s' fd = Some c' \<and> client_inv (srv_log s') c'"
    using assms(1) by (auto simp: served_def)
  obtain l where l: "srv_log s' = srv_log s @ l" "fold_opt (handler_call (srv_account s)) l (srv_exchange s) = Some (srv_exchange s')"
    and p: "server_part s' = server_part s" "tls_of s' = tls_of s"
    and same: "\<And>fd'. fd' \<noteq> fd \<Longrightarrow> srv_clients s' fd' = srv_clients s fd'"
    using O by (auto simp: only_client_def)
  have "client_inv (srv_log s') c" if "srv_clients s' fd' = Some c" for fd' c
    using that C same[of fd'] assms(2) client_inv_log l(1) by (cases "fd' = fd") (auto simp: server_inv_def)
  moreover have "srv_account s' = srv_account s" using p(1) by (simp add: server_part_def)
  ultimately show ?thesis
    using assms(2) l resources_cong[OF p] by (simp add: server_inv_def fold_opt_append)
qed

lemma close_inv:
  assumes "only_client fd s s'" "server_inv x s" "fd \<noteq> srv_epoll s" "fd \<noteq> srv_listen s"
  shows "server_inv x (closeClient fd s')"
proof -
  obtain l where l: "srv_log s' = srv_log s @ l" "fold_opt (handler_call (srv_account s)) l (srv_exchange s) = Some (srv_exchange s')"
    and p: "server_part s' = server_part s" "tls_of s' = tls_of s"
    and same: "\<And>fd'. fd' \<noteq> fd \<Longrightarrow> srv_clients s' fd' = srv_clients s fd'"
    using assms(1) by (auto simp: only_client_def)
  let ?t = "closeClient fd s'"
  have t: "tls_of ?t = (tls_of s)(fd := None)" "os_open ?t = removeAll fd (os_open s)" "srv_listen ?t = srv_listen s"
    "srv_epoll ?t = srv_epoll s" "srv_context ?t = srv_context s" "os_ctx ?t = os_ctx s" "srv_account ?t = srv_account s"
    "srv_exchange ?t = srv_exchange s'" "srv_log ?t = srv_log s'" "srv_clients ?t = (srv_clients s')(fd := None)"
    using p by (auto simp: closeClient_def close_fd_def tls_of_def server_part_def fun_eq_iff)
  have R: "resources s" using assms(2) by (simp add: server_inv_def)
  have "os_ssl ?t = (case tls_of s' fd of Some True \<Rightarrow> os_ssl s' - {fd} | _ \<Rightarrow> os_ssl s')"
    by (auto simp: closeClient_def close_fd_def tls_of_def split: option.splits bool.splits)
  then have "os_ssl ?t = {fd'. tls_of ?t fd' = Some True}"
    using R p unfolding t(1) resources_def server_part_def by (auto split: option.splits bool.splits)
  then have "resources ?t" using R assms(3,4) unfolding resources_def t by auto
  moreover have "client_inv (srv_log ?t) c" if "srv_clients ?t fd' = Some c" for fd' c
    using that assms(2) same[of fd'] client_inv_log l(1) unfolding t server_inv_def by (auto split: if_splits)
  moreover have "fold_opt (handler_call (srv_account ?t)) (srv_log ?t) x = Some (srv_exchange ?t)"
    using assms(2) l unfolding t server_inv_def by (simp add: fold_opt_append)
  ultimately show ?thesis unfolding server_inv_def by blast
qed

text \<open>What serving a client does to a server that satisfies the invariant.\<close>

lemma handshake_served:
  assumes "progressTlsHandshake fd s = (ok, s')" "srv_clients s fd = Some c" "client_inv (srv_log s) c" "\<not> tlsHandshakeComplete c"
  shows "served fd s ok s'"
proof -
  let ?c = "c\<lparr>cl_hs := tl (cl_hs c)\<rparr>"
  obtain res err where R: "(case cl_hs c of [] \<Rightarrow> (-1, WANT_READ) | HsResult r e # _ \<Rightarrow> (r, e)) = (res, err)" by force
  have idle: "ssl c" "sendBuffer c = []" using assms(3,4) by (simp_all add: client_inv_def)
  have step: "served fd s ok s'" if "updateClientEvents fd ev (set_client fd d s) = (ok, s')" "EPOLLIN \<in> ev"
    "d = ?c \<or> d = ?c\<lparr>tlsHandshakeComplete := True\<rparr>" for d ev
  proof (rule served_trans[OF _ update_served[OF that(1) set_client_at(1)]])
    show "only_client fd s (set_client fd d s)" using that(3) by (auto intro!: set_client_same[OF assms(2)])
    show "client_inv (srv_log (set_client fd d s)) (d\<lparr>cl_interest := ev\<rparr>)"
      using assms(3) that(2,3) idle
      by (auto simp: client_inv_def client_ok_def framed_def answered_def out_ok_def poll_ok_def)
  qed
  have fail: "served fd s False (set_client fd ?c s)"
    using set_client_same[OF assms(2), of ?c] by (simp add: served_def)
  show ?thesis
    using assms(1,2,4) idle(1) R step fail by (auto simp: progressTlsHandshake_def Let_def split: if_splits)
qed

lemma flush_served:
  assumes "flushPendingWrite fd s = (ok, s')" "srv_clients s fd = Some c" "client_inv (srv_log s) c" "tlsHandshakeComplete c"
  shows "served fd s ok s' \<and> (ok \<longrightarrow> (\<exists>c'. srv_clients s' fd = Some c' \<and> client_inv (srv_log s') c' \<and> tlsHandshakeComplete c'))"
proof -
  have "out_ok c" using assms(3) by (simp add: client_inv_def client_ok_def)
  note F = flushPendingWrite_ok[OF assms(1,2) this]
  have "client_inv (srv_log s') c' \<and> tlsHandshakeComplete c'"
    if "in_part c' = in_part c" "out_ok c'" "poll_ok c'" for c'
    using in_part_eqD[OF that(1)] in_part_framed[OF that(1), of "srv_log s"] that F assms(3,4)
    by (simp add: client_inv_def client_ok_def)
  with F show ?thesis unfolding served_def by blast
qed

definition keeps :: "exchange \<Rightarrow> server \<Rightarrow> server \<Rightarrow> bool" where
  "keeps x s s' \<longleftrightarrow> server_inv x s' \<and> srv_epoll s' = srv_epoll s \<and> srv_listen s' = srv_listen s"

lemma only_client_fds: "only_client fd s s' \<Longrightarrow> srv_epoll s' = srv_epoll s \<and> srv_listen s' = srv_listen s"
  by (simp add: only_client_def server_part_def)

lemma closeClient_fds [simp]: "srv_epoll (closeClient fd s) = srv_epoll s" "srv_listen (closeClient fd s) = srv_listen s"
  by (simp_all add: closeClient_def close_fd_def)

lemma serve_end_inv:
  assumes "served fd s ok s'" "server_inv x s" "fd \<noteq> srv_epoll s" "fd \<noteq> srv_listen s"
  shows "keeps x s (if ok then s' else closeClient fd s')"
  using assms served_inv[of fd s s' x] close_inv[of fd s s' x] only_client_fds[of fd s s']
  by (cases ok) (auto simp: served_def keeps_def)

text \<open>How serving a client can end.\<close>

definition served_end :: "int \<Rightarrow> server \<Rightarrow> server \<Rightarrow> bool" where
  "served_end fd s s' \<longleftrightarrow> s' = s \<or> (\<exists>ok s1. served fd s ok s1 \<and> s' = (if ok then s1 else closeClient fd s1))"

lemma served_endI: "served fd s ok s1 \<Longrightarrow> served_end fd s (if ok then s1 else closeClient fd s1)"
  unfolding served_end_def by blast

lemma closed_end: "served_end fd s (closeClient fd s)"
  using served_endI[of fd s False s] by (simp add: served_def)

lemma serve_client_end:
  assumes "serve_client fd events s = Some s'" "server_inv x s"
  shows "served_end fd s s'"
proof (cases "srv_clients s fd")
  case None
  then have "s' = s \<or> s' = closeClient fd s"
    using assms(1) by (auto simp: serve_client_def handleClientReadable_def split: if_splits)
  moreover have "served_end fd s s" by (simp add: served_end_def)
  ultimately show ?thesis using closed_end by blast
next
  case (Some c)
  have c: "client_inv (srv_log s) c" using Some assms(2) by (auto simp: server_inv_def)
  consider (err) "EPOLLERR \<in> events \<or> EPOLLHUP \<in> events" | (hs) "\<not> (EPOLLERR \<in> events \<or> EPOLLHUP \<in> events)" "\<not> tlsHandshakeComplete c"
    | (io) "\<not> (EPOLLERR \<in> events \<or> EPOLLHUP \<in> events)" "tlsHandshakeComplete c" by blast
  then show ?thesis
  proof cases
    case err
    then have "s' = closeClient fd s" using assms(1) by (simp add: serve_client_def)
    then show ?thesis using closed_end by simp
  next
    case hs
    obtain ok s1 where p: "progressTlsHandshake fd s = (ok, s1)" by force
    have "s' = (if ok then s1 else closeClient fd s1)" using assms(1) hs Some p by (simp add: serve_client_def)
    then show ?thesis using served_endI[OF handshake_served[OF p Some c hs(2)]] by simp
  next
    case io
    obtain ok s1 where w: "(if EPOLLOUT \<in> events \<and> sendBuffer c \<noteq> [] then flushPendingWrite fd s else (True, s)) = (ok, s1)"
      by force
    have W: "served fd s ok s1" "ok \<Longrightarrow> \<exists>c'. srv_clients s1 fd = Some c' \<and> client_inv (srv_log s1) c' \<and> tlsHandshakeComplete c'"
      using w flush_served[OF _ Some c io(2), of ok s1] Some c io(2) by (auto simp: served_def split: if_splits)
    have e: "(if \<not> ok then Some (closeClient fd s1) else if EPOLLIN \<in> events
        then handleClientReadable fd s1 \<bind> (\<lambda>(ok, s2). Some (if ok then s2 else closeClient fd s2)) else Some s1) = Some s'"
      using assms(1) io Some w by (simp add: serve_client_def)
    show ?thesis
    proof (cases "ok \<and> EPOLLIN \<in> events")
      case False
      then have "s' = (if ok then s1 else closeClient fd s1)" using e by (auto split: if_splits)
      then show ?thesis using served_endI[OF W(1)] by simp
    next
      case True
      then obtain c1 where c1: "srv_clients s1 fd = Some c1" "client_inv (srv_log s1) c1" "tlsHandshakeComplete c1"
        using W(2) by blast
      obtain ok2 s2 where r: "readable_loop fd (cl_rx c1) s1 = Some (ok2, s2)" "s' = (if ok2 then s2 else closeClient fd s2)"
        using e True c1(1) by (auto simp: handleClientReadable_def bind_eq_Some_conv)
      have "only_client fd s s1" using W(1) by (simp add: served_def)
      from served_endI[OF served_trans[OF this readable_loop_served[OF r(1) c1]]] r(2) show ?thesis by simp
    qed
  qed
qed

lemma serve_client_inv:
  assumes "serve_client fd events s = Some s'" "server_inv x s" "fd \<noteq> srv_epoll s" "fd \<noteq> srv_listen s"
  shows "keeps x s s'"
  using serve_client_end[OF assms(1,2)] serve_end_inv[OF _ assms(2-4)] assms(2) by (auto simp: served_end_def keeps_def)

section \<open>Connections\<close>

lemma fresh_fd_new: "fresh_fd k fds \<notin> set fds" "0 \<le> fresh_fd k fds"
proof -
  let ?c = "map int [k..<k + length fds + 1]"
  have "\<exists>fd\<in>set ?c. fd \<notin> set fds"
  proof (rule ccontr)
    assume "\<not> ?thesis"
    then have "set ?c \<subseteq> set fds" by blast
    then have "card (set ?c) \<le> card (set fds)" by (rule card_mono[OF finite_set])
    moreover have "card (set ?c) = length fds + 1" by (subst distinct_card) (simp_all add: distinct_map del: upt_Suc)
    ultimately show False using card_length[of fds] by simp
  qed
  then have "filter (\<lambda>fd. fd \<notin> set fds) ?c \<noteq> []" by (simp add: filter_empty_conv)
  from hd_in_set[OF this] show "fresh_fd k fds \<notin> set fds" "0 \<le> fresh_fd k fds"
    unfolding fresh_fd_def by auto
qed

lemma new_client_inv: "client_inv log (new_client tls)"
  by (simp add: client_inv_def client_ok_def framed_def answered_def out_ok_def poll_ok_def new_client_def EnterOrderSize_def)

lemma open_close_fd: "fd \<notin> set (os_open s) \<Longrightarrow> close_fd fd (open_fd fd s) = s"
  by (simp add: open_fd_def close_fd_def)

lemma emplace_inv:
  assumes "server_inv x s" "fd = fresh_fd k (os_open s)"
  shows "server_inv x (emplace fd (new_client tls) ((open_fd fd s)\<lparr>os_ssl := (if tls then insert fd (os_ssl s) else os_ssl s)\<rparr>))"
    (is "server_inv x ?t")
proof -
  have R: "resources s" using assms(1) by (simp add: server_inv_def)
  have fd: "fd \<notin> set (os_open s)" "0 \<le> fd" using fresh_fd_new assms(2) by auto
  then have new: "srv_clients s fd = None" "fd \<noteq> srv_listen s" "fd \<noteq> srv_epoll s"
    using R by (auto simp: resources_def tls_of_def dom_def)
  have t: "srv_clients ?t = (srv_clients s)(fd \<mapsto> new_client tls)" "tls_of ?t = (tls_of s)(fd \<mapsto> tls)" "os_open ?t = fd # os_open s"
    "os_ssl ?t = (if tls then insert fd (os_ssl s) else os_ssl s)" "srv_listen ?t = srv_listen s" "srv_epoll ?t = srv_epoll s"
    "srv_context ?t = srv_context s" "os_ctx ?t = os_ctx s" "srv_account ?t = srv_account s" "srv_exchange ?t = srv_exchange s"
    "srv_log ?t = srv_log s"
    using new(1) by (auto simp: emplace_def open_fd_def set_client_def tls_of_def fun_eq_iff new_client_def)
  have "tls_of s fd = None" using new(1) by (simp add: tls_of_def)
  then have "resources ?t" using R fd(2) new(2,3) unfolding resources_def t by auto
  moreover have "\<forall>fd c. srv_clients ?t fd = Some c \<longrightarrow> client_inv (srv_log ?t) c"
    using assms(1) new_client_inv unfolding t server_inv_def by auto
  ultimately show ?thesis using assms(1) unfolding server_inv_def t(9,10,11) by blast
qed

lemma acceptClients_inv:
  assumes "acceptClients rs s = (ok, s')" "server_inv x s"
  shows "keeps x s s'"
  using assms
proof (induction rs s rule: acceptClients.induct)
  case (2 k added ssl_new fd_set rs s)
  let ?fd = "fresh_fd k (os_open s)"
  let ?t = "\<lambda>tls. emplace ?fd (new_client tls) ((open_fd ?fd s)\<lparr>os_ssl := (if tls then insert ?fd (os_ssl s) else os_ssl s)\<rparr>)"
  have t: "server_inv x (?t tls)" "srv_epoll (?t tls) = srv_epoll s" "srv_listen (?t tls) = srv_listen s" for tls
    using emplace_inv[OF 2(4) refl] by (simp_all add: emplace_def open_fd_def set_client_def)
  have same: "(open_fd ?fd s)\<lparr>os_ssl := os_ssl s\<rparr> = open_fd ?fd s" "os_ssl (open_fd ?fd s) = os_ssl s"
    "srv_context (open_fd ?fd s) = srv_context s"
    by (simp_all add: open_fd_def)
  show ?case
  proof (cases "added \<and> (srv_context s \<longrightarrow> ssl_new \<and> fd_set)")
    case False
    then have "s' = s" using 2(3) open_close_fd[OF fresh_fd_new(1)] same by (auto simp: Let_def split: if_splits)
    then show ?thesis using 2(4) by (simp add: keeps_def)
  next
    case True
    show ?thesis
    proof (cases "srv_context s")
      case True
      then show ?thesis using 2(1)[OF refl refl] 2(3) \<open>added \<and> _\<close> t[of True] same by (simp add: Let_def keeps_def)
    next
      case False
      then show ?thesis using 2(2)[OF refl refl] 2(3) \<open>added \<and> _\<close> t[of False] same by (simp add: Let_def keeps_def)
    qed
  qed
qed (auto simp: keeps_def split: if_splits)

lemma poll_loop_inv:
  assumes "poll_loop accepts events s = Some (ok, s')" "server_inv x s" "srv_epoll s \<notin> fst ` set events"
  shows "keeps x s s'"
  using assms
proof (induction accepts events s rule: poll_loop.induct)
  case (2 accepts fd events rest s)
  show ?case
  proof (cases "fd = srv_listen s")
    case True
    obtain r s1 where a: "acceptClients accepts s = (r, s1)" by force
    note A = acceptClients_inv[OF a 2(4)]
    then show ?thesis using 2(1)[OF True a[symmetric] refl] 2(3,5) True a by (cases r) (auto simp: keeps_def)
  next
    case False
    then obtain s1 where c: "serve_client fd events s = Some s1" "poll_loop accepts rest s1 = Some (ok, s')"
      using 2(3) by (auto simp: bind_eq_Some_conv)
    have "keeps x s s1" using serve_client_inv[OF c(1) 2(4)] 2(5) False by auto
    then show ?thesis using 2(2)[OF False, of s1] c 2(5) by (auto simp: keeps_def)
  qed
qed (simp add: keeps_def)

lemma pollOnce_inv:
  assumes "pollOnce reply accepts s = Some (ok, s')" "server_inv x s" "\<And>evs. reply = PollEvents evs \<Longrightarrow> srv_epoll s \<notin> fst ` set evs"
  shows "keeps x s s'"
proof (cases "srv_epoll s < 0")
  case False
  show ?thesis
  proof (cases reply)
    case (PollEvents evs)
    have "poll_loop accepts (take MaxEvents evs) s = Some (ok, s')" using assms(1) False PollEvents by (simp add: pollOnce_def)
    moreover have "srv_epoll s \<notin> fst ` set (take MaxEvents evs)" using assms(3)[OF PollEvents] set_take_subset by fastforce
    ultimately show ?thesis using poll_loop_inv assms(2) by blast
  qed (use assms(1,2) False in \<open>simp add: pollOnce_def keeps_def\<close>)
qed (use assms(1,2) in \<open>simp add: pollOnce_def keeps_def\<close>)

section \<open>Only TLS\<close>

text \<open>With a TLS context every client is a TLS client.\<close>

definition tls_only :: "server \<Rightarrow> bool" where
  "tls_only s \<longleftrightarrow> srv_context s \<and> (\<forall>fd c. srv_clients s fd = Some c \<longrightarrow> ssl c)"

lemma tls_only_tls_of: "tls_only s \<longleftrightarrow> srv_context s \<and> (\<forall>fd. tls_of s fd \<noteq> Some False)"
  by (auto simp: tls_only_def tls_of_def)

lemma serve_client_tls:
  assumes "serve_client fd events s = Some s'" "server_inv x s" "tls_only s"
  shows "tls_only s'"
proof -
  have close: "tls_of (closeClient fd t) = (tls_of t)(fd := None)" "srv_context (closeClient fd t) = srv_context t" for t
    by (auto simp: closeClient_def close_fd_def tls_of_def fun_eq_iff)
  from serve_client_end[OF assms(1,2)] consider "s' = s" | ok s1 where "only_client fd s s1" "s' = (if ok then s1 else closeClient fd s1)"
    by (auto simp: served_end_def served_def)
  then show ?thesis
  proof cases
    case (2 ok s1)
    have "tls_of s1 = tls_of s" "srv_context s1 = srv_context s" using 2(1) by (simp_all add: only_client_def server_part_def)
    then show ?thesis using assms(3) 2(2) by (auto simp: tls_only_tls_of close)
  qed (use assms(3) in simp)
qed

lemma acceptClients_tls: "acceptClients rs s = (ok, s') \<Longrightarrow> tls_only s \<Longrightarrow> tls_only s'"
proof (induction rs s rule: acceptClients.induct)
  case (2 k added ssl_new fd_set rs s)
  have c: "srv_context (open_fd (fresh_fd k (os_open s)) s)" using 2(4) by (simp add: tls_only_def open_fd_def)
  show ?case
  proof (cases "added \<and> ssl_new \<and> fd_set")
    case True
    let ?fd = "fresh_fd k (os_open s)"
    let ?t = "emplace ?fd (new_client True) ((open_fd ?fd s)\<lparr>os_ssl := insert ?fd (os_ssl (open_fd ?fd s))\<rparr>)"
    have t: "tls_only ?t" using 2(4) by (auto simp: tls_only_def emplace_def set_client_def open_fd_def new_client_def)
    have "acceptClients rs ?t = (ok, s')" using 2(3) True c by (simp add: Let_def)
    from 2(1)[OF refl refl _ c _ _ this t] True show ?thesis by simp
  next
    case False
    then show ?thesis using 2(3,4) c by (auto simp: Let_def tls_only_def open_fd_def close_fd_def split: if_splits)
  qed
qed (auto split: if_splits)

lemma poll_loop_tls:
  assumes "poll_loop accepts events s = Some (ok, s')" "server_inv x s" "srv_epoll s \<notin> fst ` set events" "tls_only s"
  shows "tls_only s'"
  using assms
proof (induction accepts events s rule: poll_loop.induct)
  case (2 accepts fd events rest s)
  show ?case
  proof (cases "fd = srv_listen s")
    case True
    obtain r s1 where a: "acceptClients accepts s = (r, s1)" by force
    note A = acceptClients_inv[OF a 2(4)] acceptClients_tls[OF a 2(6)]
    then show ?thesis using 2(1)[OF True a[symmetric] refl] 2(3,5) True a by (cases r) (auto simp: keeps_def)
  next
    case False
    then obtain s1 where c: "serve_client fd events s = Some s1" "poll_loop accepts rest s1 = Some (ok, s')"
      using 2(3) by (auto simp: bind_eq_Some_conv)
    have "keeps x s s1" using serve_client_inv[OF c(1) 2(4)] 2(5) False by auto
    then show ?thesis using 2(2)[OF False, of s1] c 2(5) serve_client_tls[OF c(1) 2(4,6)] by (auto simp: keeps_def)
  qed
qed simp

section \<open>Starting and stopping\<close>

lemma stop_releases:
  assumes "resources s"
  shows "os_open (stop s) = []" "os_ssl (stop s) = {}" "os_ctx (stop s) = 0" "srv_clients (stop s) = Map.empty"
    "srv_epoll (stop s) < 0" "srv_listen (stop s) < 0" "srv_context (stop s) = False"
proof -
  define opn where "opn = filter (\<lambda>fd. srv_clients s fd = None) (os_open s)"
  have sub: "(fd = srv_listen s \<or> fd = srv_epoll s) \<and> 0 \<le> fd" if "fd \<in> set opn" for fd
    using that assms by (auto simp: resources_def tls_of_def dom_def opn_def)
  have "removeAll (srv_listen s) (removeAll (srv_epoll s) opn) = []"
    by (auto simp: filter_empty_conv removeAll_filter_not_eq dest: sub)
  moreover have "srv_epoll s < 0 \<Longrightarrow> removeAll (srv_listen s) opn = []"
    "srv_listen s < 0 \<Longrightarrow> removeAll (srv_epoll s) opn = []"
    by (auto simp: filter_empty_conv removeAll_filter_not_eq dest!: sub)
  moreover have "srv_listen s < 0 \<Longrightarrow> srv_epoll s < 0 \<Longrightarrow> opn = []"
    using sub[of "hd opn"] hd_in_set[of opn] by linarith
  ultimately show "os_open (stop s) = []" by (simp add: stop_def Let_def close_fd_def opn_def[symmetric])
  have "{fd \<in> os_ssl s. \<not> (case srv_clients s fd of None \<Rightarrow> False | Some c \<Rightarrow> ssl c)} = {}"
    using assms by (auto simp: resources_def tls_of_def)
  then show "os_ssl (stop s) = {}" by (simp add: stop_def Let_def close_fd_def)
  show "os_ctx (stop s) = 0" using assms by (simp add: stop_def Let_def close_fd_def resources_def)
qed (simp_all add: stop_def Let_def close_fd_def)

lemma stop_inv:
  assumes "server_inv x s"
  shows "server_inv x (stop s)"
proof -
  have R: "resources s" using assms by (simp add: server_inv_def)
  have "tls_of (stop s) = Map.empty" using stop_releases(4)[OF R] by (simp add: tls_of_def fun_eq_iff)
  then have "resources (stop s)" using stop_releases[OF R] by (auto simp: resources_def)
  moreover have "srv_log (stop s) = srv_log s" "srv_account (stop s) = srv_account s" "srv_exchange (stop s) = srv_exchange s"
    by (simp_all add: stop_def Let_def close_fd_def)
  ultimately show ?thesis using assms stop_releases(4)[OF R] by (simp add: server_inv_def)
qed

text \<open>A server that has not been started, or has been stopped.\<close>

definition stopped :: "server \<Rightarrow> bool" where
  "stopped s \<longleftrightarrow> srv_listen s < 0 \<and> srv_epoll s < 0 \<and> \<not> srv_context s \<and> srv_clients s = Map.empty"

lemma new_server_inv: "server_inv x (new_server prt acc x cert key)" "stopped (new_server prt acc x cert key)"
  by (simp_all add: server_inv_def resources_def tls_of_def new_server_def stopped_def dom_def)

lemma server_inv_cong:
  assumes "resources s'" "server_inv x s" "srv_clients s' = srv_clients s" "srv_log s' = srv_log s"
    "srv_account s' = srv_account s" "srv_exchange s' = srv_exchange s"
  shows "server_inv x s'"
  using assms by (simp add: server_inv_def)

lemma initializeTls_inv:
  assumes "initializeTls r s = (ok, s')" "server_inv x s" "stopped s"
  shows "server_inv x s'" "srv_listen s' < 0" "srv_epoll s' < 0" "srv_clients s' = Map.empty" "os_open s' = os_open s"
proof -
  have e: "s' = s \<or> s' = s\<lparr>srv_context := r_ctx r, os_ctx := os_ctx s + (if r_ctx r then 1 else 0)\<rparr>"
    using assms(1) by (auto simp: initializeTls_def Let_def split: if_splits)
  then have "resources s'"
    using assms(2,3) by (auto simp: server_inv_def resources_def tls_of_def stopped_def)
  then show "server_inv x s'" using assms(2) by (rule server_inv_cong) (use e in auto)
  show "srv_listen s' < 0" "srv_epoll s' < 0" "srv_clients s' = Map.empty" "os_open s' = os_open s"
    using e assms(3) by (auto simp: stopped_def)
qed

lemma open_listen_inv:
  assumes "server_inv x s" "srv_listen s < 0" "srv_epoll s < 0" "srv_clients s = Map.empty"
  shows "server_inv x (open_listen r s)" "srv_epoll (open_listen r s) < 0" "srv_clients (open_listen r s) = Map.empty"
    "srv_listen (open_listen r s) < 0 \<Longrightarrow> os_open (open_listen r s) = os_open s"
proof -
  have "resources (open_listen r s)"
    using assms fresh_fd_new(2)[of _ "os_open s"]
    by (auto simp: server_inv_def resources_def open_listen_def open_fd_def tls_of_def split: option.splits)
  then show "server_inv x (open_listen r s)"
    using assms(1) by (rule server_inv_cong) (auto simp: open_listen_def open_fd_def split: option.splits)
  show "srv_epoll (open_listen r s) < 0" "srv_clients (open_listen r s) = Map.empty"
    using assms(3,4) by (auto simp: open_listen_def open_fd_def split: option.splits)
  show "srv_listen (open_listen r s) < 0 \<Longrightarrow> os_open (open_listen r s) = os_open s"
    using fresh_fd_new(2)[of _ "os_open s"]
    by (auto simp: open_listen_def open_fd_def not_less[symmetric] split: option.splits)
qed

lemma open_epoll_inv:
  assumes "server_inv x s" "srv_epoll s < 0" "srv_clients s = Map.empty"
  shows "server_inv x (open_epoll r s)"
proof -
  have "resources (open_epoll r s)"
    using assms fresh_fd_new(2)[of _ "os_open s"]
    by (auto simp: server_inv_def resources_def open_epoll_def open_fd_def tls_of_def split: option.splits)
  then show ?thesis
    using assms(1) by (rule server_inv_cong) (auto simp: open_epoll_def open_fd_def split: option.splits)
qed

lemma bound_port_inv:
  assumes "server_inv x s"
  shows "server_inv x (bound_port r s)" "srv_epoll (bound_port r s) = srv_epoll s" "srv_clients (bound_port r s) = srv_clients s"
proof -
  have "tls_of (bound_port r s) = tls_of s" by (simp add: fun_eq_iff tls_of_def bound_port_def)
  then show "server_inv x (bound_port r s)" "srv_epoll (bound_port r s) = srv_epoll s" "srv_clients (bound_port r s) = srv_clients s"
    using assms by (simp_all add: server_inv_def resources_def) (simp_all add: bound_port_def)
qed

lemma start_inv:
  assumes "start r s = (ok, s')" "server_inv x s" "stopped s"
  shows "server_inv x s' \<and> (\<not> ok \<longrightarrow> os_open s' = [] \<and> os_ssl s' = {})"
proof -
  obtain t s0 where i: "initializeTls r s = (t, s0)" by force
  note I = initializeTls_inv[OF i assms(2,3)]
  let ?s1 = "open_listen r s0" let ?s2 = "bound_port r ?s1" let ?s3 = "open_epoll r ?s2"
  note L = open_listen_inv[OF I(1-4), of r]
  note B = bound_port_inv[OF L(1), of r]
  have E: "server_inv x ?s3" using open_epoll_inv[OF B(1)] B(2,3) L(2,3) by simp
  have S: "server_inv x (stop u) \<and> os_open (stop u) = [] \<and> os_ssl (stop u) = {}" if "server_inv x u" for u
    using stop_inv[OF that] stop_releases[of u] that by (simp add: server_inv_def)
  have none: "os_open s = []" "os_ssl ?s1 = {}"
    using assms(2,3) L(1,3) by (auto simp: server_inv_def resources_def stopped_def tls_of_def dom_def)
  show ?thesis
    using assms(1) i S[OF I(1)] S[OF L(1)] S[OF B(1)] S[OF E] E L(1,4) I(5) none
    unfolding start_def by (auto simp: Let_def split: if_splits)
qed

end
