(* ===== verification/ExchangeSystem.thy ===== *)
theory ExchangeSystem
  imports ServerInvariant
begin

text \<open>
  The exchange server as a whole.  \<open>server_reach\<close> are the states an exchange server can be in: created,
  started, its loop run any number of times, stopped, while its peers send bytes and the operating system
  decides how every call ends.  The properties join the OUCH client of \<open>OuchClient\<close>, the event loop, the
  handler and the matching engine.
\<close>

section \<open>Reachable states\<close>

text \<open>What happens outside the server: a peer sends bytes, or the results of the coming calls are settled.\<close>

datatype net_event =
    PeerSends int "u8 list"
  | CallResults int "rx_reply list" "tx_reply list" "hs_reply list"
  | CtlResults "bool list"

fun network :: "net_event \<Rightarrow> server \<Rightarrow> server" where
  "network (PeerSends fd bs) s = s\<lparr>srv_clients := (srv_clients s)(fd :=
     map_option (\<lambda>c. c\<lparr>cl_incoming := cl_incoming c @ bs, cl_peer := cl_peer c @ bs\<rparr>) (srv_clients s fd))\<rparr>"
| "network (CallResults fd rx tx hs) s = s\<lparr>srv_clients := (srv_clients s)(fd :=
     map_option (\<lambda>c. c\<lparr>cl_rx := rx, cl_tx := tx, cl_hs := hs\<rparr>) (srv_clients s fd))\<rparr>"
| "network (CtlResults bs) s = s\<lparr>os_ctl := bs\<rparr>"

text \<open>\<^verbatim>\<open>epoll_wait\<close> reports descriptors registered with it, which its own descriptor is not.\<close>

fun poll_valid :: "server \<Rightarrow> poll_reply \<Rightarrow> bool" where
  "poll_valid s (PollEvents events) \<longleftrightarrow> srv_epoll s \<notin> fst ` set events"
| "poll_valid s (PollError e) \<longleftrightarrow> True"

inductive server_reach :: "exchange \<Rightarrow> server \<Rightarrow> bool" for x :: exchange where
  reach_new: "server_reach x (new_server prt acc x cert key)"
| reach_start: "server_reach x s \<Longrightarrow> stopped s \<Longrightarrow> start r s = (ok, s') \<Longrightarrow> server_reach x s'"
| reach_network: "server_reach x s \<Longrightarrow> server_reach x (network ev s)"
| reach_poll: "server_reach x s \<Longrightarrow> poll_valid s reply \<Longrightarrow> pollOnce reply accepts s = Some (ok, s') \<Longrightarrow> server_reach x s'"
| reach_stop: "server_reach x s \<Longrightarrow> server_reach x (stop s)"

lemma client_inv_network:
  assumes "client_inv log c"
  shows "client_inv log (c\<lparr>cl_incoming := cl_incoming c @ bs, cl_peer := cl_peer c @ bs\<rparr>)"
    "client_inv log (c\<lparr>cl_rx := rx, cl_tx := tx, cl_hs := hs\<rparr>)"
  using assms by (auto simp: client_inv_def client_ok_def framed_def answered_def out_ok_def poll_ok_def)

lemma network_inv:
  assumes "server_inv x s"
  shows "server_inv x (network ev s)"
proof -
  have "server_part (network ev s) = server_part s" "tls_of (network ev s) = tls_of s"
    by (cases ev; auto simp: server_part_def tls_of_def fun_eq_iff option.map_comp comp_def)+
  from resources_cong[OF this] have "resources (network ev s)" using assms by (simp add: server_inv_def)
  moreover have "client_inv (srv_log s) c" if "srv_clients (network ev s) fd = Some c" for fd c
    using that assms by (cases ev) (auto simp: server_inv_def client_inv_network split: if_splits)
  moreover have "srv_log (network ev s) = srv_log s" "srv_account (network ev s) = srv_account s"
    "srv_exchange (network ev s) = srv_exchange s"
    by (cases ev; simp)+
  ultimately show ?thesis using assms by (simp add: server_inv_def)
qed

lemma reach_inv: "server_reach x s \<Longrightarrow> server_inv x s"
proof (induction rule: server_reach.induct)
  case (reach_poll s reply accepts ok s')
  have "keeps x s s'" using reach_poll by (intro pollOnce_inv[OF reach_poll(3,4)]) auto
  then show ?case by (simp add: keeps_def)
qed (simp_all add: new_server_inv start_inv network_inv stop_inv)

section \<open>Messages and answers\<close>

text \<open>Every call in the log was a call of the handler on some state of the exchange.\<close>

lemma log_call:
  assumes "fold_opt (handler_call acc) log x = Some x'" "(frame, response) \<in> set log"
  shows "\<exists>y y'. handleEnterOrder acc frame (Some 0) (length frame) y = Some (response, y')"
  using assms
proof (induction log arbitrary: x)
  case (Cons l log)
  then obtain x1 where x1: "handler_call acc l x = Some x1" "fold_opt (handler_call acc) log x1 = Some x'"
    by (auto simp: bind_eq_Some_conv)
  show ?case
  proof (cases "l = (frame, response)")
    case True
    then have "handleEnterOrder acc frame (Some 0) (length frame) x = Some (response, x1)"
      using x1(1) by (auto simp: handler_call_def split: option.splits if_splits)
    then show ?thesis by blast
  qed (use Cons x1 in auto)
qed simp

lemma handler_answer:
  assumes "handleEnterOrder acc (enter_bytes eo) (Some 0) (length (enter_bytes eo)) y = Some (Some r, y')"
    "length (eo_symbol eo) = 8" "length (eo_clOrdId eo) = 14" "eo_appendageLength eo = 0"
  shows "\<exists>oid. r = accepted_bytes (accepted_for eo oid)"
proof -
  have "eo\<lparr>eo_appendageLength := 0\<rparr> = eo" using assms(4) by (cases eo) simp
  then have d: "decodeEnterOrder (enter_bytes eo) (Some 0) (length (enter_bytes eo)) = Some (Some eo)"
    using decode_enter[OF assms(2,3), of "[]"] assms(2,3) by (simp add: enter_bytes_def)
  have enc: "encode_accepted (accepted_for eo k) = Some (accepted_bytes (accepted_for eo k))" for k
    using assms(2,3) by (intro encode_accepted_bytes) (simp_all add: accepted_for_def)
  show ?thesis
    using assms(1) by (cases y) (auto simp: handleEnterOrder_def d enc Let_def bind_eq_Some_conv split: option.splits)
qed

text \<open>A stream of equally long messages is cut in only one way.\<close>

lemma cut_unique:
  assumes "\<forall>f\<in>set fs. length f = n" "\<forall>g\<in>set gs. length g = n" "prefix (concat fs @ rest) (concat gs)" "0 < n"
  shows "fs = take (length fs) gs"
  using assms
proof (induction fs arbitrary: gs)
  case (Cons f fs)
  then obtain g gs' where g: "gs = g # gs'" by (cases gs) auto
  then have "f = g" "prefix (concat fs @ rest) (concat gs')"
    using Cons.prems by (auto simp: prefix_def append_eq_append_conv)
  then show ?case using Cons g by auto
qed simp

lemma concat_length_eq: "\<forall>f\<in>set fs. length f = n \<Longrightarrow> length (concat fs) = n * length fs"
  by (induction fs) auto

lemma orders_from_shape:
  assumes "\<forall>i\<in>set is. length (int_symbol i) = 8" "eo \<in> set (orders_from ref is)"
  shows "length (eo_symbol eo) = 8" "length (eo_clOrdId eo) = 14" "eo_appendageLength eo = 0" "length (enter_bytes eo) = 47"
proof -
  obtain k where "k < length is" "eo = intent_order (ref + of_nat k) (is ! k)"
    using assms(2) orders_from_nth by (metis in_set_conv_nth length_orders_from)
  then show "length (eo_symbol eo) = 8" "length (eo_clOrdId eo) = 14" "eo_appendageLength eo = 0" "length (enter_bytes eo) = 47"
    using assms(1) by (simp_all add: intent_order_def enter_bytes_def)
qed

lemma answer_decodes:
  assumes "server_inv x s" "srv_clients s fd = Some c" "k < length (cl_frames c)" "cl_frames c ! k = enter_bytes eo"
    "length (eo_symbol eo) = 8" "length (eo_clOrdId eo) = 14" "eo_appendageLength eo = 0"
  shows "\<exists>oid. response_dispatch (cl_answers c ! k) (Some 0) (length (cl_answers c ! k)) =
    Some (Some (RAccepted (accepted_for eo oid)))"
proof -
  let ?z = "zip (cl_frames c) (map Some (cl_answers c))"
  have a: "length (cl_answers c) = length (cl_frames c)" "subseq ?z (srv_log s)"
    using assms(1,2) by (auto simp: server_inv_def client_inv_def client_ok_def answered_def)
  have "?z ! k \<in> set (srv_log s)" using subseq_order.order_refl list_emb_set[OF a(2)] a(1) assms(3)
    by (metis length_map length_zip min.idem nth_mem)
  then have "(enter_bytes eo, Some (cl_answers c ! k)) \<in> set (srv_log s)" using assms(3,4) a(1) by simp
  from log_call[OF _ this] assms(1) obtain y y' where
    "handleEnterOrder (srv_account s) (enter_bytes eo) (Some 0) (length (enter_bytes eo)) y = Some (Some (cl_answers c ! k), y')"
    unfolding server_inv_def by blast
  from handler_answer[OF this assms(5-7)] accepted_decodes[OF assms(5,6)] show ?thesis by metis
qed

lemma flush_loop_drains:
  "length (sendBuffer c) \<le> sentBytes c + sum_list (map (max 1) ks) \<Longrightarrow> \<exists>c'. flush_loop (map Taken ks) c = (Flushed, c')"
proof (induction ks arbitrary: c)
  case (Cons k ks)
  let ?c = "client_sent (min (max 1 k) (length (sendBuffer c) - sentBytes c)) c"
  have "length (sendBuffer ?c) \<le> sentBytes ?c + sum_list (map (max 1) ks)"
    using Cons.prems by (simp add: client_sent_def min_def) linarith
  from Cons.IH[OF this] show ?case by simp
qed simp

section \<open>A run\<close>

text \<open>A server on port 9000 is started, accepts a client, and receives an order in two pieces.\<close>

definition demo_exchange :: exchange where
  "demo_exchange = (new_engine demo_heap 16, Map.empty)"

definition demo_results :: start_results where
  "demo_results = \<lparr>r_ctx = True, r_certificate = 1, r_key = 1, r_check = 1, r_socket = Some 3, r_getfl = 2, r_setfl = 0,
     r_bind = 0, r_sockname = 0, r_bound = 9000, r_listen = 0, r_epoll = Some 4, r_ctl = 0\<rparr>"

definition demo_started :: server where
  "demo_started = (new_server 9000 1001 demo_exchange [] [])\<lparr>srv_listen := 3, srv_epoll := 4, os_open := [4, 3]\<rparr>"

definition demo_accepted :: server where
  "demo_accepted = demo_started\<lparr>os_open := [5, 4, 3], srv_clients := [5 \<mapsto> new_client False]\<rparr>"

definition demo_ready :: "u8 list \<Rightarrow> rx_reply list \<Rightarrow> tx_reply list \<Rightarrow> server" where
  "demo_ready bs rx tx = network (CallResults 5 rx tx []) (network (PeerSends 5 bs) demo_accepted)"

lemma demo_start: "start demo_results (new_server 9000 1001 demo_exchange [] []) = (True, demo_started)"
  by (simp add: start_def initializeTls_def demo_results_def demo_started_def new_server_def open_listen_def open_epoll_def
      open_fd_def fresh_fd_def bound_port_def setNonBlocking_def)

lemma demo_accept: "pollOnce (PollEvents [(3, {EPOLLIN})]) [AcceptFd 5 True True True] demo_started = Some (True, demo_accepted)"
  by (simp add: pollOnce_def demo_started_def demo_accepted_def new_server_def MaxEvents_def fresh_fd_def open_fd_def
      emplace_def set_client_def)

lemma demo_ready_reach: "server_reach demo_exchange (demo_ready bs rx tx)"
proof -
  have "stopped (new_server 9000 1001 demo_exchange [] [])" by (rule new_server_inv)
  then have "server_reach demo_exchange demo_started" using reach_start[OF reach_new _ demo_start] by blast
  from reach_poll[OF this _ demo_accept] have "server_reach demo_exchange demo_accepted"
    by (simp add: demo_started_def)
  then show ?thesis unfolding demo_ready_def by (intro reach_network)
qed

lemma demo_ready_client:
  "srv_clients (demo_ready bs rx tx) 5 = Some ((new_client False)\<lparr>cl_incoming := bs, cl_peer := bs, cl_rx := rx, cl_tx := tx\<rparr>)"
  "srv_epoll (demo_ready bs rx tx) = 4" "srv_listen (demo_ready bs rx tx) = 3" "srv_exchange (demo_ready bs rx tx) = demo_exchange"
  "srv_account (demo_ready bs rx tx) = 1001" "srv_log (demo_ready bs rx tx) = []" "os_ctl (demo_ready bs rx tx) = []"
  by (simp_all add: demo_ready_def demo_accepted_def demo_started_def new_server_def new_client_def)

text \<open>The client after its order was answered and \<open>n\<close> bytes of the answer were taken.\<close>

definition demo_after :: "nat \<Rightarrow> ClientState" where
  "demo_after n = (let bs = enter_bytes enter_demo; r = accepted_bytes (accepted_for enter_demo 1001) in
     (new_client False)\<lparr>receiveBuffer := bs, cl_peer := bs, cl_frames := [bs], cl_answers := [r], cl_wire := take n r,
       sendBuffer := if n < length r then r else [], sentBytes := if n < length r then n else 0,
       cl_interest := if n < length r then {EPOLLIN, EPOLLOUT} else {EPOLLIN}\<rparr>)"

lemma demo_served:
  assumes "0 < n" "n \<le> 64"
  shows "\<exists>s. server_reach demo_exchange s \<and> srv_clients s 5 = Some (demo_after n) \<and> os_ctl s = []"
proof -
  let ?bs = "enter_bytes enter_demo" and ?r = "accepted_bytes (accepted_for enter_demo 1001)"
  let ?s = "demo_ready ?bs [Deliver 20, Deliver 27] [Taken n]"
  obtain e' where h: "handleEnterOrder 1001 ?bs (Some 0) 47 demo_exchange =
      Some (Some ?r, e', [1001 \<mapsto> 77])"
    using handle_demo[of 1001 Map.empty] by (auto simp: demo_exchange_def)
  have len: "length ?bs = 47" "length ?r = 64"
    by (simp_all add: enter_demo_fields) (simp add: accepted_bytes_def accepted_for_def enter_demo_def)
  have "\<exists>s'. pollOnce (PollEvents [(5, {EPOLLIN})]) [] ?s = Some (True, s') \<and> srv_clients s' 5 = Some (demo_after n) \<and> os_ctl s' = []"
    using h len assms
    by (simp add: pollOnce_def MaxEvents_def serve_client_def handleClientReadable_def demo_ready_client new_client_def demo_after_def
        client_received_def set_client_def handle_message_def sendAll_def flushPendingWrite_def client_sent_def
        updateClientEvents_def Let_def EnterOrderSize_def read_error_def max_def min_def)
  then obtain s' where s': "pollOnce (PollEvents [(5, {EPOLLIN})]) [] ?s = Some (True, s')"
    "srv_clients s' 5 = Some (demo_after n)" "os_ctl s' = []" by blast
  have "server_reach demo_exchange s'" by (rule reach_poll[OF demo_ready_reach _ s'(1)]) (simp add: demo_ready_client)
  with s'(2,3) show ?thesis by blast
qed

section \<open>Properties\<close>

text \<open>C6. In every reachable state of the exchange server and for every connected client, however the network
  cut the client's byte stream and however often writes were short, interrupted or blocked: what the client
  sent is its complete 47-byte messages, then fewer than 47 bytes of the next one, then bytes not yet
  read; each message has been answered with what the handler returned for it, in order; what has been written to the
  client followed by what is pending is exactly those answers; the server listens for input, and for
  writability whenever output is pending; and the exchange is in the state that the handler
  reaches from the initial one by all messages of all clients in the order they were completed.\<close>

theorem server_streams:
  assumes "server_reach x s" "srv_clients s fd = Some c"
  shows "(\<exists>part. length part < EnterOrderSize \<and> cl_peer c = concat (cl_frames c) @ part @ cl_incoming c) \<and>
    (\<forall>f\<in>set (cl_frames c). length f = EnterOrderSize) \<and>
    length (cl_answers c) = length (cl_frames c) \<and>
    subseq (zip (cl_frames c) (map Some (cl_answers c))) (srv_log s) \<and>
    cl_wire c @ drop (sentBytes c) (sendBuffer c) = concat (cl_answers c) \<and>
    EPOLLIN \<in> cl_interest c \<and> (sendBuffer c \<noteq> [] \<longrightarrow> EPOLLOUT \<in> cl_interest c) \<and>
    fold_opt (handler_call (srv_account s)) (srv_log s) x = Some (srv_exchange s)"
proof -
  note I = reach_inv[OF assms(1)]
  have c: "client_inv (srv_log s) c" using I assms(2) by (auto simp: server_inv_def)
  then have "length (take (receivedBytes c) (receiveBuffer c)) < EnterOrderSize"
    "cl_peer c = concat (cl_frames c) @ take (receivedBytes c) (receiveBuffer c) @ cl_incoming c"
    by (auto simp: client_inv_def client_ok_def framed_def)
  then show ?thesis
    using c I unfolding client_inv_def client_ok_def framed_def answered_def out_ok_def poll_ok_def server_inv_def by auto
qed

theorem server_streams_witness:
  "\<exists>s c. server_reach demo_exchange s \<and> srv_clients s 5 = Some c \<and> cl_frames c = [enter_bytes enter_demo] \<and>
     subseq [(enter_bytes enter_demo, Some (accepted_bytes (accepted_for enter_demo 1001)))] (srv_log s) \<and>
     fold_opt (handler_call (srv_account s)) (srv_log s) demo_exchange = Some (srv_exchange s)"
proof -
  obtain s c where d: "server_reach demo_exchange s" "srv_clients s 5 = Some c" "cl_frames c = [enter_bytes enter_demo]"
    "cl_answers c = [accepted_bytes (accepted_for enter_demo 1001)]"
    using demo_served[of 20] by (auto simp: demo_after_def Let_def)
  from server_streams[OF d(1,2)] d show ?thesis by (intro exI[of _ s] exI[of _ c]) simp
qed



text \<open>C5. From the trading client to the exchange: the client submitted a sequence of order intents over TCP and the
  network has delivered some part of its byte stream.  Then the messages the exchange has handled are
  the client's orders, in the order of submission and with consecutive reference numbers, none skipped or repeated, up to the
  last complete one; the answer to each is an \<^verbatim>\<open>Accepted\<close> that decodes to that very order; and what the
  client has received is a prefix of these answers.\<close>

theorem exchange_end_to_end:
  assumes "server_reach x s" "srv_clients s fd = Some c"
    "submit_seq tcp_send is u = Some (oks, u')" "False \<notin> set oks" "tcp_wire (transport u) = []"
    "\<forall>i\<in>set is. length (int_symbol i) = 8" "prefix (cl_peer c) (tcp_wire (transport u'))"
  shows "let n = length (cl_frames c); orders = take n (orders_from (nextUserRef u) is) in
    n \<le> length is \<and> cl_frames c = map enter_bytes orders \<and>
    length (cl_peer c) - length (cl_incoming c) < EnterOrderSize * (n + 1) \<and>
    prefix (cl_wire c) (concat (cl_answers c)) \<and>
    (\<forall>k<n. \<exists>oid. response_dispatch (cl_answers c ! k) (Some 0) (length (cl_answers c ! k)) =
       Some (Some (RAccepted (accepted_for (intent_order (nextUserRef u + of_nat k) (is ! k)) oid))))"
proof -
  let ?os = "orders_from (nextUserRef u) is" and ?n = "length (cl_frames c)"
  note I = reach_inv[OF assms(1)]
  have c: "client_inv (srv_log s) c" using I assms(2) by (auto simp: server_inv_def)
  have peer: "cl_peer c = concat (cl_frames c) @ take (receivedBytes c) (receiveBuffer c) @ cl_incoming c"
    and fl: "\<forall>f\<in>set (cl_frames c). length f = EnterOrderSize" and rb: "receivedBytes c < EnterOrderSize"
    using c by (simp_all add: client_inv_def client_ok_def framed_def)
  have "tcp_wire (transport u') = concat (map enter_bytes ?os)"
    using tcp.submit_seq_stream[OF assms(6,3,4)] assms(5) by simp
  then have "cl_frames c = take ?n (map enter_bytes ?os)"
    using assms(7) fl orders_from_shape(4)[OF assms(6)]
    by (intro cut_unique[where n = 47 and rest = "take (receivedBytes c) (receiveBuffer c) @ cl_incoming c"])
      (auto simp: peer EnterOrderSize_def)
  then have frames: "cl_frames c = map enter_bytes (take ?n ?os)" by (simp add: take_map)
  then have n: "?n \<le> length is" by (metis length_map length_orders_from length_take min.cobounded1)
  have len: "length (cl_peer c) - length (cl_incoming c) < EnterOrderSize * (?n + 1)"
    using rb peer concat_length_eq[OF fl] by simp
  have "\<exists>oid. response_dispatch (cl_answers c ! k) (Some 0) (length (cl_answers c ! k)) =
       Some (Some (RAccepted (accepted_for (intent_order (nextUserRef u + of_nat k) (is ! k)) oid)))" if k: "k < ?n" for k
  proof -
    have o: "?os ! k = intent_order (nextUserRef u + of_nat k) (is ! k)" "?os ! k \<in> set ?os"
      using k n by (simp add: orders_from_nth) (use k n in \<open>intro nth_mem, simp\<close>)
    have "cl_frames c ! k = enter_bytes (?os ! k)"
      by (subst frames) (use k n in simp)
    from answer_decodes[OF I assms(2) k this] orders_from_shape[OF assms(6) o(2)] show ?thesis unfolding o(1) by blast
  qed
  moreover have "prefix (cl_wire c) (concat (cl_answers c))"
    using c by (metis client_inv_def client_ok_def out_ok_def prefixI)
  ultimately show ?thesis unfolding Let_def using n frames len by blast
qed

text \<open>The run above, with the order of a trading client.\<close>

definition demo_client_intent :: OrderIntent where
  "demo_client_intent = client_intent\<lparr>int_side := Buy, int_price := 500, int_quantity := 10\<rparr>"

theorem exchange_end_to_end_witness:
  "\<exists>s c u'. server_reach demo_exchange s \<and> srv_clients s 5 = Some c \<and>
     submit_seq tcp_send [demo_client_intent] (demo_tcp\<lparr>nextUserRef := 77\<rparr>) = Some ([True], u') \<and>
     cl_peer c = tcp_wire (transport u') \<and> cl_frames c = [enter_bytes (intent_order 77 demo_client_intent)] \<and>
     (\<exists>oid. response_dispatch (hd (cl_answers c)) (Some 0) (length (hd (cl_answers c))) =
       Some (Some (RAccepted (accepted_for (intent_order 77 demo_client_intent) oid))))"
proof -
  let ?u = "demo_tcp\<lparr>nextUserRef := 77\<rparr>"
  have eq: "intent_order 77 demo_client_intent = enter_demo"
    by (simp add: intent_order_def demo_client_intent_def client_intent_def enter_demo_def)
  have "encode_enter enter_demo = Some (enter_bytes enter_demo)"
    by (rule encode_enter_bytes) (simp_all add: enter_demo_fields)
  then obtain u' where u: "submit_seq tcp_send [demo_client_intent] ?u = Some ([True], u')"
    using enter_demo_fields(6) eq
    by (auto simp: ouch_sink_submit_def nextUserRefNum_def demo_tcp_def tcp_send_def tcp_isConnected_def)
  have f: "tcp_wire (transport ?u) = []" "\<forall>i\<in>set [demo_client_intent]. length (int_symbol i) = 8" "False \<notin> set [True]"
    by (simp_all add: demo_tcp_def demo_client_intent_def client_intent_def)
  obtain s c where d: "server_reach demo_exchange s" "srv_clients s 5 = Some c" "cl_peer c = enter_bytes enter_demo"
    "cl_frames c = [enter_bytes enter_demo]" "cl_answers c = [accepted_bytes (accepted_for enter_demo 1001)]"
    using demo_served[of 20] by (auto simp: demo_after_def Let_def)
  have w: "tcp_wire (transport u') = cl_peer c"
    using tcp.submit_seq_stream[OF f(2) u f(3)] f(1) d(3) eq by simp
  have "\<exists>oid. response_dispatch (cl_answers c ! 0) (Some 0) (length (cl_answers c ! 0)) =
      Some (Some (RAccepted (accepted_for (intent_order 77 demo_client_intent) oid)))"
    using exchange_end_to_end[OF d(1,2) u f(3,1,2)] d(4) w unfolding Let_def by simp
  then show ?thesis using d u w eq by (intro exI[of _ s] exI[of _ c] exI[of _ u']) simp
qed

text \<open>C27. Pending output is written as soon as the connection takes it: when the client of a reachable state becomes
  writable and the coming writes together take at least the pending bytes, however small the
  pieces, the server writes all of it, so that the client has every answer to its messages, and
  goes back to waiting for input only.\<close>

theorem pending_output_drains:
  assumes "server_reach x s" "srv_clients s fd = Some c" "tlsHandshakeComplete c" "sendBuffer c \<noteq> []"
    "cl_tx c = map Taken ks" "length (sendBuffer c) \<le> sentBytes c + sum_list (map (max 1) ks)" "os_ctl s = []"
  shows "\<exists>s' c'. serve_client fd {EPOLLOUT} s = Some s' \<and> srv_clients s' fd = Some c' \<and>
    cl_answers c' = cl_answers c \<and> cl_wire c' = concat (cl_answers c') \<and> sendBuffer c' = [] \<and> cl_interest c' = {EPOLLIN}"
proof -
  have c: "out_ok c" using reach_inv[OF assms(1)] assms(2) by (auto simp: server_inv_def client_inv_def client_ok_def)
  obtain c1 where f: "flush_loop (cl_tx c) c = (Flushed, c1)" using flush_loop_drains[OF assms(6)] assms(5) by auto
  note F = flush_loop_ok[OF f c]
  then have w: "cl_wire c1 = concat (cl_answers c1)" "cl_answers c1 = cl_answers c"
    using in_part_eqD(7)[of c1 c] by (auto simp: out_ok_def)
  show ?thesis
    using assms(2-4,7) f w
    by (simp add: serve_client_def flushPendingWrite_def updateClientEvents_def set_client_def)
qed

theorem pending_output_drains_witness:
  "\<exists>s s' c'. server_reach demo_exchange s \<and> srv_clients s 5 = Some ((demo_after 20)\<lparr>cl_tx := [Taken 30, Taken 14]\<rparr>) \<and>
     serve_client 5 {EPOLLOUT} s = Some s' \<and> srv_clients s' 5 = Some c' \<and>
     cl_wire c' = accepted_bytes (accepted_for enter_demo 1001) \<and> sendBuffer c' = []"
proof -
  let ?r = "accepted_bytes (accepted_for enter_demo 1001)"
  let ?c = "(demo_after 20)\<lparr>cl_tx := [Taken 30, Taken 14]\<rparr>"
  obtain s0 where s0: "server_reach demo_exchange s0" "srv_clients s0 5 = Some (demo_after 20)" "os_ctl s0 = []"
    using demo_served[of 20] by auto
  let ?s = "network (CallResults 5 [] [Taken 30, Taken 14] []) s0"
  have len: "length ?r = 64" by (simp add: accepted_bytes_def accepted_for_def enter_demo_def)
  have n: "(demo_after 20)\<lparr>cl_rx := [], cl_tx := [Taken 30, Taken 14], cl_hs := []\<rparr> = ?c"
    by (simp add: demo_after_def new_client_def Let_def)
  have s: "server_reach demo_exchange ?s" by (rule reach_network[OF s0(1)])
  have t: "srv_clients ?s 5 = Some ?c" "os_ctl ?s = []" using s0(2,3) n by simp_all
  have c: "tlsHandshakeComplete ?c" "sendBuffer ?c \<noteq> []" "cl_tx ?c = map Taken [30, 14]"
    "length (sendBuffer ?c) \<le> sentBytes ?c + sum_list (map (max 1) [30, 14])" "cl_answers ?c = [?r]"
    using len by (auto simp: demo_after_def new_client_def Let_def)
  obtain s' c' where d: "serve_client 5 {EPOLLOUT} ?s = Some s'" "srv_clients s' 5 = Some c'" "cl_answers c' = cl_answers ?c"
    "cl_wire c' = concat (cl_answers c')" "sendBuffer c' = []"
    using pending_output_drains[OF s t(1) c(1-4) t(2)] by blast
  have "cl_wire c' = ?r" unfolding d(4,3) c(5) by simp
  with s t(1) d(1,2,5) show ?thesis by blast
qed



end
