(* ===== verification/RuntimeConfig.thy ===== *)
theory RuntimeConfig
  imports Prelude
begin

text \<open>
  The command lines of the two runtimes, \<^verbatim>\<open>apps/trading_runtime.cpp\<close> and \<^verbatim>\<open>apps/exchange_runtime.cpp\<close>: the
  number parsers on \<^verbatim>\<open>std::from_chars\<close>, the argument loops of both \<^verbatim>\<open>main\<close> functions and the checks after them.
  Arguments are the strings after the program name; a message on \<^verbatim>\<open>std::cerr\<close> followed by \<^verbatim>\<open>return 1\<close> is a
  value of \<open>cli_error\<close>.  What is shown is which configurations can result: exactly the
  well-formed ones, each from the command line the usage text describes.
\<close>

section \<open>Numbers\<close>

datatype errc = errc_ok | invalid_argument | result_out_of_range

definition is_digit :: "char \<Rightarrow> bool" where
  "is_digit c \<longleftrightarrow> 48 \<le> (of_char c :: nat) \<and> (of_char c :: nat) \<le> 57"

definition decimal :: "string \<Rightarrow> nat" where
  "decimal s = foldl (\<lambda>v c. 10 * v + (of_char c - 48)) 0 s"

text \<open>\<^verbatim>\<open>std::from_chars\<close> for an unsigned type with the given largest value: the value, the rest of the
  string from the returned pointer on, and the error.\<close>

definition from_chars :: "nat \<Rightarrow> string \<Rightarrow> nat \<Rightarrow> nat \<times> string \<times> errc" where
  "from_chars largest s v =
     (let ds = takeWhile is_digit s; rest = dropWhile is_digit s
      in if ds = [] then (v, s, invalid_argument)
         else if decimal ds > largest then (v, rest, result_out_of_range)
         else (decimal ds, rest, errc_ok))"

definition parseCpuIndex :: "string \<Rightarrow> nat \<Rightarrow> bool \<times> nat" where
  "parseCpuIndex s cpuIndex =
     (let (v, rest, error) = from_chars (2 ^ 64 - 1) s cpuIndex in (error = errc_ok \<and> rest = [], v))"

definition parsePort :: "string \<Rightarrow> u16 \<Rightarrow> bool \<times> u16" where
  "parsePort s port =
     (let (parsedPort, rest, error) = from_chars (2 ^ 32 - 1) s 0
      in if error \<noteq> errc_ok \<or> rest \<noteq> [] \<or> parsedPort = 0 \<or> parsedPort > 65535 then (False, port)
         else (True, of_nat parsedPort))"

definition exchange_parsePort :: "string \<Rightarrow> u16 \<Rightarrow> bool \<times> u16" where
  "exchange_parsePort s port =
     (let (parsedPort, rest, error) = from_chars (2 ^ 32 - 1) s 0
      in if error \<noteq> errc_ok \<or> rest \<noteq> [] \<or> parsedPort > 65535 then (False, port)
         else (True, of_nat parsedPort))"

section \<open>Trading runtime\<close>

datatype InputMode = Replay | Dpdk
datatype ExecutionMode = Recording | Tls

datatype cli_error =
    Usage | MissingValue string | MissingReplayFile | UnknownMode string | InvalidCpu string | UnknownExecution string
  | InvalidPort string | UnknownArgument string | ModeMissing | ReplayFileMissing | RxCpuInReplayMode
  | TlsPortMissing | TlsCaMissing | CertificateMissing | PrivateKeyMissing

record trading_options =
  mode :: "InputMode option"
  replayFile :: "string option"
  rxCpu :: "nat option"
  pipelineCpu :: "nat option"
  executionMode :: ExecutionMode
  executionHost :: string
  executionPort :: u16
  caCertificatePath :: string

definition trading_defaults :: trading_options where
  "trading_defaults = \<lparr>mode = None, replayFile = None, rxCpu = None, pipelineCpu = None, executionMode = Recording,
     executionHost = ''127.0.0.1'', executionPort = 0, caCertificatePath = []\<rparr>"

text \<open>The branches of the argument loop for one option, given the arguments that follow it: the
  arguments left and the options.\<close>

fun mode_argument :: "string list \<Rightarrow> trading_options \<Rightarrow> cli_error + (string list \<times> trading_options)" where
  "mode_argument [] s = Inl (MissingValue ''--mode'')"
| "mode_argument (modeValue # rest) s =
     (if modeValue = ''replay''
      then (case rest of [] \<Rightarrow> Inl MissingReplayFile
            | file # rest' \<Rightarrow> Inr (rest', s\<lparr>mode := Some Replay, replayFile := Some file\<rparr>))
      else if modeValue = ''dpdk'' then Inr (rest, s\<lparr>mode := Some Dpdk\<rparr>)
      else Inl (UnknownMode modeValue))"

definition trading_value :: "string \<Rightarrow> string \<Rightarrow> trading_options \<Rightarrow> cli_error + trading_options" where
  "trading_value argument v s =
     (if argument = ''--rx-cpu''
      then let (ok, cpuIndex) = parseCpuIndex v 0 in if ok then Inr (s\<lparr>rxCpu := Some cpuIndex\<rparr>) else Inl (InvalidCpu v)
      else if argument = ''--pipeline-cpu''
      then let (ok, cpuIndex) = parseCpuIndex v 0 in if ok then Inr (s\<lparr>pipelineCpu := Some cpuIndex\<rparr>) else Inl (InvalidCpu v)
      else if argument = ''--execution''
      then if v = ''recording'' then Inr (s\<lparr>executionMode := Recording\<rparr>)
           else if v = ''tls'' then Inr (s\<lparr>executionMode := Tls\<rparr>)
           else Inl (UnknownExecution v)
      else if argument = ''--host'' then Inr (s\<lparr>executionHost := v\<rparr>)
      else if argument = ''--port''
      then let (ok, port) = parsePort v (executionPort s)
           in if ok then Inr (s\<lparr>executionPort := port\<rparr>) else Inl (InvalidPort v)
      else Inr (s\<lparr>caCertificatePath := v\<rparr>))"

definition trading_argument :: "string \<Rightarrow> string list \<Rightarrow> trading_options \<Rightarrow> cli_error + (string list \<times> trading_options)" where
  "trading_argument argument rest s =
     (if argument = ''--mode'' then mode_argument rest s
      else if argument \<notin> {''--rx-cpu'', ''--pipeline-cpu'', ''--execution'', ''--host'', ''--port'', ''--ca''}
      then Inl (UnknownArgument argument)
      else case rest of
        [] \<Rightarrow> Inl (MissingValue argument)
      | v # rest' \<Rightarrow> (case trading_value argument v s of Inl e \<Rightarrow> Inl e | Inr s' \<Rightarrow> Inr (rest', s')))"

lemma trading_argument_shorter:
  "trading_argument argument rest s = Inr (rest', s') \<Longrightarrow> length rest' \<le> length rest"
  by (cases rest) (auto simp: trading_argument_def split: if_splits list.splits sum.splits)

function trading_arguments :: "string list \<Rightarrow> trading_options \<Rightarrow> cli_error + trading_options" where
  "trading_arguments [] s = Inr s"
| "trading_arguments (argument # rest) s =
     (case trading_argument argument rest s of
        Inl e \<Rightarrow> Inl e
      | Inr (rest', s') \<Rightarrow> trading_arguments rest' s')"
  by pat_completeness auto
termination
  by (relation "measure (\<lambda>(args, _). length args)") (auto dest!: trading_argument_shorter)

definition trading_checks :: "trading_options \<Rightarrow> cli_error + trading_options" where
  "trading_checks s =
     (case mode s of
        None \<Rightarrow> Inl ModeMissing
      | Some m \<Rightarrow>
          if m = Replay \<and> replayFile s = None then Inl ReplayFileMissing
          else if m = Replay \<and> rxCpu s \<noteq> None then Inl RxCpuInReplayMode
          else if executionMode s = Tls \<and> executionPort s = 0 then Inl TlsPortMissing
          else if executionMode s = Tls \<and> caCertificatePath s = [] then Inl TlsCaMissing
          else Inr s)"

definition trading_config :: "string list \<Rightarrow> cli_error + trading_options" where
  "trading_config args =
     (if length args + 1 < 3 then Inl Usage
      else case trading_arguments args trading_defaults of
        Inl e \<Rightarrow> Inl e
      | Inr s \<Rightarrow> trading_checks s)"

section \<open>Exchange runtime\<close>

record exchange_options =
  ex_port :: u16
  ex_certificate :: string
  ex_key :: string

definition exchange_defaults :: exchange_options where
  "exchange_defaults = \<lparr>ex_port = 0, ex_certificate = [], ex_key = []\<rparr>"

fun exchange_arguments :: "string list \<Rightarrow> exchange_options \<Rightarrow> cli_error + exchange_options" where
  "exchange_arguments [] s = Inr s"
| "exchange_arguments [argument] s =
     (if argument \<in> {''--port'', ''--cert'', ''--key''} then Inl (MissingValue argument) else Inl (UnknownArgument argument))"
| "exchange_arguments (argument # v # rest) s =
     (if argument = ''--port''
      then let (ok, port) = exchange_parsePort v (ex_port s)
           in if ok then exchange_arguments rest (s\<lparr>ex_port := port\<rparr>) else Inl (InvalidPort v)
      else if argument = ''--cert'' then exchange_arguments rest (s\<lparr>ex_certificate := v\<rparr>)
      else if argument = ''--key'' then exchange_arguments rest (s\<lparr>ex_key := v\<rparr>)
      else Inl (UnknownArgument argument))"

definition exchange_config :: "string list \<Rightarrow> cli_error + exchange_options" where
  "exchange_config args =
     (case exchange_arguments args exchange_defaults of
        Inl e \<Rightarrow> Inl e
      | Inr s \<Rightarrow>
          if ex_certificate s = [] then Inl CertificateMissing
          else if ex_key s = [] then Inl PrivateKeyMissing
          else Inr s)"

section \<open>Numbers and their representation\<close>

definition is_number :: "string \<Rightarrow> bool" where
  "is_number s \<longleftrightarrow> s \<noteq> [] \<and> (\<forall>c\<in>set s. is_digit c)"

fun digits :: "nat \<Rightarrow> string" where
  "digits n = (if n < 10 then [char_of (48 + n)] else digits (n div 10) @ [char_of (48 + n mod 10)])"

declare digits.simps [simp del]

lemma digit_char:
  assumes "n < 10"
  shows "is_digit (char_of (48 + n))" "(of_char (char_of (48 + n) :: char) :: nat) = 48 + n"
  using assms by (simp_all add: is_digit_def)

lemma decimal_snoc: "decimal (s @ [c]) = 10 * decimal s + (of_char c - 48)"
  by (simp add: decimal_def)

lemma digits_number: "is_number (digits n) \<and> decimal (digits n) = n"
proof (induction n rule: digits.induct)
  case (1 n)
  show ?case
  proof (cases "n < 10")
    case True
    then show ?thesis by (simp add: digits.simps[of n] is_number_def digit_char decimal_def)
  next
    case False
    have d: "n mod 10 < 10" by simp
    from 1[OF False] show ?thesis
      unfolding digits.simps[of n] using False digit_char[OF d] by (auto simp: is_number_def decimal_snoc)
  qed
qed

lemma from_chars_number:
  "from_chars largest s v = (v', [], errc_ok) \<longleftrightarrow> is_number s \<and> decimal s \<le> largest \<and> v' = decimal s"
proof (cases "\<forall>c\<in>set s. is_digit c")
  case True
  then have t: "takeWhile is_digit s = s" "dropWhile is_digit s = []" by (auto simp: takeWhile_eq_all_conv dropWhile_eq_Nil_conv)
  show ?thesis using True unfolding from_chars_def t is_number_def by (auto simp: Let_def split: if_splits)
next
  case False
  then have "dropWhile is_digit s \<noteq> []" by (auto simp: dropWhile_eq_Nil_conv)
  then show ?thesis using False by (auto simp: from_chars_def is_number_def Let_def split: if_splits)
qed

lemma parse_exact:
  "parseCpuIndex s v = (True, n) \<longleftrightarrow> is_number s \<and> decimal s < 2 ^ 64 \<and> n = decimal s"
  "parsePort s port = (if is_number s \<and> 0 < decimal s \<and> decimal s \<le> 65535 then (True, of_nat (decimal s)) else (False, port))"
  "exchange_parsePort s port = (if is_number s \<and> decimal s \<le> 65535 then (True, of_nat (decimal s)) else (False, port))"
proof -
  obtain v' rest e where f: "from_chars (2 ^ 64 - 1) s v = (v', rest, e)" by (metis prod_cases3)
  show "parseCpuIndex s v = (True, n) \<longleftrightarrow> is_number s \<and> decimal s < 2 ^ 64 \<and> n = decimal s"
    using from_chars_number[of "2 ^ 64 - 1" s v n] f by (auto simp: parseCpuIndex_def)
  obtain u rest' e' where g: "from_chars (2 ^ 32 - 1) s 0 = (u, rest', e')" by (metis prod_cases3)
  have "e' = errc_ok \<and> rest' = [] \<longleftrightarrow> is_number s \<and> decimal s \<le> 2 ^ 32 - 1"
    "e' = errc_ok \<and> rest' = [] \<Longrightarrow> u = decimal s"
    using from_chars_number[of "2 ^ 32 - 1" s 0 u] from_chars_number[of "2 ^ 32 - 1" s 0 "decimal s"] g by auto
  then show "parsePort s port = (if is_number s \<and> 0 < decimal s \<and> decimal s \<le> 65535 then (True, of_nat (decimal s)) else (False, port))"
    "exchange_parsePort s port = (if is_number s \<and> decimal s \<le> 65535 then (True, of_nat (decimal s)) else (False, port))"
    using g by (auto simp: parsePort_def exchange_parsePort_def)
qed

section \<open>Configurations\<close>

definition options_wf :: "trading_options \<Rightarrow> bool" where
  "options_wf s \<longleftrightarrow> mode s \<noteq> None \<and> (mode s = Some Replay \<longrightarrow> replayFile s \<noteq> None \<and> rxCpu s = None) \<and>
     (\<forall>n. rxCpu s = Some n \<longrightarrow> n < 2 ^ 64) \<and> (\<forall>n. pipelineCpu s = Some n \<longrightarrow> n < 2 ^ 64) \<and>
     (executionMode s = Tls \<longrightarrow> executionPort s \<noteq> 0 \<and> caCertificatePath s \<noteq> [])"

text \<open>The command line of the usage text for a configuration.\<close>

definition usage_line :: "trading_options \<Rightarrow> string list" where
  "usage_line s =
     (case replayFile s of None \<Rightarrow> [] | Some f \<Rightarrow> [''--mode'', ''replay'', f]) @
     (if mode s = Some Dpdk then [''--mode'', ''dpdk''] else []) @
     (case rxCpu s of None \<Rightarrow> [] | Some n \<Rightarrow> [''--rx-cpu'', digits n]) @
     (case pipelineCpu s of None \<Rightarrow> [] | Some n \<Rightarrow> [''--pipeline-cpu'', digits n]) @
     [''--execution'', if executionMode s = Tls then ''tls'' else ''recording'', ''--host'', executionHost s] @
     (if executionPort s = 0 then [] else [''--port'', digits (unat (executionPort s))]) @
     [''--ca'', caCertificatePath s]"

definition cpus_ok :: "trading_options \<Rightarrow> bool" where
  "cpus_ok s \<longleftrightarrow> (\<forall>n. rxCpu s = Some n \<longrightarrow> n < 2 ^ 64) \<and> (\<forall>n. pipelineCpu s = Some n \<longrightarrow> n < 2 ^ 64)"

lemma trading_value_cpus: "trading_value a v s = Inr s' \<Longrightarrow> cpus_ok s \<Longrightarrow> cpus_ok s'"
  using parse_exact(1)[of v 0]
  by (auto simp: trading_value_def cpus_ok_def Let_def split: if_splits prod.splits)

lemma mode_argument_cpus: "mode_argument args s = Inr (rest, s') \<Longrightarrow> cpus_ok s \<Longrightarrow> cpus_ok s'"
  by (cases args) (auto simp: cpus_ok_def split: if_splits list.splits)

lemma trading_arguments_cpus: "trading_arguments args s = Inr s' \<Longrightarrow> cpus_ok s \<Longrightarrow> cpus_ok s'"
proof (induction args s rule: trading_arguments.induct)
  case (2 argument rest s)
  then obtain rest' t where t: "trading_argument argument rest s = Inr (rest', t)" "trading_arguments rest' t = Inr s'"
    by (auto split: sum.splits)
  have "cpus_ok t"
    using t(1) 2(3) by (auto simp: trading_argument_def dest: trading_value_cpus mode_argument_cpus split: if_splits list.splits sum.splits)
  then show ?case using 2(1)[OF t(1) refl] t(2) by blast
qed simp

lemma trading_config_wf:
  assumes "trading_config args = Inr s"
  shows "options_wf s"
proof -
  obtain s0 where s: "trading_arguments args trading_defaults = Inr s0" "trading_checks s0 = Inr s"
    using assms by (auto simp: trading_config_def split: if_splits sum.splits)
  have "cpus_ok s0" using trading_arguments_cpus[OF s(1)] by (simp add: cpus_ok_def trading_defaults_def)
  then show ?thesis
    using s(2) by (auto simp: trading_checks_def options_wf_def cpus_ok_def split: option.splits if_splits)
qed

text \<open>Each part of the line does what it says.\<close>

lemma port_digits: "(p :: u16) \<noteq> 0 \<Longrightarrow> parsePort (digits (unat p)) q = (True, p)"
proof -
  assume p: "p \<noteq> 0"
  have "unat p < 2 ^ LENGTH(16)" by (rule unsigned_less)
  then show ?thesis using p digits_number[of "unat p"] by (simp add: parse_exact unat_gt_0)
qed

lemma line_parts:
  "trading_arguments (''--mode'' # ''replay'' # f # rest) s = trading_arguments rest (s\<lparr>mode := Some Replay, replayFile := Some f\<rparr>)"
  "trading_arguments (''--mode'' # ''dpdk'' # rest) s = trading_arguments rest (s\<lparr>mode := Some Dpdk\<rparr>)"
  "n < 2 ^ 64 \<Longrightarrow> trading_arguments (''--rx-cpu'' # digits n # rest) s = trading_arguments rest (s\<lparr>rxCpu := Some n\<rparr>)"
  "n < 2 ^ 64 \<Longrightarrow> trading_arguments (''--pipeline-cpu'' # digits n # rest) s = trading_arguments rest (s\<lparr>pipelineCpu := Some n\<rparr>)"
  "trading_arguments (''--execution'' # ''tls'' # rest) s = trading_arguments rest (s\<lparr>executionMode := Tls\<rparr>)"
  "trading_arguments (''--execution'' # ''recording'' # rest) s = trading_arguments rest (s\<lparr>executionMode := Recording\<rparr>)"
  "trading_arguments (''--host'' # h # rest) s = trading_arguments rest (s\<lparr>executionHost := h\<rparr>)"
  "p \<noteq> 0 \<Longrightarrow> trading_arguments (''--port'' # digits (unat p) # rest) s = trading_arguments rest (s\<lparr>executionPort := p\<rparr>)"
  "trading_arguments (''--ca'' # c # rest) s = trading_arguments rest (s\<lparr>caCertificatePath := c\<rparr>)"
proof -
  have cpu: "parseCpuIndex (digits n) 0 = (True, n)" if "n < 2 ^ 64"
    using that digits_number[of n] by (simp add: parse_exact)
  show "n < 2 ^ 64 \<Longrightarrow> trading_arguments (''--rx-cpu'' # digits n # rest) s = trading_arguments rest (s\<lparr>rxCpu := Some n\<rparr>)"
    "n < 2 ^ 64 \<Longrightarrow> trading_arguments (''--pipeline-cpu'' # digits n # rest) s = trading_arguments rest (s\<lparr>pipelineCpu := Some n\<rparr>)"
    using cpu by (simp_all add: trading_argument_def trading_value_def)
qed (simp_all add: trading_argument_def trading_value_def port_digits)

lemma usage_line_config:
  assumes "options_wf s"
  shows "trading_config (usage_line s) = Inr s"
proof -
  have "trading_arguments (usage_line s) trading_defaults = Inr s"
  proof (cases "mode s")
    case (Some m)
    then show ?thesis
      using assms
      by (cases m; cases "replayFile s"; cases "rxCpu s"; cases "pipelineCpu s"; cases "executionMode s"; cases s)
        (auto simp: usage_line_def options_wf_def line_parts trading_defaults_def simp del: trading_arguments.simps(2))
  qed (use assms in \<open>simp add: options_wf_def\<close>)
  moreover have "trading_checks s = Inr s" using assms by (auto simp: trading_checks_def options_wf_def)
  ultimately show ?thesis by (simp add: trading_config_def usage_line_def)
qed

text \<open>The same for the exchange.\<close>

definition exchange_line :: "exchange_options \<Rightarrow> string list" where
  "exchange_line s = [''--port'', digits (unat (ex_port s)), ''--cert'', ex_certificate s, ''--key'', ex_key s]"

lemma exchange_line_config:
  assumes "ex_certificate s \<noteq> []" "ex_key s \<noteq> []"
  shows "exchange_config (exchange_line s) = Inr s"
proof -
  have "unat (ex_port s) < 2 ^ LENGTH(16)" by (rule unsigned_less)
  then have "exchange_parsePort (digits (unat (ex_port s))) 0 = (True, ex_port s)"
    using digits_number[of "unat (ex_port s)"] by (simp add: parse_exact)
  then show ?thesis using assms by (cases s) (simp add: exchange_config_def exchange_line_def exchange_defaults_def)
qed

lemma exchange_config_wf: "exchange_config args = Inr s \<Longrightarrow> ex_certificate s \<noteq> [] \<and> ex_key s \<noteq> []"
  by (auto simp: exchange_config_def split: sum.splits if_splits)

section \<open>Properties\<close>

text \<open>C30. The configurations of the runtimes are exactly the well-formed ones.  Whatever the arguments, a
  configuration the trading runtime accepts has an input mode, a file and no receive CPU in replay
  mode, CPU numbers of 64 bits, and for TLS a port and a certificate authority; one the exchange
  accepts has a certificate and a key.  And each such configuration is what its command line in the usage
  text means, so none is out of reach and no option disturbs another.\<close>

theorem runtime_options:
  "(trading_config args = Inr s \<longrightarrow> options_wf s) \<and> (options_wf s \<longrightarrow> trading_config (usage_line s) = Inr s) \<and>
   (exchange_config args' = Inr x \<longrightarrow> ex_certificate x \<noteq> [] \<and> ex_key x \<noteq> []) \<and>
   (ex_certificate x \<noteq> [] \<and> ex_key x \<noteq> [] \<longrightarrow> exchange_config (exchange_line x) = Inr x)"
  using trading_config_wf usage_line_config exchange_config_wf exchange_line_config by blast

definition demo_options :: trading_options where
  "demo_options = trading_defaults\<lparr>mode := Some Replay, replayFile := Some ''feed.itch'', executionMode := Tls,
     executionPort := 9000, caCertificatePath := ''ca.pem''\<rparr>"

theorem runtime_options_witness:
  "trading_config (usage_line demo_options) = Inr demo_options \<and> options_wf demo_options \<and>
   exchange_config (exchange_line \<lparr>ex_port = 0, ex_certificate = ''c'', ex_key = ''k''\<rparr>) =
     Inr \<lparr>ex_port = 0, ex_certificate = ''c'', ex_key = ''k''\<rparr>"
proof -
  have "options_wf demo_options" by (simp add: options_wf_def demo_options_def trading_defaults_def)
  with runtime_options[of "usage_line demo_options" demo_options "[]" "\<lparr>ex_port = 0, ex_certificate = ''c'', ex_key = ''k''\<rparr>"]
  show ?thesis by simp
qed

text \<open>C31. Port numbers: a string is accepted exactly when it is a non-empty sequence of decimal digits whose value is at most
  65535 and, for the trading runtime, not zero, however many digits it has; the result is that value, a
  rejected string leaves the port as it was, and the decimal representation of every port is read back as
  that port.\<close>

theorem port_parsing:
  "parsePort s port = (if is_number s \<and> 0 < decimal s \<and> decimal s \<le> 65535 then (True, of_nat (decimal s)) else (False, port)) \<and>
   exchange_parsePort s port = (if is_number s \<and> decimal s \<le> 65535 then (True, of_nat (decimal s)) else (False, port)) \<and>
   (p \<noteq> 0 \<longrightarrow> parsePort (digits (unat p)) port = (True, p))"
  using port_digits by (simp add: parse_exact)

theorem port_parsing_witness: "parsePort (digits 9000) 0 = (True, 9000)"
  using port_parsing[of "[]" 0 9000] by simp

end
