(* ===== verification/ExchangeRuntime.thy ===== *)
theory ExchangeRuntime
  imports ExchangeSystem RuntimeConfig
begin

text \<open>
  \<^verbatim>\<open>apps/exchange_runtime.cpp\<close>: the exchange process from its command line to its end.  The event loop has no exit of
  its own; it is run for a given number of rounds, each with what happens on the network before it and the
  results of its system calls, and ends early when a round fails.  The engine starts empty.
\<close>

section \<open>Main\<close>

type_synonym loop_round = "net_event list \<times> poll_reply \<times> accept_reply list"

fun exchange_loop :: "loop_round list \<Rightarrow> server \<Rightarrow> (bool \<times> server) option" where
  "exchange_loop [] s = Some (True, s)"
| "exchange_loop ((events, reply, accepts) # rounds) s = do {
     (ok, s') \<leftarrow> pollOnce reply accepts (fold network events s);
     if ok then exchange_loop rounds s' else Some (False, s')
   }"

datatype exchange_run = ConfigError cli_error | StartFailed server | Stopped server | Running server

text \<open>The server's destructor stops it on every way out.\<close>

definition exchange_main :: "string list \<Rightarrow> engine \<Rightarrow> start_results \<Rightarrow> loop_round list \<Rightarrow> exchange_run option" where
  "exchange_main args e r rounds =
     (case exchange_config args of
        Inl err \<Rightarrow> Some (ConfigError err)
      | Inr opts \<Rightarrow>
          let (ok, s) = start r (new_server (ex_port opts) 1001 (e, Map.empty) (ex_certificate opts) (ex_key opts))
          in if \<not> ok then Some (StartFailed (stop s))
             else do {
               (running, s') \<leftarrow> exchange_loop rounds s;
               Some (if running then Running s' else Stopped (stop s'))
             })"

section \<open>Invariants of a run\<close>

definition epoll_fd :: "start_results \<Rightarrow> int" where
  "epoll_fd r =
     (case (r_socket r, r_epoll r) of
        (Some j, Some k) \<Rightarrow> fresh_fd k [fresh_fd j []]
      | _ \<Rightarrow> -1)"

definition rounds_valid :: "int \<Rightarrow> loop_round list \<Rightarrow> bool" where
  "rounds_valid ep rounds \<longleftrightarrow>
     list_all (\<lambda>(_, reply, _). case reply of PollEvents events \<Rightarrow> ep \<notin> fst ` set events | PollError _ \<Rightarrow> True) rounds"

lemma start_ok:
  assumes "start r (new_server prt acc x cert key) = (True, s)" "cert \<noteq> []" "key \<noteq> []"
  shows "tls_only s" "srv_epoll s = epoll_fd r"
proof -
  let ?n = "new_server prt acc x cert key"
  obtain t s0 where i: "initializeTls r ?n = (t, s0)" by force
  let ?s1 = "open_listen r s0" let ?s3 = "open_epoll r (bound_port r ?s1)"
  have t: "t" and s: "s = ?s3" and l: "\<not> srv_listen ?s1 < 0" and ep: "\<not> srv_epoll ?s3 < 0"
    using assms(1) i by (auto simp: start_def Let_def split: if_splits)
  have s0: "srv_context s0" "srv_clients s0 = Map.empty" "os_open s0 = []"
    using i t assms(2,3) by (auto simp: initializeTls_def new_server_def Let_def split: if_splits)
  then have "srv_context ?s3" "srv_clients ?s3 = Map.empty"
    by (auto simp: open_listen_def open_epoll_def bound_port_def open_fd_def split: option.splits)
  then show "tls_only s" by (simp add: s tls_only_def)
  show "srv_epoll s = epoll_fd r"
    using l ep s0(3) unfolding s
    by (auto simp: epoll_fd_def open_listen_def open_epoll_def bound_port_def open_fd_def split: option.splits)
qed

lemma network_fold:
  assumes "server_reach x s" "tls_only s"
  shows "server_reach x (fold network events s) \<and> tls_only (fold network events s) \<and> srv_epoll (fold network events s) = srv_epoll s"
  using assms
proof (induction events arbitrary: s)
  case (Cons ev events)
  have "tls_only (network ev s)" using Cons.prems(2) by (cases ev) (auto simp: tls_only_def split: if_splits)
  moreover have "srv_epoll (network ev s) = srv_epoll s" by (cases ev) auto
  ultimately show ?case using Cons.IH[OF reach_network[OF Cons.prems(1)]] by simp
qed simp

lemma exchange_loop_inv:
  assumes "exchange_loop rounds s = Some (ok, s')" "server_reach x s" "tls_only s" "rounds_valid (srv_epoll s) rounds"
  shows "server_reach x s' \<and> tls_only s'"
  using assms
proof (induction rounds s rule: exchange_loop.induct)
  case (2 events reply accepts rounds s)
  let ?s = "fold network events s"
  note N = network_fold[OF 2(3,4), of events]
  obtain ok1 s1 where p: "pollOnce reply accepts ?s = Some (ok1, s1)"
    and rest: "(if ok1 then exchange_loop rounds s1 else Some (False, s1)) = Some (ok, s')"
    using 2(2) by (auto simp: bind_eq_Some_conv)
  have v: "poll_valid ?s reply" "rounds_valid (srv_epoll s) rounds"
    using 2(5) N by (cases reply; auto simp: rounds_valid_def)+
  have r: "server_reach x s1" using reach_poll[OF _ v(1) p] N by blast
  have inv: "server_inv x ?s" using reach_inv N by blast
  have k: "keeps x ?s s1" by (rule pollOnce_inv[OF p inv]) (use v(1) in auto)
  have t: "tls_only s1"
  proof (cases reply)
    case (PollEvents evs)
    have "srv_epoll ?s \<notin> fst ` set (take MaxEvents evs)" using v(1) PollEvents set_take_subset[of MaxEvents evs] by auto
    then show ?thesis
      using p PollEvents N poll_loop_tls[OF _ inv] by (auto simp: pollOnce_def split: if_splits)
  qed (use p N in \<open>auto simp: pollOnce_def split: if_splits\<close>)
  show ?case
  proof (cases ok1)
    case True
    then show ?thesis using 2(1)[OF p refl True _ r t] rest v(2) k N by (simp add: keeps_def)
  qed (use rest r t in auto)
qed simp

definition released :: "server \<Rightarrow> bool" where
  "released s \<longleftrightarrow> os_open s = [] \<and> os_ssl s = {} \<and> os_ctx s = 0 \<and> srv_clients s = Map.empty"

lemma stop_released: "server_inv x s \<Longrightarrow> released (stop s)"
  using stop_releases[of s] by (simp add: released_def server_inv_def)

section \<open>Properties\<close>

text \<open>C22. The exchange process, whatever its arguments, the network and the results of its system calls: without a certificate and
  a key it does not start; as long as it runs, its server is in a reachable state and every
  connected client speaks TLS, so no order is ever taken from a plain connection; and when the start or the loop
  fails it ends with every descriptor closed and every TLS object freed.\<close>

theorem exchange_runtime_safe:
  assumes "exchange_main args e r rounds = Some run" "rounds_valid (epoll_fd r) rounds"
  shows "case run of
      ConfigError err \<Rightarrow> exchange_config args = Inl err
    | StartFailed s \<Rightarrow> released s
    | Stopped s \<Rightarrow> released s
    | Running s \<Rightarrow> server_reach (e, Map.empty) s \<and> srv_context s \<and> (\<forall>fd c. srv_clients s fd = Some c \<longrightarrow> ssl c)"
proof (cases "exchange_config args")
  case (Inl err)
  then show ?thesis using assms(1) by (auto simp: exchange_main_def)
next
  case (Inr opts)
  let ?n = "new_server (ex_port opts) 1001 (e, Map.empty) (ex_certificate opts) (ex_key opts)"
  obtain ok s where st: "start r ?n = (ok, s)" by force
  have reach: "server_reach (e, Map.empty) s" by (rule reach_start[OF reach_new _ st]) (rule new_server_inv)
  show ?thesis
  proof (cases ok)
    case False
    then have "run = StartFailed (stop s)" using assms(1) Inr st by (simp add: exchange_main_def)
    then show ?thesis using stop_released[OF reach_inv[OF reach]] by simp
  next
    case True
    note K = start_ok[of r "ex_port opts" 1001 "(e, Map.empty)" "ex_certificate opts" "ex_key opts" s]
    have tls: "tls_only s" "rounds_valid (srv_epoll s) rounds"
      using K st True exchange_config_wf[OF Inr] assms(2) by auto
    obtain running s' where l: "exchange_loop rounds s = Some (running, s')"
      and run: "run = (if running then Running s' else Stopped (stop s'))"
      using assms(1) Inr st True by (auto simp: exchange_main_def bind_eq_Some_conv)
    have L: "server_reach (e, Map.empty) s'" "tls_only s'" using exchange_loop_inv[OF l reach tls] by simp_all
    then show ?thesis using run stop_released[OF reach_inv[OF L(1)]] by (auto simp: tls_only_def)
  qed
qed

definition demo_exchange_options :: exchange_options where
  "demo_exchange_options = \<lparr>ex_port = 9000, ex_certificate = ''cert.pem'', ex_key = ''key.pem''\<rparr>"

theorem exchange_runtime_safe_witness:
  "\<exists>s c. exchange_main (exchange_line demo_exchange_options) (new_engine demo_heap 16) demo_results
       [([], PollEvents [(3, {EPOLLIN})], [AcceptFd 5 True True True])] = Some (Running s) \<and>
     srv_clients s 5 = Some c \<and> ssl c"
proof -
  let ?r = "[([], PollEvents [(3, {EPOLLIN})], [AcceptFd 5 True True True])]"
  have cfg: "exchange_config (exchange_line demo_exchange_options) = Inr demo_exchange_options"
    by (rule exchange_line_config) (simp_all add: demo_exchange_options_def)
  obtain s where s: "exchange_main (exchange_line demo_exchange_options) (new_engine demo_heap 16) demo_results ?r = Some (Running s)"
    "srv_clients s 5 \<noteq> None"
    using cfg
    by (auto simp: exchange_main_def demo_exchange_options_def start_def initializeTls_def demo_results_def new_server_def open_listen_def
        open_epoll_def open_fd_def fresh_fd_def bound_port_def setNonBlocking_def pollOnce_def MaxEvents_def emplace_def set_client_def)
  have v: "rounds_valid (epoll_fd demo_results) ?r"
    by (simp add: rounds_valid_def epoll_fd_def demo_results_def fresh_fd_def)
  from exchange_runtime_safe[OF s(1) v] s show ?thesis by auto
qed

end
