(* ===== verification/PacketReceiver.thy ===== *)
theory PacketReceiver
  imports Wire
begin

text \<open>
  The Ethernet, IPv4 and UDP header parsers (\<^verbatim>\<open>dpdk/parser/ethernet\<close>, \<^verbatim>\<open>ipv4\<close>, \<^verbatim>\<open>udp\<close>) and the
  receiver that applies them to every packet of a burst (\<^verbatim>\<open>dpdk/receiver/receiver.cpp\<close>).

  The parsers lay packed headers over the packet's bytes: a header pointer is an offset, a
  \<^verbatim>\<open>std::span\<close> a pointer and a length.  The length is what the code believes; only an access beyond
  the packet's own bytes is undefined.  A packet of DPDK is an \<open>mbuf\<close>: its identity, the bytes of
  its data segment and \<^verbatim>\<open>pkt_len\<close>.  The DPDK calls of the set-up sequence are parameters: what
  each of them returns.
\<close>

type_synonym span = "cptr \<times> nat"

section \<open>Ethernet\<close>

definition EthernetHeader_size :: nat where "EthernetHeader_size = 14"

definition eth_parse :: "span \<Rightarrow> cptr" where
  "eth_parse data = (if snd data < EthernetHeader_size then None else fst data)"

definition eth_parse_ptr :: "cptr \<Rightarrow> nat \<Rightarrow> cptr" where
  "eth_parse_ptr data len = (case data of None \<Rightarrow> None | Some p \<Rightarrow> eth_parse (data, len))"

definition etherType :: "endian \<Rightarrow> buffer \<Rightarrow> cptr \<Rightarrow> u16 option" where
  "etherType E mem header = (case header of None \<Rightarrow> Some 0 | Some h \<Rightarrow> be_load E mem (h + 12))"

definition eth_payload :: "cptr \<Rightarrow> cptr" where
  "eth_payload header = (case header of None \<Rightarrow> None | Some h \<Rightarrow> Some (h + EthernetHeader_size))"

section \<open>IPv4\<close>

definition IPv4Header_size :: nat where "IPv4Header_size = 20"

definition ip_version :: "buffer \<Rightarrow> cptr \<Rightarrow> u8 option" where
  "ip_version mem header =
     (case header of None \<Rightarrow> Some 0 | Some h \<Rightarrow> map_option (drop_bit 4) (load8 mem h))"

definition headerLengthBytes :: "buffer \<Rightarrow> cptr \<Rightarrow> u8 option" where
  "headerLengthBytes mem header =
     (case header of None \<Rightarrow> Some 0 | Some h \<Rightarrow> map_option (\<lambda>v. (v AND 0x0F) * 4) (load8 mem h))"

definition ip_parse :: "buffer \<Rightarrow> span \<Rightarrow> cptr option" where
  "ip_parse mem data =
     (if snd data < IPv4Header_size then Some None
      else do {
        v \<leftarrow> ip_version mem (fst data);
        if v \<noteq> 4 then Some None
        else do {
          headerLength \<leftarrow> headerLengthBytes mem (fst data);
          if unat headerLength < IPv4Header_size then Some None
          else if snd data < unat headerLength then Some None
          else Some (fst data)
        }
      })"

definition ip_parse_ptr :: "buffer \<Rightarrow> cptr \<Rightarrow> nat \<Rightarrow> cptr option" where
  "ip_parse_ptr mem data len = (case data of None \<Rightarrow> Some None | Some p \<Rightarrow> ip_parse mem (data, len))"

definition totalLength :: "endian \<Rightarrow> buffer \<Rightarrow> cptr \<Rightarrow> u16 option" where
  "totalLength E mem header = (case header of None \<Rightarrow> Some 0 | Some h \<Rightarrow> be_load E mem (h + 2))"

definition ip_payload :: "buffer \<Rightarrow> cptr \<Rightarrow> cptr option" where
  "ip_payload mem header =
     (case header of None \<Rightarrow> Some None
      | Some h \<Rightarrow> map_option (\<lambda>n. Some (h + unat n)) (headerLengthBytes mem header))"

definition ip_payloadLength :: "endian \<Rightarrow> buffer \<Rightarrow> cptr \<Rightarrow> nat option" where
  "ip_payloadLength E mem header =
     (case header of None \<Rightarrow> Some 0
      | Some h \<Rightarrow> do {
          totalLengthValue \<leftarrow> totalLength E mem header;
          headerLength \<leftarrow> headerLengthBytes mem header;
          if unat totalLengthValue < unat headerLength then Some 0
          else Some (unat totalLengthValue - unat headerLength)
        })"

section \<open>UDP\<close>

definition UDPHeader_size :: nat where "UDPHeader_size = 8"

definition udp_parse :: "span \<Rightarrow> cptr" where
  "udp_parse data = (if snd data < UDPHeader_size then None else fst data)"

definition udp_parse_ptr :: "cptr \<Rightarrow> nat \<Rightarrow> cptr" where
  "udp_parse_ptr data len = (case data of None \<Rightarrow> None | Some p \<Rightarrow> udp_parse (data, len))"

definition sourcePort :: "endian \<Rightarrow> buffer \<Rightarrow> cptr \<Rightarrow> u16 option" where
  "sourcePort E mem header = (case header of None \<Rightarrow> Some 0 | Some h \<Rightarrow> be_load E mem h)"

definition destinationPort :: "endian \<Rightarrow> buffer \<Rightarrow> cptr \<Rightarrow> u16 option" where
  "destinationPort E mem header = (case header of None \<Rightarrow> Some 0 | Some h \<Rightarrow> be_load E mem (h + 2))"

definition udp_payloadLength :: "endian \<Rightarrow> buffer \<Rightarrow> cptr \<Rightarrow> u16 option" where
  "udp_payloadLength E mem header =
     (case header of None \<Rightarrow> Some 0
      | Some h \<Rightarrow> do {
          udpLength \<leftarrow> be_load E mem (h + 4);
          if unat udpLength < UDPHeader_size then Some 0
          else Some (udpLength - of_nat UDPHeader_size)
        })"

definition udp_payload :: "cptr \<Rightarrow> cptr" where
  "udp_payload header = (case header of None \<Rightarrow> None | Some h \<Rightarrow> Some (h + UDPHeader_size))"

section \<open>The receive loop\<close>

record mbuf =
  mb_id :: nat
  mb_data :: buffer
  mb_pkt_len :: nat

type_synonym 'x payload_sink = "buffer \<Rightarrow> span \<Rightarrow> 'x \<Rightarrow> (bool \<times> 'x) option"

record 'x receiver =
  packetCount :: u64
  byteCount :: u64
  freed :: "nat list"
  sink_state :: 'x

definition pktmbuf_free :: "mbuf \<Rightarrow> 'x receiver \<Rightarrow> 'x receiver" where
  "pktmbuf_free packet r = r\<lparr>freed := freed r @ [mb_id packet]\<rparr>"

definition deliver ::
  "endian \<Rightarrow> 'x payload_sink option \<Rightarrow> mbuf \<Rightarrow> cptr \<Rightarrow> 'x receiver \<Rightarrow> 'x receiver option" where
  "deliver E payloadSink packet udp r = do {
     let r1 = r\<lparr>packetCount := packetCount r + 1, byteCount := byteCount r + of_nat (mb_pkt_len packet)\<rparr>;
     let payload = udp_payload udp;
     payloadLength \<leftarrow> udp_payloadLength E (mb_data packet) udp;
     case payloadSink of
       None \<Rightarrow> Some (pktmbuf_free packet r1)
     | Some submit \<Rightarrow> do {
         (_, x) \<leftarrow> submit (mb_data packet) (payload, unat payloadLength) (sink_state r1);
         Some (pktmbuf_free packet (r1\<lparr>sink_state := x\<rparr>))
       }
   }"

definition rx_packet :: "endian \<Rightarrow> 'x payload_sink option \<Rightarrow> mbuf \<Rightarrow> 'x receiver \<Rightarrow> 'x receiver option" where
  "rx_packet E payloadSink packet r = (
     let mem = mb_data packet; packetLength = mb_pkt_len packet; ethernet = eth_parse (Some 0, packetLength)
     in if ethernet = None then Some (pktmbuf_free packet r)
        else do {
          etype \<leftarrow> etherType E mem ethernet;
          if etype \<noteq> 0x0800 then Some (pktmbuf_free packet r)
          else do {
            ipv4 \<leftarrow> ip_parse mem (eth_payload ethernet, packetLength - EthernetHeader_size);
            case ipv4 of None \<Rightarrow> Some (pktmbuf_free packet r)
            | Some ip \<Rightarrow> do {
                protocol \<leftarrow> load8 mem (ip + 9);
                if protocol \<noteq> 17 then Some (pktmbuf_free packet r)
                else do {
                  udpData \<leftarrow> ip_payload mem ipv4;
                  udpAvailableLength \<leftarrow> ip_payloadLength E mem ipv4;
                  let udp = udp_parse (udpData, udpAvailableLength);
                  if udp = None then Some (pktmbuf_free packet r)
                  else do {
                    port \<leftarrow> destinationPort E mem udp;
                    if port \<noteq> 9000 then Some (pktmbuf_free packet r)
                    else deliver E payloadSink packet udp r
                  }
                }
              }
          }
        })"

text \<open>One turn of the polling loop: a burst, then the report that resets the counters when a
  second has passed.\<close>

definition rx_iteration ::
  "endian \<Rightarrow> 'x payload_sink option \<Rightarrow> mbuf list \<Rightarrow> bool \<Rightarrow> 'x receiver \<Rightarrow> 'x receiver option" where
  "rx_iteration E payloadSink received elapsed r = do {
     r1 \<leftarrow> fold_opt (rx_packet E payloadSink) received r;
     Some (if elapsed then r1\<lparr>packetCount := 0, byteCount := 0\<rparr> else r1)
   }"

section \<open>Set-up\<close>

datatype dpdk_call = PoolCreate | DevCount | Configure nat | RxSetup nat | TxSetup nat | Start nat

text \<open>The results DPDK gives: whether the pool was created, how many ports there are and the
  return codes of the calls on a port.\<close>

record dpdk =
  pool_created :: bool
  dev_count :: nat
  configure_ret :: "nat \<Rightarrow> int"
  rx_ret :: "nat \<Rightarrow> int"
  tx_ret :: "nat \<Rightarrow> int"
  start_ret :: "nat \<Rightarrow> int"

definition createMempool :: "dpdk \<Rightarrow> bool \<times> dpdk_call list" where
  "createMempool d = (pool_created d, [PoolCreate])"

definition configurePort :: "dpdk \<Rightarrow> nat \<Rightarrow> bool \<times> dpdk_call list" where
  "configurePort d portId = (\<not> configure_ret d portId < 0, [Configure portId])"

definition setupRxQueue :: "dpdk \<Rightarrow> nat \<Rightarrow> bool \<times> dpdk_call list" where
  "setupRxQueue d portId = (\<not> rx_ret d portId < 0, [RxSetup portId])"

definition setupTxQueue :: "dpdk \<Rightarrow> nat \<Rightarrow> bool \<times> dpdk_call list" where
  "setupTxQueue d portId = (\<not> tx_ret d portId < 0, [TxSetup portId])"

definition startPort :: "dpdk \<Rightarrow> nat \<Rightarrow> bool \<times> dpdk_call list" where
  "startPort d portId = (\<not> start_ret d portId < 0, [Start portId])"

fun guarded :: "(bool \<times> dpdk_call list) list \<Rightarrow> bool \<times> dpdk_call list" where
  "guarded [] = (True, [])"
| "guarded ((ok, calls) # rest) =
     (if \<not> ok then (False, calls) else (case guarded rest of (ok', calls') \<Rightarrow> (ok', calls @ calls')))"

definition run_setup :: "dpdk \<Rightarrow> bool \<times> dpdk_call list" where
  "run_setup d = guarded [createMempool d, (dev_count d \<noteq> 0, [DevCount]), configurePort d 0,
     setupRxQueue d 0, setupTxQueue d 0, startPort d 0]"

section \<open>What the parsers guarantee\<close>

lemma ihl_bytes:
  fixes v :: u8
  shows "unat ((v AND 0x0F) * 4) = (unat v mod 16) * 4"
proof -
  have m4: "0x0F = (mask 4 :: u8)" by (simp add: mask_eq_exp_minus_1)
  have m: "unat (v AND 0x0F) = unat v mod 16"
    unfolding m4 take_bit_eq_mask[symmetric] unsigned_take_bit_eq by (simp add: take_bit_eq_mod)
  have "unat v mod 16 * 4 < 2 ^ LENGTH(8)" by simp
  then show ?thesis using m unat_mult_lem[of "v AND 0x0F" 4] by simp
qed

lemma headerLengthBytes_Some:
  "headerLengthBytes mem (Some h) = Some n \<Longrightarrow> unat n \<le> 60 \<and> h < length mem"
  by (auto simp: headerLengthBytes_def load8_def ihl_bytes split: if_splits)

text \<open>An accepted IPv4 header lies, options included, within the bytes the span claims.\<close>

lemma ip_parse_Some:
  assumes "ip_parse mem (Some p, n) = Some (Some h)"
  shows "h = p \<and> (\<exists>l. headerLengthBytes mem (Some h) = Some l \<and> 20 \<le> unat l \<and> unat l \<le> n) \<and>
    ip_version mem (Some h) = Some 4"
  using assms by (auto simp: ip_parse_def IPv4Header_size_def split: if_splits bind_splits)

lemma ip_parse_defined:
  assumes "p + n \<le> length mem"
  shows "ip_parse mem (Some p, n) \<noteq> None"
  using assms by (auto simp: ip_parse_def IPv4Header_size_def ip_version_def headerLengthBytes_def load8_def
      split: if_splits)

text \<open>Every packet of a burst is given back to DPDK exactly once, whatever it holds.\<close>

lemma rx_packet_freed:
  assumes "rx_packet E payloadSink packet r = Some r'"
  shows "freed r' = freed r @ [mb_id packet]"
  using assms
  by (auto simp: rx_packet_def deliver_def pktmbuf_free_def Let_def
      split: if_splits bind_splits option.splits prod.splits)

lemma rx_burst_freed:
  "fold_opt (rx_packet E payloadSink) ms r = Some r' \<Longrightarrow> freed r' = freed r @ map mb_id ms"
proof (induction ms arbitrary: r)
  case (Cons m ms)
  then obtain r1 where "rx_packet E payloadSink m r = Some r1" "fold_opt (rx_packet E payloadSink) ms r1 = Some r'"
    by (auto split: bind_splits)
  with Cons.IH[of r1] rx_packet_freed[of E payloadSink m r r1] show ?case by simp
qed simp

section \<open>Well-formed frames\<close>

text \<open>A UDP datagram in an IPv4 packet with options, in an Ethernet frame, followed by padding.\<close>

record frame =
  fr_macs :: "u8 list"
  fr_ihl :: nat
  fr_ip_a :: "u8 list"
  fr_ip_b :: "u8 list"
  fr_sport :: u16
  fr_dport :: u16
  fr_checksum :: u16
  fr_payload :: "u8 list"
  fr_padding :: "u8 list"

definition frame_ok :: "frame \<Rightarrow> bool" where
  "frame_ok f \<longleftrightarrow> length (fr_macs f) = 12 \<and> 5 \<le> fr_ihl f \<and> fr_ihl f \<le> 15 \<and> length (fr_ip_a f) = 5 \<and>
     length (fr_ip_b f) = 4 * fr_ihl f - 10 \<and> 4 * fr_ihl f + 8 + length (fr_payload f) < 2 ^ 16"

definition frame_head :: "frame \<Rightarrow> u8 list" where
  "frame_head f = fr_macs f @ be_bytes 2 (0x0800 :: u16)"

definition ip_head :: "frame \<Rightarrow> u8 list" where
  "ip_head f = [of_nat (64 + fr_ihl f), 0] @
     be_bytes 2 (of_nat (4 * fr_ihl f + 8 + length (fr_payload f)) :: u16) @ fr_ip_a f @ [17] @ fr_ip_b f"

definition udp_head :: "frame \<Rightarrow> u8 list" where
  "udp_head f = be_bytes 2 (fr_sport f) @ be_bytes 2 (fr_dport f) @
     be_bytes 2 (of_nat (8 + length (fr_payload f)) :: u16) @ be_bytes 2 (fr_checksum f)"

definition frame_bytes :: "frame \<Rightarrow> u8 list" where
  "frame_bytes f = frame_head f @ ip_head f @ udp_head f @ fr_payload f @ fr_padding f"

lemma frame_lengths:
  assumes "frame_ok f"
  shows "length (frame_head f) = 14" "length (ip_head f) = 4 * fr_ihl f" "length (udp_head f) = 8"
  using assms by (auto simp: frame_ok_def frame_head_def ip_head_def udp_head_def)

lemma frame_type:
  assumes "frame_ok f"
  shows "be_load E (frame_head f @ rest) 12 = Some (0x0800 :: u16)"
  using assms by (simp add: frame_ok_def frame_head_def n16.rd_skip n16.rd_hit)

lemma frame_ip_fields:
  assumes "frame_ok f"
  shows "load8 (frame_head f @ ip_head f @ rest) 14 = Some (of_nat (64 + fr_ihl f))"
    and "be_load E (frame_head f @ ip_head f @ rest) 16 =
      Some (of_nat (4 * fr_ihl f + 8 + length (fr_payload f)) :: u16)"
    and "load8 (frame_head f @ ip_head f @ rest) 23 = Some 17"
  using assms frame_lengths[OF assms]
  by (simp_all add: f8.rd_skip n16.rd_skip ip_head_def n16.rd_skip1 n16.rd_hit f8.rd_skip1 frame_ok_def)

lemma frame_version:
  assumes "frame_ok f"
  shows "ip_version (frame_head f @ ip_head f @ rest) (Some 14) = Some 4"
    and "\<exists>l. headerLengthBytes (frame_head f @ ip_head f @ rest) (Some 14) = Some l \<and> unat l = 4 * fr_ihl f"
proof -
  have u: "unat (of_nat (64 + fr_ihl f) :: u8) = 64 + fr_ihl f"
    using assms by (simp only: unat_of_nat) (simp add: frame_ok_def)
  have d: "(64 + fr_ihl f) div 16 = 4" "(64 + fr_ihl f) mod 16 = fr_ihl f"
    using assms mod_mult_self3[of 4 16 "fr_ihl f"] by (auto simp: frame_ok_def intro: div_nat_eqI)
  then have "unat (drop_bit 4 (of_nat (64 + fr_ihl f) :: u8)) = 4"
    unfolding unat_drop_bit_eq u by (simp add: drop_bit_eq_div)
  then have "drop_bit 4 (of_nat (64 + fr_ihl f) :: u8) = 4" by (simp add: word_unat_eq_iff)
  then show "ip_version (frame_head f @ ip_head f @ rest) (Some 14) = Some 4"
    using frame_ip_fields(1)[OF assms] by (simp add: ip_version_def)
  have "unat (((of_nat (64 + fr_ihl f) :: u8) AND 0x0F) * 4) = 4 * fr_ihl f"
    unfolding ihl_bytes u d by simp
  then show "\<exists>l. headerLengthBytes (frame_head f @ ip_head f @ rest) (Some 14) = Some l \<and> unat l = 4 * fr_ihl f"
    using frame_ip_fields(1)[OF assms] by (simp add: headerLengthBytes_def)
qed

lemma frame_ip:
  assumes "frame_ok f" "4 * fr_ihl f \<le> n"
  shows "ip_parse (frame_head f @ ip_head f @ rest) (Some 14, n) = Some (Some 14)"
    and "ip_payload (frame_head f @ ip_head f @ rest) (Some 14) = Some (Some (14 + 4 * fr_ihl f))"
    and "ip_payloadLength E (frame_head f @ ip_head f @ rest) (Some 14) = Some (8 + length (fr_payload f))"
proof -
  obtain l where l: "headerLengthBytes (frame_head f @ ip_head f @ rest) (Some 14) = Some l" "unat l = 4 * fr_ihl f"
    using frame_version(2)[OF assms(1)] by blast
  have ihl: "5 \<le> fr_ihl f" using assms(1) by (simp add: frame_ok_def)
  have t: "unat (of_nat (4 * fr_ihl f + 8 + length (fr_payload f)) :: u16) = 4 * fr_ihl f + 8 + length (fr_payload f)"
    using assms(1) by (simp only: unat_of_nat) (simp add: frame_ok_def)
  show "ip_parse (frame_head f @ ip_head f @ rest) (Some 14, n) = Some (Some 14)"
    using frame_version(1)[OF assms(1)] l ihl assms(2) by (simp add: ip_parse_def IPv4Header_size_def)
  show "ip_payload (frame_head f @ ip_head f @ rest) (Some 14) = Some (Some (14 + 4 * fr_ihl f))"
    using l by (simp add: ip_payload_def)
  have "totalLength E (frame_head f @ ip_head f @ rest) (Some 14) =
      Some (of_nat (4 * fr_ihl f + 8 + length (fr_payload f)))"
    using frame_ip_fields(2)[OF assms(1)] by (simp add: totalLength_def)
  then show "ip_payloadLength E (frame_head f @ ip_head f @ rest) (Some 14) = Some (8 + length (fr_payload f))"
    using l t by (simp add: ip_payloadLength_def)
qed

lemma frame_udp_fields:
  assumes "frame_ok f"
  shows "be_load E (frame_head f @ ip_head f @ udp_head f @ rest) (16 + 4 * fr_ihl f) = Some (fr_dport f)"
    and "be_load E (frame_head f @ ip_head f @ udp_head f @ rest) (18 + 4 * fr_ihl f) =
      Some (of_nat (8 + length (fr_payload f)) :: u16)"
  using frame_lengths[OF assms]
  by (simp_all add: n16.rd_skip udp_head_def n16.rd_hit)

text \<open>How the receiver takes a packet that starts like a well-formed frame, down to the UDP header.\<close>

lemma rx_packet_frame:
  assumes f: "frame_ok f" and m: "mb_data m = frame_head f @ ip_head f @ rest" "14 + 4 * fr_ihl f \<le> mb_pkt_len m"
  shows "rx_packet E payloadSink m r = do {
      port \<leftarrow> destinationPort E (mb_data m) (Some (14 + 4 * fr_ihl f));
      if port \<noteq> 9000 then Some (pktmbuf_free m r)
      else deliver E payloadSink m (Some (14 + 4 * fr_ihl f)) r
    }"
proof -
  have n: "4 * fr_ihl f \<le> mb_pkt_len m - 14" "\<not> mb_pkt_len m < 14" using m(2) by linarith+
  show ?thesis
    using frame_type[OF f, of E "ip_head f @ rest"] frame_ip(1,2)[OF f n(1), of rest] frame_ip(3)[OF f n(1), of E rest]
      frame_ip_fields(3)[OF f, of rest] n(2)
    by (simp add: rx_packet_def eth_parse_def EthernetHeader_size_def etherType_def eth_payload_def m(1)
        udp_parse_def UDPHeader_size_def Let_def cong: if_cong)
qed

lemma rx_packet_delivers:
  assumes "frame_ok f" "mb_data m = frame_bytes f" "mb_pkt_len m = length (frame_bytes f)"
  shows "rx_packet E (Some submit) m r =
      (if fr_dport f \<noteq> 9000 then Some (r\<lparr>freed := freed r @ [mb_id m]\<rparr>)
       else map_option (\<lambda>(_, x). r\<lparr>packetCount := packetCount r + 1,
           byteCount := byteCount r + of_nat (length (frame_bytes f)),
           freed := freed r @ [mb_id m], sink_state := x\<rparr>)
         (submit (frame_bytes f) (Some (22 + 4 * fr_ihl f), length (fr_payload f)) (sink_state r)))"
proof -
  note len = frame_lengths[OF assms(1)]
  have b: "frame_bytes f = frame_head f @ ip_head f @ udp_head f @ fr_payload f @ fr_padding f"
    by (simp add: frame_bytes_def)
  have le: "14 + 4 * fr_ihl f \<le> mb_pkt_len m" using len by (simp add: assms(3) b)
  have u: "unat (of_nat (8 + length (fr_payload f)) :: u16) = 8 + length (fr_payload f)"
    using assms(1) by (simp only: unat_of_nat) (simp add: frame_ok_def)
  have w: "(of_nat (8 + length (fr_payload f)) - 8 :: u16) = of_nat (length (fr_payload f))" by simp
  have p: "unat (of_nat (length (fr_payload f)) :: u16) = length (fr_payload f)"
    using assms(1) by (simp only: unat_of_nat) (simp add: frame_ok_def)
  have ul: "udp_payloadLength E (mb_data m) (Some (14 + 4 * fr_ihl f)) = Some (of_nat (length (fr_payload f)))"
    using frame_udp_fields(2)[OF assms(1), of E "fr_payload f @ fr_padding f"] u w
    by (simp add: udp_payloadLength_def assms(2) b UDPHeader_size_def add.commute[of _ 4] del: of_nat_add)
  have dp: "destinationPort E (mb_data m) (Some (14 + 4 * fr_ihl f)) = Some (fr_dport f)"
    using frame_udp_fields(1)[OF assms(1), of E "fr_payload f @ fr_padding f"]
    by (simp add: destinationPort_def assms(2) b)
  show ?thesis
    unfolding rx_packet_frame[OF assms(1) trans[OF assms(2) b] le] dp
    using ul p assms(2,3)
    by (auto simp: deliver_def pktmbuf_free_def Let_def udp_payload_def UDPHeader_size_def
        map_conv_bind_option case_prod_unfold intro!: Option.bind_cong)
qed

lemma receiver_payload:
  assumes "frame_ok f"
  shows "loads (frame_bytes f) (22 + 4 * fr_ihl f) (length (fr_payload f)) = Some (fr_payload f)"
  using frame_lengths[OF assms] by (simp add: loads_def frame_bytes_def)

section \<open>Properties\<close>

text \<open>A well-formed Ethernet/IPv4/UDP frame, with IP options and trailing padding: the
  receiver hands the sink exactly the UDP payload when the destination port is 9000, counts the
  packet and its bytes and frees it; on any other port it only frees it.\<close>

lemma receiver_delivers:
  assumes "frame_ok f" "mb_data m = frame_bytes f" "mb_pkt_len m = length (frame_bytes f)"
  shows "rx_packet E (Some submit) m r =
      (if fr_dport f \<noteq> 9000 then Some (r\<lparr>freed := freed r @ [mb_id m]\<rparr>)
       else map_option (\<lambda>(_, x). r\<lparr>packetCount := packetCount r + 1,
           byteCount := byteCount r + of_nat (length (frame_bytes f)),
           freed := freed r @ [mb_id m], sink_state := x\<rparr>)
         (submit (frame_bytes f) (Some (22 + 4 * fr_ihl f), length (fr_payload f)) (sink_state r))) \<and>
    loads (frame_bytes f) (22 + 4 * fr_ihl f) (length (fr_payload f)) = Some (fr_payload f)"
  using rx_packet_delivers[OF assms] receiver_payload[OF assms(1)] by blast

definition demo_frame :: frame where
  "demo_frame = \<lparr>fr_macs = replicate 12 0, fr_ihl = 6, fr_ip_a = replicate 5 0, fr_ip_b = replicate 14 0,
     fr_sport = 5000, fr_dport = 9000, fr_checksum = 0, fr_payload = [65, 66, 67], fr_padding = [0, 0]\<rparr>"

lemma demo_frame_ok: "frame_ok demo_frame"
  by (simp add: frame_ok_def demo_frame_def)

text \<open>C40. The IPv4 and UDP lengths are trusted: a packet that ends after its IPv4 header while
  that header announces a datagram makes the receiver read the UDP header beyond the packet.\<close>

theorem receiver_overreads:
  assumes "frame_ok f" "mb_data m = frame_head f @ ip_head f" "mb_pkt_len m = length (mb_data m)"
  shows "rx_packet E payloadSink m r = None"
proof -
  note len = frame_lengths[OF assms(1)]
  have "length (mb_data m) = 14 + 4 * fr_ihl f" using len by (simp add: assms(2))
  moreover from this have "(be_load E (mb_data m) (16 + 4 * fr_ihl f) :: u16 option) = None"
    by (intro n16.rd_undefined) simp
  ultimately show ?thesis
    using rx_packet_frame[OF assms(1), of m "[]" E payloadSink r] assms(2,3) by (simp add: destinationPort_def)
qed

theorem receiver_overreads_witness:
  "rx_packet Little None \<lparr>mb_id = 0, mb_data = frame_head demo_frame @ ip_head demo_frame, mb_pkt_len = 38\<rparr>
     \<lparr>packetCount = 0, byteCount = 0, freed = [], sink_state = ()\<rparr> = None"
  using frame_lengths[OF demo_frame_ok]
  by (intro receiver_overreads[OF demo_frame_ok]) (simp_all add: demo_frame_def)

text \<open>The receive loop starts exactly when pool, ports, port configuration, both queues and
  the port start succeeded, and the DPDK calls made are an initial part of that sequence.\<close>

lemma run_setup_order:
  "(fst (run_setup d) \<longleftrightarrow> pool_created d \<and> 0 < dev_count d \<and> 0 \<le> configure_ret d 0 \<and> 0 \<le> rx_ret d 0 \<and>
     0 \<le> tx_ret d 0 \<and> 0 \<le> start_ret d 0) \<and>
   (\<exists>n. snd (run_setup d) = take n [PoolCreate, DevCount, Configure 0, RxSetup 0, TxSetup 0, Start 0])"
proof (intro conjI)
  show "fst (run_setup d) \<longleftrightarrow> pool_created d \<and> 0 < dev_count d \<and> 0 \<le> configure_ret d 0 \<and> 0 \<le> rx_ret d 0 \<and>
     0 \<le> tx_ret d 0 \<and> 0 \<le> start_ret d 0"
    by (auto simp: run_setup_def createMempool_def configurePort_def setupRxQueue_def setupTxQueue_def
        startPort_def split: prod.splits if_splits)
  have guarded_take: "\<exists>n. snd (guarded (map (\<lambda>(ok, c). (ok, [c])) xs)) = take n (map snd xs)" for xs
  proof (induction xs)
    case (Cons x xs)
    then obtain n where "snd (guarded (map (\<lambda>(ok, c). (ok, [c])) xs)) = take n (map snd xs)" by blast
    then show ?case
      by (cases x) (auto simp: case_prod_unfold intro: exI[of _ "Suc 0"] exI[of _ "Suc n"])
  qed simp
  show "\<exists>n. snd (run_setup d) = take n [PoolCreate, DevCount, Configure 0, RxSetup 0, TxSetup 0, Start 0]"
    using guarded_take[of "[(pool_created d, PoolCreate), (dev_count d \<noteq> 0, DevCount),
        (\<not> configure_ret d 0 < 0, Configure 0), (\<not> rx_ret d 0 < 0, RxSetup 0),
        (\<not> tx_ret d 0 < 0, TxSetup 0), (\<not> start_ret d 0 < 0, Start 0)]"]
    by (simp add: run_setup_def createMempool_def configurePort_def setupRxQueue_def setupTxQueue_def
        startPort_def del: guarded.simps)
qed

end
