(* ===== verification/ItchFeed.thy ===== *)
theory ItchFeed
  imports PacketReceiver
begin

text \<open>
  The market-data feed: the ITCH message parsers and mappers (\<^verbatim>\<open>dpdk/parser/itch\<close>), the dispatcher
  that turns a message into a \<^verbatim>\<open>MarketDataEvent\<close> (\<^verbatim>\<open>market_data/replay/itch_replay_dispatcher.cpp\<close>),
  the sink that feeds it UDP payloads (\<^verbatim>\<open>dpdk/receiver/itch_udp_payload_sink.hpp\<close>), the reader of
  replay files (\<^verbatim>\<open>market_data/replay/itch_replay_reader.cpp\<close>) and the generator of a sample file
  (\<^verbatim>\<open>tools/generate_sample_itch_replay.cpp\<close>).

  A wire-message pointer is an offset into the buffer the message lies in; every accessor reads
  its field at the offset the packed structure gives it.  The event sink is an argument.
\<close>

section \<open>Events\<close>

datatype MarketDataEventType = AddOrderEvent | CancelOrderEvent | DeleteOrderEvent | ExecuteOrderEvent | ReplaceOrderEvent

record MarketDataEvent =
  ev_type :: MarketDataEventType
  ev_orderId :: OrderId
  ev_newOrderId :: OrderId
  ev_accountId :: AccountId
  ev_side :: Side
  ev_symbol :: Symbol
  ev_price :: Price
  ev_quantity :: Quantity

definition default_event :: MarketDataEvent where
  "default_event = \<lparr>ev_type = AddOrderEvent, ev_orderId = 0, ev_newOrderId = 0, ev_accountId = 0,
     ev_side = Buy, ev_symbol = replicate 8 0, ev_price = 0, ev_quantity = 0\<rparr>"

type_synonym 'x event_sink = "MarketDataEvent \<Rightarrow> 'x \<Rightarrow> bool \<times> 'x"

section \<open>Message header\<close>

definition itch_parse :: "cptr \<Rightarrow> nat \<Rightarrow> cptr" where
  "itch_parse data len = (if data = None then None else if len < 1 then None else data)"

definition itch_messageType :: "buffer \<Rightarrow> cptr \<Rightarrow> u8 option" where
  "itch_messageType mem header = (case header of None \<Rightarrow> None | Some h \<Rightarrow> load8 mem h)"

definition isAddOrder :: "buffer \<Rightarrow> cptr \<Rightarrow> bool option" where
  "isAddOrder mem header =
     (case header of None \<Rightarrow> Some False | Some h \<Rightarrow> map_option (\<lambda>t. t = ch_A) (load8 mem h))"

definition itch_payload :: "cptr \<Rightarrow> cptr" where
  "itch_payload header = (case header of None \<Rightarrow> None | Some h \<Rightarrow> Some (h + 1))"

section \<open>Wire messages\<close>

definition AddOrderWireMessage_size :: nat where "AddOrderWireMessage_size = 36"
definition OrderCancelWireMessage_size :: nat where "OrderCancelWireMessage_size = 23"
definition OrderDeleteWireMessage_size :: nat where "OrderDeleteWireMessage_size = 19"
definition OrderExecutedWireMessage_size :: nat where "OrderExecutedWireMessage_size = 31"
definition OrderReplaceWireMessage_size :: nat where "OrderReplaceWireMessage_size = 35"

definition add_parse :: "cptr \<Rightarrow> nat \<Rightarrow> cptr" where
  "add_parse data len =
     (if data = None then None else if len < AddOrderWireMessage_size then None else data)"

definition add_messageType :: "buffer \<Rightarrow> cptr \<Rightarrow> u8 option" where
  "add_messageType mem message = (case message of None \<Rightarrow> Some 0 | Some m \<Rightarrow> load8 mem m)"

definition add_stockLocate :: "endian \<Rightarrow> buffer \<Rightarrow> cptr \<Rightarrow> u16 option" where
  "add_stockLocate E mem message = (case message of None \<Rightarrow> Some 0 | Some m \<Rightarrow> be_load E mem (m + 1))"

definition add_trackingNumber :: "endian \<Rightarrow> buffer \<Rightarrow> cptr \<Rightarrow> u16 option" where
  "add_trackingNumber E mem message = (case message of None \<Rightarrow> Some 0 | Some m \<Rightarrow> be_load E mem (m + 3))"

definition add_shares :: "endian \<Rightarrow> buffer \<Rightarrow> cptr \<Rightarrow> u32 option" where
  "add_shares E mem message = (case message of None \<Rightarrow> Some 0 | Some m \<Rightarrow> be_load E mem (m + 20))"

definition add_price :: "endian \<Rightarrow> buffer \<Rightarrow> cptr \<Rightarrow> u32 option" where
  "add_price E mem message = (case message of None \<Rightarrow> Some 0 | Some m \<Rightarrow> be_load E mem (m + 32))"

definition add_orderReferenceNumber :: "endian \<Rightarrow> buffer \<Rightarrow> cptr \<Rightarrow> u64 option" where
  "add_orderReferenceNumber E mem message = (case message of None \<Rightarrow> Some 0 | Some m \<Rightarrow> be_load E mem (m + 11))"

definition add_buySellIndicator :: "buffer \<Rightarrow> cptr \<Rightarrow> u8 option" where
  "add_buySellIndicator mem message = (case message of None \<Rightarrow> Some 0 | Some m \<Rightarrow> load8 mem (m + 19))"

definition add_stock :: "buffer \<Rightarrow> cptr \<Rightarrow> Symbol option" where
  "add_stock mem message = (case message of None \<Rightarrow> Some (replicate 8 0) | Some m \<Rightarrow> loads mem (m + 24) 8)"

definition add_stockView :: "buffer \<Rightarrow> cptr \<Rightarrow> u8 list option" where
  "add_stockView mem message = (case message of None \<Rightarrow> Some [] | Some m \<Rightarrow> loads mem (m + 24) 8)"

definition cancel_parse :: "cptr \<Rightarrow> nat \<Rightarrow> cptr" where
  "cancel_parse data len =
     (if data = None then None else if len < OrderCancelWireMessage_size then None else data)"

definition cancel_orderReferenceNumber :: "endian \<Rightarrow> buffer \<Rightarrow> cptr \<Rightarrow> u64 option" where
  "cancel_orderReferenceNumber E mem message = (case message of None \<Rightarrow> Some 0 | Some m \<Rightarrow> be_load E mem (m + 11))"

definition cancelledShares :: "endian \<Rightarrow> buffer \<Rightarrow> cptr \<Rightarrow> u32 option" where
  "cancelledShares E mem message = (case message of None \<Rightarrow> Some 0 | Some m \<Rightarrow> be_load E mem (m + 19))"

definition delete_parse :: "cptr \<Rightarrow> nat \<Rightarrow> cptr" where
  "delete_parse data len =
     (if data = None then None else if len < OrderDeleteWireMessage_size then None else data)"

definition delete_orderReferenceNumber :: "endian \<Rightarrow> buffer \<Rightarrow> cptr \<Rightarrow> u64 option" where
  "delete_orderReferenceNumber E mem message = (case message of None \<Rightarrow> Some 0 | Some m \<Rightarrow> be_load E mem (m + 11))"

definition executed_parse :: "cptr \<Rightarrow> nat \<Rightarrow> cptr" where
  "executed_parse data len =
     (if data = None then None else if len < OrderExecutedWireMessage_size then None else data)"

definition executed_orderReferenceNumber :: "endian \<Rightarrow> buffer \<Rightarrow> cptr \<Rightarrow> u64 option" where
  "executed_orderReferenceNumber E mem message = (case message of None \<Rightarrow> Some 0 | Some m \<Rightarrow> be_load E mem (m + 11))"

definition executedShares :: "endian \<Rightarrow> buffer \<Rightarrow> cptr \<Rightarrow> u32 option" where
  "executedShares E mem message = (case message of None \<Rightarrow> Some 0 | Some m \<Rightarrow> be_load E mem (m + 19))"

definition matchNumber :: "endian \<Rightarrow> buffer \<Rightarrow> cptr \<Rightarrow> u64 option" where
  "matchNumber E mem message = (case message of None \<Rightarrow> Some 0 | Some m \<Rightarrow> be_load E mem (m + 23))"

definition replace_parse :: "cptr \<Rightarrow> nat \<Rightarrow> cptr" where
  "replace_parse data len =
     (if data = None then None else if len < OrderReplaceWireMessage_size then None else data)"

definition originalOrderReferenceNumber :: "endian \<Rightarrow> buffer \<Rightarrow> cptr \<Rightarrow> u64 option" where
  "originalOrderReferenceNumber E mem message = (case message of None \<Rightarrow> Some 0 | Some m \<Rightarrow> be_load E mem (m + 11))"

definition newOrderReferenceNumber :: "endian \<Rightarrow> buffer \<Rightarrow> cptr \<Rightarrow> u64 option" where
  "newOrderReferenceNumber E mem message = (case message of None \<Rightarrow> Some 0 | Some m \<Rightarrow> be_load E mem (m + 19))"

definition replace_shares :: "endian \<Rightarrow> buffer \<Rightarrow> cptr \<Rightarrow> u32 option" where
  "replace_shares E mem message = (case message of None \<Rightarrow> Some 0 | Some m \<Rightarrow> be_load E mem (m + 27))"

definition replace_price :: "endian \<Rightarrow> buffer \<Rightarrow> cptr \<Rightarrow> u32 option" where
  "replace_price E mem message = (case message of None \<Rightarrow> Some 0 | Some m \<Rightarrow> be_load E mem (m + 31))"

section \<open>Mappers\<close>

record AddOrder =
  ao_stockLocate :: u16
  ao_trackingNumber :: u16
  ao_orderReferenceNumber :: u64
  ao_isBuy :: bool
  ao_shares :: u32
  ao_symbol :: Symbol
  ao_price :: u32

record OrderCancel =
  oc_orderReferenceNumber :: u64
  oc_cancelledShares :: u32

record OrderDelete =
  od_orderReferenceNumber :: u64

record OrderExecuted =
  oe_orderReferenceNumber :: u64
  oe_executedShares :: u32
  oe_matchNumber :: u64

record OrderReplace =
  or_originalOrderReferenceNumber :: u64
  or_newOrderReferenceNumber :: u64
  or_shares :: u32
  or_price :: u32

definition add_fromWire :: "endian \<Rightarrow> buffer \<Rightarrow> cptr \<Rightarrow> AddOrder option" where
  "add_fromWire E mem message = do {
     locate \<leftarrow> add_stockLocate E mem message;
     tracking \<leftarrow> add_trackingNumber E mem message;
     shares \<leftarrow> add_shares E mem message;
     price \<leftarrow> add_price E mem message;
     ref \<leftarrow> add_orderReferenceNumber E mem message;
     indicator \<leftarrow> add_buySellIndicator mem message;
     symbol \<leftarrow> add_stock mem message;
     Some \<lparr>ao_stockLocate = locate, ao_trackingNumber = tracking, ao_orderReferenceNumber = ref,
       ao_isBuy = (indicator = ch_B), ao_shares = shares, ao_symbol = symbol, ao_price = price\<rparr>
   }"

definition cancel_fromWire :: "endian \<Rightarrow> buffer \<Rightarrow> cptr \<Rightarrow> OrderCancel option" where
  "cancel_fromWire E mem message = do {
     ref \<leftarrow> cancel_orderReferenceNumber E mem message;
     shares \<leftarrow> cancelledShares E mem message;
     Some \<lparr>oc_orderReferenceNumber = ref, oc_cancelledShares = shares\<rparr>
   }"

definition delete_fromWire :: "endian \<Rightarrow> buffer \<Rightarrow> cptr \<Rightarrow> OrderDelete option" where
  "delete_fromWire E mem message = do {
     ref \<leftarrow> delete_orderReferenceNumber E mem message;
     Some \<lparr>od_orderReferenceNumber = ref\<rparr>
   }"

definition executed_fromWire :: "endian \<Rightarrow> buffer \<Rightarrow> cptr \<Rightarrow> OrderExecuted option" where
  "executed_fromWire E mem message = do {
     ref \<leftarrow> executed_orderReferenceNumber E mem message;
     shares \<leftarrow> executedShares E mem message;
     mn \<leftarrow> matchNumber E mem message;
     Some \<lparr>oe_orderReferenceNumber = ref, oe_executedShares = shares, oe_matchNumber = mn\<rparr>
   }"

definition replace_fromWire :: "endian \<Rightarrow> buffer \<Rightarrow> cptr \<Rightarrow> OrderReplace option" where
  "replace_fromWire E mem message = do {
     orig \<leftarrow> originalOrderReferenceNumber E mem message;
     new \<leftarrow> newOrderReferenceNumber E mem message;
     shares \<leftarrow> replace_shares E mem message;
     price \<leftarrow> replace_price E mem message;
     Some \<lparr>or_originalOrderReferenceNumber = orig, or_newOrderReferenceNumber = new,
       or_shares = shares, or_price = price\<rparr>
   }"

section \<open>Dispatcher\<close>

text \<open>One definition per case of the switch: the event to submit, or \<open>None\<close> inside when the
  message is too short.\<close>

definition add_event :: "endian \<Rightarrow> buffer \<Rightarrow> cptr \<Rightarrow> nat \<Rightarrow> MarketDataEvent option option" where
  "add_event E mem message len = (let wire = add_parse message len in
     if wire = None then Some None
     else do {
       order \<leftarrow> add_fromWire E mem wire;
       Some (Some \<lparr>ev_type = AddOrderEvent, ev_orderId = ao_orderReferenceNumber order, ev_newOrderId = 0,
         ev_accountId = 0, ev_side = (if ao_isBuy order then Buy else Sell), ev_symbol = ao_symbol order,
         ev_price = int (unat (ao_price order)), ev_quantity = ao_shares order\<rparr>)
     })"

definition cancel_event :: "endian \<Rightarrow> buffer \<Rightarrow> cptr \<Rightarrow> nat \<Rightarrow> MarketDataEvent option option" where
  "cancel_event E mem message len = (let wire = cancel_parse message len in
     if wire = None then Some None
     else do {
       cancel \<leftarrow> cancel_fromWire E mem wire;
       Some (Some (default_event\<lparr>ev_type := CancelOrderEvent, ev_orderId := oc_orderReferenceNumber cancel,
         ev_quantity := oc_cancelledShares cancel\<rparr>))
     })"

definition delete_event :: "endian \<Rightarrow> buffer \<Rightarrow> cptr \<Rightarrow> nat \<Rightarrow> MarketDataEvent option option" where
  "delete_event E mem message len = (let wire = delete_parse message len in
     if wire = None then Some None
     else do {
       deletion \<leftarrow> delete_fromWire E mem wire;
       Some (Some (default_event\<lparr>ev_type := DeleteOrderEvent, ev_orderId := od_orderReferenceNumber deletion\<rparr>))
     })"

definition execute_event :: "endian \<Rightarrow> buffer \<Rightarrow> cptr \<Rightarrow> nat \<Rightarrow> MarketDataEvent option option" where
  "execute_event E mem message len = (let wire = executed_parse message len in
     if wire = None then Some None
     else do {
       execution \<leftarrow> executed_fromWire E mem wire;
       Some (Some (default_event\<lparr>ev_type := ExecuteOrderEvent, ev_orderId := oe_orderReferenceNumber execution,
         ev_quantity := oe_executedShares execution\<rparr>))
     })"

definition replace_event :: "endian \<Rightarrow> buffer \<Rightarrow> cptr \<Rightarrow> nat \<Rightarrow> MarketDataEvent option option" where
  "replace_event E mem message len = (let wire = replace_parse message len in
     if wire = None then Some None
     else do {
       replacement \<leftarrow> replace_fromWire E mem wire;
       Some (Some (default_event\<lparr>ev_type := ReplaceOrderEvent,
         ev_orderId := or_originalOrderReferenceNumber replacement,
         ev_newOrderId := or_newOrderReferenceNumber replacement,
         ev_price := int (unat (or_price replacement)), ev_quantity := or_shares replacement\<rparr>))
     })"

definition itch_dispatch ::
  "endian \<Rightarrow> 'x event_sink \<Rightarrow> buffer \<Rightarrow> cptr \<Rightarrow> nat \<Rightarrow> 'x \<Rightarrow> (bool \<times> 'x) option" where
  "itch_dispatch E submit mem message len x =
     (case message of
        None \<Rightarrow> Some (False, x)
      | Some p \<Rightarrow>
          if len = 0 then Some (False, x)
          else do {
            messageType \<leftarrow> load8 mem p;
            event \<leftarrow> (if messageType = ch_A then add_event E mem message len
                     else if messageType = ch_X then cancel_event E mem message len
                     else if messageType = ch_D then delete_event E mem message len
                     else if messageType = ch_E then execute_event E mem message len
                     else if messageType = ch_U then replace_event E mem message len
                     else Some None);
            case event of None \<Rightarrow> Some (False, x) | Some ev \<Rightarrow> Some (submit ev x)
          })"

definition udp_sink_submit :: "endian \<Rightarrow> 'x event_sink \<Rightarrow> 'x payload_sink" where
  "udp_sink_submit E submit mem payload x = itch_dispatch E submit mem (fst payload) (snd payload) x"

section \<open>Replay files\<close>

record ifstream =
  unread :: buffer
  eofbit :: bool
  failbit :: bool

definition open_stream :: "buffer option \<Rightarrow> ifstream" where
  "open_stream file =
     (case file of None \<Rightarrow> \<lparr>unread = [], eofbit = False, failbit = True\<rparr>
      | Some content \<Rightarrow> \<lparr>unread = content, eofbit = False, failbit = False\<rparr>)"

definition stream_read :: "nat \<Rightarrow> ifstream \<Rightarrow> u8 list \<times> ifstream" where
  "stream_read n st =
     (if eofbit st \<or> failbit st then ([], st\<lparr>failbit := True\<rparr>)
      else if n \<le> length (unread st) then (take n (unread st), st\<lparr>unread := drop n (unread st)\<rparr>)
      else (unread st, st\<lparr>unread := [], eofbit := True, failbit := True\<rparr>))"

definition readNext :: "endian \<Rightarrow> buffer \<Rightarrow> ifstream \<Rightarrow> bool \<times> buffer \<times> ifstream" where
  "readNext E message st = (
     let (raw, st1) = stream_read 2 st
     in if eofbit st1 then (False, message, st1)
        else if failbit st1 then (False, message, st1)
        else let messageLength = fromBigEndian E (native_load E raw :: u16)
             in if messageLength = 0 then (False, message, st1)
                else let (body, st2) = stream_read (unat messageLength) st1
                     in if failbit st2 then (False, [], st2) else (True, body, st2))"

text \<open>The generator: a zeroed \<^verbatim>\<open>AddOrderWireMessage\<close> with its fields written, and the length prefix.
  \<^verbatim>\<open>htons\<close>, \<^verbatim>\<open>htonl\<close> and \<^verbatim>\<open>htobe64\<close> are the host-to-big-endian conversions.\<close>

definition makeAddOrder :: "endian \<Rightarrow> u64 \<Rightarrow> u8 \<Rightarrow> u32 \<Rightarrow> u32 \<Rightarrow> buffer option" where
  "makeAddOrder E orderReferenceNumber side shares price = do {
     m1 \<leftarrow> store8 (replicate AddOrderWireMessage_size 0) 0 ch_A;
     m2 \<leftarrow> be_store E m1 11 orderReferenceNumber;
     m3 \<leftarrow> store8 m2 19 side;
     m4 \<leftarrow> be_store E m3 20 shares;
     m5 \<leftarrow> stores m4 24 [ch_A, ch_A, ch_P, ch_L, ch_space, ch_space, ch_space, ch_space];
     be_store E m5 32 price
   }"

definition writeMessage :: "endian \<Rightarrow> buffer \<Rightarrow> buffer \<Rightarrow> buffer" where
  "writeMessage E stream message =
     stream @ native_bytes E (toBigEndian E (of_nat (length message) :: u16)) @ message"

definition sample_replay :: "endian \<Rightarrow> buffer option" where
  "sample_replay E = do {
     bid \<leftarrow> makeAddOrder E 5001 ch_B 900 98;
     ask \<leftarrow> makeAddOrder E 5002 ch_S 100 99;
     Some (writeMessage E (writeMessage E [] bid) ask)
   }"

lemma stream_read_shrinks:
  "stream_read n st = (bs, st') \<Longrightarrow> length (unread st') \<le> length (unread st)"
  by (auto simp: stream_read_def split: if_splits)

lemma readNext_shrinks:
  assumes "readNext E message st = (True, message', st')"
  shows "length (unread st') < length (unread st)"
proof -
  obtain raw st1 where r1: "stream_read 2 st = (raw, st1)" by fastforce
  then have "\<not> eofbit st1 \<and> \<not> failbit st1" using assms by (auto simp: readNext_def split: if_splits)
  with r1 have lt: "length (unread st1) < length (unread st)"
    by (auto simp: stream_read_def split: if_splits)
  obtain body st2 where "stream_read (unat (fromBigEndian E (native_load E raw :: u16))) st1 = (body, st2)" by fastforce
  with r1 assms have "length (unread st') \<le> length (unread st1)"
    by (auto simp: readNext_def Let_def dest: stream_read_shrinks split: if_splits)
  with lt show ?thesis by simp
qed

text \<open>The replay loop of \<^verbatim>\<open>trading_runtime.cpp\<close>: read a message, dispatch it, count the ones accepted.\<close>

function replay_loop ::
  "endian \<Rightarrow> 'x event_sink \<Rightarrow> buffer \<Rightarrow> ifstream \<Rightarrow> nat \<times> 'x \<Rightarrow> (nat \<times> 'x) option" where
  "replay_loop E submit message st (replayedMessages, x) =
     (case readNext E message st of
        (False, _, _) \<Rightarrow> Some (replayedMessages, x)
      | (True, message', st') \<Rightarrow> do {
          (ok, x') \<leftarrow> itch_dispatch E submit message' (Some 0) (length message') x;
          replay_loop E submit message' st' (if ok then replayedMessages + 1 else replayedMessages, x')
        })"
  by pat_completeness auto
termination
  by (relation "measure (\<lambda>(_, _, _, st, _). length (unread st))") (auto dest!: readNext_shrinks[OF sym])

declare replay_loop.simps [simp del]

section \<open>Message layout\<close>

datatype itch_body =
    BAdd u64 u8 u32 "u8 list" u32
  | BCancel u64 u32
  | BDelete u64
  | BExecute u64 u32 u64
  | BReplace u64 u64 u32 u32

fun itch_type :: "itch_body \<Rightarrow> u8" where
  "itch_type (BAdd _ _ _ _ _) = ch_A"
| "itch_type (BCancel _ _) = ch_X"
| "itch_type (BDelete _) = ch_D"
| "itch_type (BExecute _ _ _) = ch_E"
| "itch_type (BReplace _ _ _ _) = ch_U"

fun itch_tail :: "itch_body \<Rightarrow> u8 list" where
  "itch_tail (BAdd ref side shares stock price) =
     be_bytes 8 ref @ [side] @ be_bytes 4 shares @ stock @ be_bytes 4 price"
| "itch_tail (BCancel ref shares) = be_bytes 8 ref @ be_bytes 4 shares"
| "itch_tail (BDelete ref) = be_bytes 8 ref"
| "itch_tail (BExecute ref shares mn) = be_bytes 8 ref @ be_bytes 4 shares @ be_bytes 8 mn"
| "itch_tail (BReplace orig new shares price) = be_bytes 8 orig @ be_bytes 8 new @ be_bytes 4 shares @ be_bytes 4 price"

fun itch_event :: "itch_body \<Rightarrow> MarketDataEvent" where
  "itch_event (BAdd ref side shares stock price) =
     \<lparr>ev_type = AddOrderEvent, ev_orderId = ref, ev_newOrderId = 0, ev_accountId = 0,
      ev_side = (if side = ch_B then Buy else Sell), ev_symbol = stock, ev_price = int (unat price),
      ev_quantity = shares\<rparr>"
| "itch_event (BCancel ref shares) =
     default_event\<lparr>ev_type := CancelOrderEvent, ev_orderId := ref, ev_quantity := shares\<rparr>"
| "itch_event (BDelete ref) = default_event\<lparr>ev_type := DeleteOrderEvent, ev_orderId := ref\<rparr>"
| "itch_event (BExecute ref shares mn) =
     default_event\<lparr>ev_type := ExecuteOrderEvent, ev_orderId := ref, ev_quantity := shares\<rparr>"
| "itch_event (BReplace orig new shares price) =
     default_event\<lparr>ev_type := ReplaceOrderEvent, ev_orderId := orig, ev_newOrderId := new,
       ev_price := int (unat price), ev_quantity := shares\<rparr>"

fun body_ok :: "itch_body \<Rightarrow> bool" where
  "body_ok (BAdd ref side shares stock price) \<longleftrightarrow> length stock = 8"
| "body_ok _ \<longleftrightarrow> True"

definition itch_bytes :: "u16 \<Rightarrow> u16 \<Rightarrow> u8 list \<Rightarrow> itch_body \<Rightarrow> u8 list" where
  "itch_bytes locate tracking ts body =
     [itch_type body] @ be_bytes 2 locate @ be_bytes 2 tracking @ ts @ itch_tail body"

lemmas field_skips = n16.rd_skip n32.rd_skip n64.rd_skip f8.rd_skip n16.rd_skip1 n32.rd_skip1 n64.rd_skip1
  f8.rd_skip1 n16.rd_hit n32.rd_hit n64.rd_hit n16.rd_hit_last n32.rd_hit_last n64.rd_hit_last

lemmas add_accessors = add_parse_def add_fromWire_def add_stockLocate_def add_trackingNumber_def add_shares_def
  add_price_def add_orderReferenceNumber_def add_buySellIndicator_def add_stock_def AddOrderWireMessage_size_def
lemmas cancel_accessors = cancel_parse_def cancel_fromWire_def cancel_orderReferenceNumber_def cancelledShares_def
  OrderCancelWireMessage_size_def
lemmas delete_accessors = delete_parse_def delete_fromWire_def delete_orderReferenceNumber_def
  OrderDeleteWireMessage_size_def
lemmas execute_accessors = executed_parse_def executed_fromWire_def executed_orderReferenceNumber_def
  executedShares_def matchNumber_def OrderExecutedWireMessage_size_def
lemmas replace_accessors = replace_parse_def replace_fromWire_def originalOrderReferenceNumber_def
  newOrderReferenceNumber_def replace_shares_def replace_price_def OrderReplaceWireMessage_size_def

lemmas field_views = n16.rd_view n32.rd_view n64.rd_view f8.rd_view loads_view

text \<open>The dispatcher sees only the bytes of the span it is given.\<close>

lemma event_views:
  assumes "loads mem p n = Some bs"
  shows "add_event E mem (Some p) n = add_event E bs (Some 0) n"
    and "cancel_event E mem (Some p) n = cancel_event E bs (Some 0) n"
    and "delete_event E mem (Some p) n = delete_event E bs (Some 0) n"
    and "execute_event E mem (Some p) n = execute_event E bs (Some 0) n"
    and "replace_event E mem (Some p) n = replace_event E bs (Some 0) n"
  by (simp_all add: add_event_def add_accessors cancel_event_def cancel_accessors delete_event_def
      delete_accessors execute_event_def execute_accessors replace_event_def replace_accessors
      Let_def field_views[OF assms] n16.rd_view[OF assms, where i = 1, simplified])

lemma dispatch_view:
  assumes "loads mem p n = Some bs"
  shows "itch_dispatch E submit mem (Some p) n x = itch_dispatch E submit bs (Some 0) n x"
  using f8.rd_view[OF assms, of 0] by (simp add: itch_dispatch_def event_views[OF assms] cong: if_cong)

lemma events_defined:
  assumes "length bs = n"
  shows "\<exists>e. add_event E bs (Some 0) n = Some e" "\<exists>e. cancel_event E bs (Some 0) n = Some e"
    "\<exists>e. delete_event E bs (Some 0) n = Some e" "\<exists>e. execute_event E bs (Some 0) n = Some e"
    "\<exists>e. replace_event E bs (Some 0) n = Some e"
  by (auto simp: add_event_def add_accessors cancel_event_def cancel_accessors delete_event_def
      delete_accessors execute_event_def execute_accessors replace_event_def replace_accessors
      Let_def n16.rd_ok n32.rd_ok n64.rd_ok f8.rd_ok loads_ok assms)

lemma dispatch_defined:
  assumes "loads mem p n = Some bs"
  shows "\<exists>r. itch_dispatch E submit mem (Some p) n x = Some r"
proof -
  have len: "length bs = n" using loads_bounds[OF assms] by blast
  show ?thesis
    unfolding dispatch_view[OF assms] using events_defined[OF len, of E] len
    by (auto simp: itch_dispatch_def load8_def split: option.splits)
qed

text \<open>Every message laid out as ITCH prescribes gives its event, whatever follows it.\<close>

lemma dispatch_bytes:
  assumes "body_ok body" "length ts = 6"
  shows "itch_dispatch E submit (itch_bytes locate tracking ts body @ extra) (Some 0)
    (length (itch_bytes locate tracking ts body @ extra)) x = Some (submit (itch_event body) x)"
proof (cases body)
  case (BAdd ref side shares stock price)
  have "loads (stock @ be_bytes 4 price @ extra) 0 8 = Some stock" using assms BAdd by (simp add: loads_def)
  moreover have "loads (xs @ ys) i n = loads ys (i - length xs) n" if "length xs \<le> i" for xs ys :: "u8 list" and i n
    using that by (auto simp: loads_def)
  moreover have "loads (y # ys) i n = loads ys (i - 1) n" if "0 < i" for y and ys :: "u8 list" and i n
    using that by (cases i) (auto simp: loads_def)
  ultimately show ?thesis
    using assms BAdd
    by (simp add: itch_dispatch_def itch_bytes_def add_event_def add_accessors Let_def field_skips)
next
  case (BCancel ref shares)
  then show ?thesis using assms
    by (simp add: itch_dispatch_def itch_bytes_def cancel_event_def cancel_accessors Let_def field_skips)
next
  case (BDelete ref)
  then show ?thesis using assms
    by (simp add: itch_dispatch_def itch_bytes_def delete_event_def delete_accessors Let_def field_skips)
next
  case (BExecute ref shares mn)
  then show ?thesis using assms
    by (simp add: itch_dispatch_def itch_bytes_def execute_event_def execute_accessors Let_def field_skips)
next
  case (BReplace orig new shares price)
  then show ?thesis using assms
    by (simp add: itch_dispatch_def itch_bytes_def replace_event_def replace_accessors Let_def field_skips)
qed

section \<open>Replay files hold the messages written to them\<close>

lemma writeMessage_bytes: "writeMessage E stream m = stream @ be_bytes 2 (of_nat (length m) :: u16) @ m"
  by (simp add: writeMessage_def native_bytes_to[of 2])

lemma write_all: "foldl (writeMessage E) st ms = st @ concat (map (writeMessage E []) ms)"
  by (induction ms arbitrary: st) (simp_all add: writeMessage_bytes)

lemma readNext_written:
  assumes "0 < length m" "length m < 2 ^ 16" "\<not> eofbit st" "\<not> failbit st" "unread st = writeMessage E [] m @ rest"
  shows "readNext E message st = (True, m, st\<lparr>unread := rest\<rparr>)"
proof -
  let ?n = "of_nat (length m) :: u16"
  have n: "unat ?n = length m" using assms(2) by (simp only: unat_of_nat) simp
  then have nz: "?n \<noteq> 0" using assms(1) by auto
  have r1: "stream_read 2 st = (be_bytes 2 ?n, st\<lparr>unread := m @ rest\<rparr>)"
    using assms(3-5) by (simp add: stream_read_def writeMessage_bytes)
  have v: "fromBigEndian E (native_load E (be_bytes 2 ?n)) = ?n" by simp
  have r2: "stream_read (length m) (st\<lparr>unread := m @ rest\<rparr>) = (m, st\<lparr>unread := rest\<rparr>)"
    using assms(3,4) by (simp add: stream_read_def)
  show ?thesis using nz assms(3,4) by (simp add: readNext_def r1 v r2 n)
qed

lemma readNext_end: "\<not> eofbit st \<Longrightarrow> unread st = [] \<Longrightarrow> fst (readNext E message st) = False"
  by (auto simp: readNext_def stream_read_def)

definition count_submit :: "'x event_sink \<Rightarrow> MarketDataEvent \<Rightarrow> nat \<times> 'x \<Rightarrow> nat \<times> 'x" where
  "count_submit submit ev = (\<lambda>(n, x). case submit ev x of (ok, x') \<Rightarrow> (if ok then n + 1 else n, x'))"

lemma count_submit_pair:
  "count_submit submit ev (n, x) = (if fst (submit ev x) then n + 1 else n, snd (submit ev x))"
  by (simp add: count_submit_def split: prod.splits)

type_synonym itch_message = "u16 \<times> u16 \<times> u8 list \<times> itch_body"

fun message_bytes :: "itch_message \<Rightarrow> u8 list" where
  "message_bytes (locate, tracking, ts, body) = itch_bytes locate tracking ts body"

fun message_ok :: "itch_message \<Rightarrow> bool" where
  "message_ok (locate, tracking, ts, body) \<longleftrightarrow> length ts = 6 \<and> body_ok body"

fun message_event :: "itch_message \<Rightarrow> MarketDataEvent" where
  "message_event (locate, tracking, ts, body) = itch_event body"

lemma message_bytes_length: "message_ok m \<Longrightarrow> 0 < length (message_bytes m) \<and> length (message_bytes m) < 2 ^ 16"
  by (cases m, rename_tac l t s b, case_tac b) (auto simp: itch_bytes_def)

lemma dispatch_message:
  "message_ok m \<Longrightarrow> itch_dispatch E submit (message_bytes m) (Some 0) (length (message_bytes m)) x =
     Some (submit (message_event m) x)"
  using dispatch_bytes[where extra = "[]"] by (cases m) auto

lemma replay_written:
  assumes "\<forall>m\<in>set ms. message_ok m" "\<not> eofbit st" "\<not> failbit st"
    "unread st = concat (map (writeMessage E []) (map message_bytes ms))"
  shows "replay_loop E submit message st c = Some (fold (count_submit submit \<circ> message_event) ms c)"
  using assms
proof (induction ms arbitrary: message st c)
  case Nil
  then have "fst (readNext E message st) = False" by (intro readNext_end) auto
  then obtain message' st' where "readNext E message st = (False, message', st')" by (metis prod.exhaust_sel)
  then show ?case by (cases c) (simp add: replay_loop.simps[of E submit message st])
next
  case (Cons m ms)
  have rd: "readNext E message st = (True, message_bytes m, st\<lparr>unread := concat (map (writeMessage E []) (map message_bytes ms))\<rparr>)"
    using Cons.prems message_bytes_length[of m] by (intro readNext_written) auto
  let ?st = "st\<lparr>unread := concat (map (writeMessage E []) (map message_bytes ms))\<rparr>"
  obtain n x where c: "c = (n, x)" by fastforce
  have "replay_loop E submit (message_bytes m) ?st c' = Some (fold (count_submit submit \<circ> message_event) ms c')" for c'
    using Cons.prems by (intro Cons.IH) auto
  then show ?case
    using Cons.prems(1) dispatch_message[of m E submit x]
    by (simp add: c replay_loop.simps[of E submit message st] rd count_submit_pair case_prod_unfold comp_def)
qed

definition AAPL :: "u8 list" where
  "AAPL = [ch_A, ch_A, ch_P, ch_L, ch_space, ch_space, ch_space, ch_space]"

lemma makeAddOrder_bytes:
  "makeAddOrder E ref side shares price =
     Some (message_bytes (0, 0, replicate 6 0, BAdd ref side shares AAPL price))"
proof -
  have z: "be_bytes 2 (0 :: u16) = replicate 2 0" by (simp add: be_bytes_def numeral_2_eq_2)
  have "store8 (replicate 36 0) 0 ch_A = Some (([ch_A] @ replicate 10 0) @ replicate 25 0)"
    using f8.wr_fill[of 0 "[]" 36 0 ch_A] replicate_add[of 10 25 "0 :: u8"] by simp
  moreover have "be_store E (([ch_A] @ replicate 10 0) @ replicate 25 0) 11 ref =
      Some (([ch_A] @ replicate 10 0 @ be_bytes 8 ref) @ replicate 17 0)"
    using n64.wr_fill[where xs = "[ch_A] @ replicate 10 0"] by simp
  moreover have "store8 (([ch_A] @ replicate 10 0 @ be_bytes 8 ref) @ replicate 17 0) 19 side =
      Some (([ch_A] @ replicate 10 0 @ be_bytes 8 ref @ [side]) @ replicate 16 0)"
    using f8.wr_fill[where xs = "[ch_A] @ replicate 10 0 @ be_bytes 8 ref"] by simp
  moreover have "be_store E (([ch_A] @ replicate 10 0 @ be_bytes 8 ref @ [side]) @ replicate 16 0) 20 shares =
      Some (([ch_A] @ replicate 10 0 @ be_bytes 8 ref @ [side] @ be_bytes 4 shares) @ replicate 12 0)"
    using n32.wr_fill[where xs = "[ch_A] @ replicate 10 0 @ be_bytes 8 ref @ [side]"] by simp
  moreover have "stores (([ch_A] @ replicate 10 0 @ be_bytes 8 ref @ [side] @ be_bytes 4 shares) @ replicate 12 0) 24 AAPL =
      Some (([ch_A] @ replicate 10 0 @ be_bytes 8 ref @ [side] @ be_bytes 4 shares @ AAPL) @ replicate 4 0)"
    by (simp add: stores_def AAPL_def)
  moreover have "be_store E (([ch_A] @ replicate 10 0 @ be_bytes 8 ref @ [side] @ be_bytes 4 shares @ AAPL) @ replicate 4 0) 32 price =
      Some ([ch_A] @ replicate 10 0 @ be_bytes 8 ref @ [side] @ be_bytes 4 shares @ AAPL @ be_bytes 4 price)"
    using n32.wr_fill[where xs = "[ch_A] @ replicate 10 0 @ be_bytes 8 ref @ [side] @ be_bytes 4 shares @ AAPL" and k = 4]
    by (simp add: AAPL_def)
  ultimately have "makeAddOrder E ref side shares price =
      Some ([ch_A] @ replicate 10 0 @ be_bytes 8 ref @ [side] @ be_bytes 4 shares @ AAPL @ be_bytes 4 price)"
    unfolding makeAddOrder_def AddOrderWireMessage_size_def AAPL_def by (simp only: Option.bind.simps)
  moreover have "replicate 10 (0 :: u8) = replicate 2 0 @ replicate 2 0 @ replicate 6 0"
    by (simp flip: replicate_add)
  ultimately show ?thesis by (simp only: message_bytes.simps itch_bytes_def itch_type.simps itch_tail.simps z append_assoc)
qed

lemma dispatch_at:
  assumes "message_ok m" "loads mem p n = Some (message_bytes m @ extra)"
  shows "itch_dispatch E submit mem (Some p) n x = Some (submit (message_event m) x)"
proof -
  obtain locate tracking ts body where m: "m = (locate, tracking, ts, body)" by (metis prod.exhaust)
  have "n = length (message_bytes m @ extra)" using loads_bounds[OF assms(2)] by simp
  then show ?thesis
    unfolding dispatch_view[OF assms(2)]
    using dispatch_bytes[of body ts E submit locate tracking extra x] assms(1) by (simp add: m)
qed

section \<open>Properties\<close>

definition itch_size :: "u8 \<Rightarrow> nat option" where
  "itch_size t =
     (if t = ch_A then Some 36 else if t = ch_X then Some 23 else if t = ch_D then Some 19
      else if t = ch_E then Some 31 else if t = ch_U then Some 35 else None)"

text \<open>\<^verbatim>\<open>ItchReplayDispatcher::dispatch\<close> on any bytes: it reads nothing outside the message,
  submits one event exactly when the type is known and the message long enough for it, and
  otherwise returns false without calling the sink.\<close>

lemma itch_dispatch_total:
  assumes "loads mem p n = Some bs"
  shows "if 0 < n \<and> (\<exists>k. itch_size (bs ! 0) = Some k \<and> k \<le> n)
    then \<exists>ev. itch_dispatch E submit mem (Some p) n x = Some (submit ev x)
    else itch_dispatch E submit mem (Some p) n x = Some (False, x)"
proof -
  have len: "length bs = n" using loads_bounds[OF assms] by blast
  show ?thesis
    unfolding dispatch_view[OF assms]
    by (auto simp: itch_dispatch_def itch_size_def load8_def len add_event_def add_accessors cancel_event_def
        cancel_accessors delete_event_def delete_accessors execute_event_def execute_accessors
        replace_event_def replace_accessors Let_def n16.rd_ok n32.rd_ok n64.rd_ok f8.rd_ok loads_ok)
qed

text \<open>The dispatcher decodes the ITCH layout: from the bytes of an add, cancel, delete, execute
  or replace message, anywhere in memory and with anything after it, it submits the event with
  exactly the message's fields.\<close>

lemma itch_dispatch_decodes:
  assumes "message_ok m" "loads mem p n = Some (message_bytes m @ extra)"
  shows "itch_dispatch E submit mem (Some p) n x = Some (submit (message_event m) x)"
  by (rule dispatch_at[OF assms])

text \<open>From wire to event: a well-formed frame to port 9000 that carries an ITCH message, received
  with the ITCH payload sink, submits exactly that message's event.\<close>

lemma frame_event:
  assumes "frame_ok f" "mb_data m = frame_bytes f" "mb_pkt_len m = length (frame_bytes f)"
    "fr_dport f = 9000" "message_ok msg" "fr_payload f = message_bytes msg"
  shows "\<exists>r'. rx_packet E (Some (udp_sink_submit E submit)) m r = Some r' \<and>
    sink_state r' = snd (submit (message_event msg) (sink_state r)) \<and> freed r' = freed r @ [mb_id m]"
proof -
  let ?off = "22 + 4 * fr_ihl f"
  have "itch_dispatch E submit (frame_bytes f) (Some ?off) (length (fr_payload f)) (sink_state r) =
      Some (submit (message_event msg) (sink_state r))"
    using receiver_payload[OF assms(1)] assms(6) by (intro dispatch_at[OF assms(5), where extra = "[]"]) simp
  then show ?thesis
    using rx_packet_delivers[OF assms(1-3), of E "udp_sink_submit E submit" r] assms(4)
    by (simp add: udp_sink_submit_def case_prod_unfold)
qed

definition itch_frame :: frame where
  "itch_frame = demo_frame\<lparr>fr_payload := message_bytes (1, 1, replicate 6 0, BAdd 12345 ch_B 100 AAPL 50000)\<rparr>"

lemma itch_frame_ok: "frame_ok itch_frame"
proof -
  have "length (message_bytes (1, 1, replicate 6 0, BAdd 12345 ch_B 100 AAPL 50000)) = 36"
    by (simp add: itch_bytes_def AAPL_def)
  then show ?thesis by (simp add: frame_ok_def itch_frame_def demo_frame_def del: message_bytes.simps)
qed

text \<open>A replay file into which messages were written with their length prefix: the replay
  loop reads back exactly these messages, submits their events in order and counts the ones the
  sink took.\<close>

lemma replay_roundtrip:
  assumes "\<forall>m\<in>set ms. message_ok m"
  shows "replay_loop E submit [] (open_stream (Some (foldl (writeMessage E) [] (map message_bytes ms)))) (0, x) =
    Some (fold (count_submit submit \<circ> message_event) ms (0, x))"
  using assms by (intro replay_written) (simp_all add: open_stream_def write_all)

end
