(* ===== verification/BookConsumer.thy ===== *)
theory BookConsumer
  imports ItchFeed MatchingEngine
begin

text \<open>
  \<^verbatim>\<open>pipeline/market_data_book_consumer.cpp\<close>: market-data events applied to the local order book.
  The consumer owns the pool its orders come from; the book, the pool and the order heap are its
  state.

  The abstract book is, per side and price, the list of (identifier, account, quantity) in time
  order; \<open>book_step\<close> says what each event means for it.  The refinement theorem relates the two for
  every event whose price the book can hold and, for an add, whose identifier is new.
\<close>

section \<open>The consumer\<close>

record book_consumer =
  bc_heap :: heap
  bc_book :: ArrayOrderBook
  bc_pool :: pool

definition new_consumer :: "heap \<Rightarrow> ptr \<Rightarrow> book_consumer" where
  "new_consumer h base = \<lparr>bc_heap = h, bc_book = new_book, bc_pool = new_pool base DefaultOrderCapacity\<rparr>"

definition bc_releaseIfOwned :: "ptr option \<Rightarrow> book_consumer \<Rightarrow> book_consumer option" where
  "bc_releaseIfOwned order c =
     (if order \<noteq> None \<and> pool_owns (bc_pool c) order
      then map_option (\<lambda>pl. c\<lparr>bc_pool := pl\<rparr>) (pool_release order (bc_pool c))
      else Some c)"

definition book_consume :: "MarketDataEvent \<Rightarrow> book_consumer \<Rightarrow> book_consumer option" where
  "book_consume event c =
     (case ev_type event of
        AddOrderEvent \<Rightarrow> do {
          (order, pl) \<leftarrow> pool_acquire (bc_pool c);
          let c1 = c\<lparr>bc_pool := pl\<rparr>;
          case order of
            None \<Rightarrow> Some c1
          | Some p \<Rightarrow> do {
              let h = (bc_heap c1)(p := \<lparr>ord_id = ev_orderId event, ord_account = ev_accountId event,
                 ord_side = ev_side event, ord_price = ev_price event, ord_quantity = ev_quantity event,
                 ord_level = None, ord_prev = None, ord_next = None\<rparr>);
              (h', b') \<leftarrow> addOrder p (h, bc_book c1);
              Some (c1\<lparr>bc_heap := h', bc_book := b'\<rparr>)
            }
        }
      | CancelOrderEvent \<Rightarrow> do {
          (result, h', b') \<leftarrow> reduceOrder (ev_orderId event) (ev_quantity event) (bc_heap c, bc_book c);
          bc_releaseIfOwned (upd_removed_order result) (c\<lparr>bc_heap := h', bc_book := b'\<rparr>)
        }
      | DeleteOrderEvent \<Rightarrow> do {
          (removedOrder, h', b') \<leftarrow> cancelOrder (ev_orderId event) (bc_heap c, bc_book c);
          bc_releaseIfOwned removedOrder (c\<lparr>bc_heap := h', bc_book := b'\<rparr>)
        }
      | ExecuteOrderEvent \<Rightarrow> do {
          (result, h', b') \<leftarrow> executeOrder (ev_orderId event) (ev_quantity event) (bc_heap c, bc_book c);
          bc_releaseIfOwned (upd_removed_order result) (c\<lparr>bc_heap := h', bc_book := b'\<rparr>)
        }
      | ReplaceOrderEvent \<Rightarrow> do {
          (_, h', b') \<leftarrow> replaceOrder (ev_orderId event) (ev_newOrderId event) (ev_quantity event)
             (ev_price event) (bc_heap c, bc_book c);
          Some (c\<lparr>bc_heap := h', bc_book := b'\<rparr>)
        })"

section \<open>The abstract book\<close>

type_synonym entry = "OrderId \<times> AccountId \<times> Quantity"
type_synonym abook = "Side \<Rightarrow> nat \<Rightarrow> entry list"

definition entry_of :: "heap \<Rightarrow> ptr \<Rightarrow> entry" where
  "entry_of h p = (ord_id (h p), ord_account (h p), ord_quantity (h p))"

definition entries :: "queues \<Rightarrow> heap \<Rightarrow> abook" where
  "entries Q h = (\<lambda>s i. map (entry_of h) (Q s i))"

definition a_push :: "Side \<Rightarrow> nat \<Rightarrow> entry \<Rightarrow> abook \<Rightarrow> abook" where
  "a_push s i e A = A(s := (A s)(i := A s i @ [e]))"

definition a_remove :: "OrderId \<Rightarrow> abook \<Rightarrow> abook" where
  "a_remove oid A = (\<lambda>s i. filter (\<lambda>e. fst e \<noteq> oid) (A s i))"

definition a_reduce :: "OrderId \<Rightarrow> Quantity \<Rightarrow> abook \<Rightarrow> abook" where
  "a_reduce oid c A = (\<lambda>s i. map (\<lambda>(k, a, q). if k = oid then (k, a, q - c) else (k, a, q)) (A s i))"

definition a_has :: "abook \<Rightarrow> OrderId \<Rightarrow> bool" where
  "a_has A oid \<longleftrightarrow> (\<exists>s i. oid \<in> fst ` set (A s i))"

definition a_count :: "abook \<Rightarrow> nat" where
  "a_count A = (\<Sum>i<MaxPriceLevels. length (A Buy i)) + (\<Sum>i<MaxPriceLevels. length (A Sell i))"

inductive book_step :: "MarketDataEvent \<Rightarrow> abook \<Rightarrow> abook \<Rightarrow> bool" where
  add: "ev_type ev = AddOrderEvent \<Longrightarrow> a_count A < DefaultOrderCapacity \<Longrightarrow> ev_price ev = int i \<Longrightarrow>
    book_step ev A (a_push (ev_side ev) i (ev_orderId ev, ev_accountId ev, ev_quantity ev) A)"
| add_full: "ev_type ev = AddOrderEvent \<Longrightarrow> a_count A = DefaultOrderCapacity \<Longrightarrow> book_step ev A A"
| reduce_unknown: "ev_type ev \<in> {CancelOrderEvent, ExecuteOrderEvent} \<Longrightarrow> \<not> a_has A (ev_orderId ev) \<Longrightarrow>
    book_step ev A A"
| reduce_refused: "ev_type ev \<in> {CancelOrderEvent, ExecuteOrderEvent} \<Longrightarrow>
    (ev_orderId ev, a, q) \<in> set (A s i) \<Longrightarrow> ev_quantity ev = 0 \<or> ev_quantity ev > q \<Longrightarrow> book_step ev A A"
| reduce_part: "ev_type ev \<in> {CancelOrderEvent, ExecuteOrderEvent} \<Longrightarrow>
    (ev_orderId ev, a, q) \<in> set (A s i) \<Longrightarrow> 0 < ev_quantity ev \<Longrightarrow> ev_quantity ev < q \<Longrightarrow>
    book_step ev A (a_reduce (ev_orderId ev) (ev_quantity ev) A)"
| reduce_all: "ev_type ev \<in> {CancelOrderEvent, ExecuteOrderEvent} \<Longrightarrow>
    (ev_orderId ev, a, ev_quantity ev) \<in> set (A s i) \<Longrightarrow> ev_quantity ev \<noteq> 0 \<Longrightarrow>
    book_step ev A (a_remove (ev_orderId ev) A)"
| delete: "ev_type ev = DeleteOrderEvent \<Longrightarrow> book_step ev A (a_remove (ev_orderId ev) A)"
| replace_refused: "ev_type ev = ReplaceOrderEvent \<Longrightarrow>
    ev_newOrderId ev = 0 \<or> ev_quantity ev = 0 \<or> ev_newOrderId ev = ev_orderId ev \<or>
      a_has A (ev_newOrderId ev) \<or> \<not> a_has A (ev_orderId ev) \<Longrightarrow> book_step ev A A"
| replace: "ev_type ev = ReplaceOrderEvent \<Longrightarrow> ev_newOrderId ev \<noteq> 0 \<Longrightarrow> ev_quantity ev \<noteq> 0 \<Longrightarrow>
    ev_newOrderId ev \<noteq> ev_orderId ev \<Longrightarrow> \<not> a_has A (ev_newOrderId ev) \<Longrightarrow>
    (ev_orderId ev, a, q) \<in> set (A s i) \<Longrightarrow> ev_price ev = int j \<Longrightarrow>
    book_step ev A (a_push s j (ev_newOrderId ev, a, ev_quantity ev) (a_remove (ev_orderId ev) A))"

text \<open>What the book needs of an event: a price it has a level for and, for an add, a new identifier.\<close>

definition event_ok :: "abook \<Rightarrow> MarketDataEvent \<Rightarrow> bool" where
  "event_ok A ev \<longleftrightarrow>
     (ev_type ev \<in> {AddOrderEvent, ReplaceOrderEvent} \<longrightarrow> 0 < ev_price ev \<and> ev_price ev < int MaxPriceLevels) \<and>
     (ev_type ev = AddOrderEvent \<longrightarrow> \<not> a_has A (ev_orderId ev))"

definition bc_inv :: "queues \<Rightarrow> book_consumer \<Rightarrow> bool" where
  "bc_inv Q c \<longleftrightarrow> book_inv Q (bc_heap c) (bc_book c) \<and> pool_inv (bc_pool c) \<and> held (bc_pool c) = live Q \<and>
     pool_capacity (bc_pool c) = DefaultOrderCapacity"

lemma bc_invD:
  assumes "bc_inv Q c"
  shows "book_inv Q (bc_heap c) (bc_book c)" "pool_inv (bc_pool c)" "held (bc_pool c) = live Q"
    "pool_capacity (bc_pool c) = DefaultOrderCapacity"
  using assms unfolding bc_inv_def by blast+

section \<open>Queues and entries\<close>

lemma live_count:
  assumes inv: "book_inv Q h b"
  shows "card (live Q) = a_count (entries Q h)"
proof -
  let ?L = "\<lambda>s. \<Union>i<MaxPriceLevels. set (Q s i)"
  have "finite (set (Q s i))" for s i by simp
  have side: "card (?L s) = (\<Sum>i<MaxPriceLevels. length (Q s i))" for s
  proof (subst card_UN_disjoint)
    show "\<forall>i\<in>{..<MaxPriceLevels}. \<forall>j\<in>{..<MaxPriceLevels}. i \<noteq> j \<longrightarrow> set (Q s i) \<inter> set (Q s j) = {}"
      using inv_unique[OF inv] by blast
  qed (simp_all add: distinct_card inv_distinct[OF inv])
  have "live Q = ?L Buy \<union> ?L Sell"
  proof (intro set_eqI iffI)
    fix p assume "p \<in> live Q"
    then obtain s i where p: "p \<in> set (Q s i)" by (auto simp: live_def)
    then have "Q s i \<noteq> []" by auto
    then have "i < MaxPriceLevels" using inv_range[OF inv, of s i] by blast
    with p show "p \<in> ?L Buy \<union> ?L Sell" by (cases s) auto
  qed (auto simp: live_def)
  moreover have "?L Buy \<inter> ?L Sell = {}" using inv_unique[OF inv] by blast
  ultimately show ?thesis
    using card_Un_disjoint[of "?L Buy" "?L Sell"] side by (simp add: a_count_def entries_def)
qed

lemma entries_has:
  "a_has (entries Q h) oid \<longleftrightarrow> (\<exists>p\<in>live Q. ord_id (h p) = oid)"
  unfolding a_has_def entries_def live_def by (auto simp: entry_of_def image_iff)

lemma entries_mem:
  assumes "(oid, a, q) \<in> set (entries Q h s i)"
  shows "\<exists>p\<in>set (Q s i). ord_id (h p) = oid \<and> ord_account (h p) = a \<and> ord_quantity (h p) = q"
  using assms by (auto simp: entries_def entry_of_def)

lemma entries_payload:
  assumes "\<And>p. payload (h' p) = payload (h p)"
  shows "entries Q h' = entries Q h"
proof -
  have "entry_of h' p = entry_of h p" for p using payload_eqD[OF assms[of p]] by (simp add: entry_of_def)
  then show ?thesis by (simp add: entries_def fun_eq_iff)
qed

text \<open>Writing to an order that is not in the book does not change its entries.\<close>

lemma entries_off:
  assumes "p \<notin> live Q"
  shows "entries Q (h(p := r)) = entries Q h"
proof (intro ext)
  fix s i
  have "p \<notin> set (Q s i)" using assms liveI[of p Q s i] by blast
  then show "entries Q (h(p := r)) s i = entries Q h s i" by (auto simp: entries_def entry_of_def)
qed

lemma entries_push: "entries (enq s i p Q) h = a_push s i (entry_of h p) (entries Q h)"
  by (auto simp: entries_def a_push_def set_queue_def fun_eq_iff)

lemma filter_remove1:
  "distinct xs \<Longrightarrow> p \<in> set xs \<Longrightarrow> (\<And>q. q \<in> set xs \<Longrightarrow> P q \<longleftrightarrow> q \<noteq> p) \<Longrightarrow> filter P xs = remove1 p xs"
proof -
  assume xs: "distinct xs" and P: "\<And>q. q \<in> set xs \<Longrightarrow> P q \<longleftrightarrow> q \<noteq> p"
  have "filter P xs = filter (\<lambda>q. p \<noteq> q) xs" by (rule filter_cong) (use P in blast)+
  also have "\<dots> = remove1 p xs"
    by (simp only: distinct_remove1_removeAll[OF xs] removeAll_filter_not_eq)
  finally show ?thesis .
qed

lemma ids_unique:
  assumes "book_inv Q h b" "p \<in> live Q" "q \<in> live Q" "ord_id (h q) = ord_id (h p)"
  shows "q = p"
  using index_find_iff[OF assms(1), of "ord_id (h p)"] assms(2-4) by (metis option.inject)

lemma entries_remove:
  assumes inv: "book_inv Q h b" and p: "p \<in> set (Q s i)"
  shows "entries (deq s i p Q) h = a_remove (ord_id (h p)) (entries Q h)"
proof (intro ext)
  fix s' j
  have pl: "p \<in> live Q" using p by (auto simp: live_def)
  have id: "ord_id (h q) \<noteq> ord_id (h p) \<longleftrightarrow> q \<noteq> p" if "q \<in> set (Q s' j)" for q
    using ids_unique[OF inv pl, of q] liveI[of q Q s' j, OF that] by blast
  have "filter (\<lambda>q. ord_id (h q) \<noteq> ord_id (h p)) (Q s' j) = deq s i p Q s' j"
  proof (cases "s' = s \<and> j = i")
    case True
    then show ?thesis using id filter_remove1[OF inv_distinct[OF inv], of p s i] p by simp
  next
    case False
    then have "p \<notin> set (Q s' j)" using inv_unique[OF inv p, of s' j] by blast
    then have "filter (\<lambda>q. ord_id (h q) \<noteq> ord_id (h p)) (Q s' j) = Q s' j" using id by (auto simp: filter_id_conv)
    then show ?thesis using False by (auto simp: set_queue_def)
  qed
  then show "entries (deq s i p Q) h s' j = a_remove (ord_id (h p)) (entries Q h) s' j"
    by (simp add: entries_def a_remove_def filter_map comp_def entry_of_def)
qed

lemma entries_absent:
  assumes "\<not> a_has A oid"
  shows "a_remove oid A = A"
  using assms by (auto simp: a_remove_def a_has_def fun_eq_iff filter_id_conv)

lemma entries_reduce:
  assumes inv: "book_inv Q h b" and p: "p \<in> set (Q s i)"
  shows "entries Q (h(p := (h p)\<lparr>ord_quantity := ord_quantity (h p) - c\<rparr>)) = a_reduce (ord_id (h p)) c (entries Q h)"
proof (intro ext)
  fix s' j
  have pl: "p \<in> live Q" using p by (auto simp: live_def)
  have "q = p" if "q \<in> set (Q s' j)" "ord_id (h q) = ord_id (h p)" for q
    using ids_unique[OF inv pl _ that(2)] liveI[of q Q s' j, OF that(1)] by blast
  then show "entries Q (h(p := (h p)\<lparr>ord_quantity := ord_quantity (h p) - c\<rparr>)) s' j =
      a_reduce (ord_id (h p)) c (entries Q h) s' j"
    by (auto simp: entries_def a_reduce_def entry_of_def)
qed

section \<open>Refinement\<close>

lemma bc_room:
  assumes "bc_inv Q c"
  shows "card (live Q) \<le> DefaultOrderCapacity" "finite (slots (bc_pool c))" "live Q \<subseteq> slots (bc_pool c)"
proof -
  show fin: "finite (slots (bc_pool c))" by (simp add: slots_def)
  show sub: "live Q \<subseteq> slots (bc_pool c)" using bc_invD(3)[OF assms] held_sub by blast
  show "card (live Q) \<le> DefaultOrderCapacity"
    using card_mono[OF fin sub] card_slots bc_invD(4)[OF assms] by simp
qed

lemma consumer_release_ok:
  assumes "pool_inv (bc_pool c)" "p \<in> held (bc_pool c)"
  obtains pl where "bc_releaseIfOwned (Some p) c = Some (c\<lparr>bc_pool := pl\<rparr>)" "pool_inv pl"
    "held pl = held (bc_pool c) - {p}" "pool_capacity pl = pool_capacity (bc_pool c)"
proof -
  obtain pl where pl: "pool_release (Some p) (bc_pool c) = Some pl" "pool_inv pl" "slots pl = slots (bc_pool c)"
    "held pl = held (bc_pool c) - {p}"
    using op.free_law[OF assms(1), of "Some p"] by auto
  have "pool_owns (bc_pool c) (Some p)" using assms(2) held_sub pool_owns_slots by blast
  with pl(1) have "bc_releaseIfOwned (Some p) c = Some (c\<lparr>bc_pool := pl\<rparr>)" by (simp add: bc_releaseIfOwned_def)
  moreover have "pool_capacity pl = pool_capacity (bc_pool c)"
    using card_slots pl(3) by metis
  ultimately show ?thesis using that pl(2,4) by blast
qed

text \<open>One event takes a related pair of books to a related pair.\<close>

definition refines_step :: "MarketDataEvent \<Rightarrow> queues \<Rightarrow> book_consumer \<Rightarrow> bool" where
  "refines_step ev Q c \<longleftrightarrow> (\<exists>Q' c'. book_consume ev c = Some c' \<and> bc_inv Q' c' \<and>
     book_step ev (entries Q (bc_heap c)) (entries Q' (bc_heap c')))"

lemma refines_stepI:
  assumes "book_consume ev c = Some c'" "bc_inv Q' c'"
    "book_step ev (entries Q (bc_heap c)) (entries Q' (bc_heap c'))"
  shows "refines_step ev Q c"
  using assms unfolding refines_step_def by blast

text \<open>Cancelling an order that is in the book returns it to the pool, for each event that does so.\<close>

lemma cancel_step:
  assumes inv: "bc_inv Q c" and p: "p \<in> set (Q s i)" "ord_id (bc_heap c p) = oid"
  obtains c' h' b' where "cancelOrder oid (bc_heap c, bc_book c) = Some (Some p, h', b')"
    "bc_releaseIfOwned (Some p) (c\<lparr>bc_heap := h', bc_book := b'\<rparr>) = Some c'"
    "bc_inv (deq s i p Q) c'" "entries (deq s i p Q) (bc_heap c') = a_remove oid (entries Q (bc_heap c))"
proof -
  note I = bc_invD[OF inv]
  obtain h' b' where c: "cancelOrder oid (bc_heap c, bc_book c) = Some (Some p, h', b')"
    "book_inv (deq s i p Q) h' b'" "\<And>q. payload (h' q) = payload (bc_heap c q)"
    "live (deq s i p Q) = live Q - {p}"
    using cancelOrder_ok[OF I(1) p] by metis
  let ?c = "c\<lparr>bc_heap := h', bc_book := b'\<rparr>"
  obtain pl where pl: "bc_releaseIfOwned (Some p) ?c = Some (?c\<lparr>bc_pool := pl\<rparr>)" "pool_inv pl"
    "held pl = held (bc_pool c) - {p}" "pool_capacity pl = pool_capacity (bc_pool c)"
    using consumer_release_ok[of ?c p] I(2,3) liveI[of p Q s i, OF p(1)] by auto
  have "bc_inv (deq s i p Q) (?c\<lparr>bc_pool := pl\<rparr>)"
    unfolding bc_inv_def using c(2,4) pl(2-4) I(3,4) by simp
  moreover have "entries (deq s i p Q) h' = a_remove oid (entries Q (bc_heap c))"
    using entries_payload[OF c(3)] entries_remove[OF I(1) p(1)] p(2) by simp
  ultimately show ?thesis using that[OF c(1) pl(1)] by simp
qed

lemma consume_delete:
  assumes inv: "bc_inv Q c" and ev: "ev_type ev = DeleteOrderEvent"
  shows "refines_step ev Q c"
proof (cases "index_find (bc_book c) (ev_orderId ev)")
  case None
  then have "\<not> a_has (entries Q (bc_heap c)) (ev_orderId ev)"
    using index_find_None[OF bc_invD(1)[OF inv]] entries_has by blast
  then have "book_step ev (entries Q (bc_heap c)) (entries Q (bc_heap c))"
    using book_step.delete[OF ev, of "entries Q (bc_heap c)"] entries_absent by metis
  moreover have "book_consume ev c = Some c"
    by (simp add: book_consume_def ev cancelOrder_absent[OF None] bc_releaseIfOwned_def)
  ultimately show ?thesis using refines_stepI inv by blast
next
  case (Some p)
  then have pl: "p \<in> live Q" and id: "ord_id (bc_heap c p) = ev_orderId ev"
    using index_find_iff[OF bc_invD(1)[OF inv]] by blast+
  then obtain s i where p: "p \<in> set (Q s i)" unfolding live_def by blast
  obtain c' h' b' where c: "cancelOrder (ev_orderId ev) (bc_heap c, bc_book c) = Some (Some p, h', b')"
    "bc_releaseIfOwned (Some p) (c\<lparr>bc_heap := h', bc_book := b'\<rparr>) = Some c'" "bc_inv (deq s i p Q) c'"
    "entries (deq s i p Q) (bc_heap c') = a_remove (ev_orderId ev) (entries Q (bc_heap c))"
    by (rule cancel_step[OF inv p id])
  have "book_consume ev c = Some c'" by (simp add: book_consume_def ev c(1,2))
  then show ?thesis using c(3,4) book_step.delete[OF ev] by (metis refines_stepI)
qed

lemma consume_reduce:
  assumes inv: "bc_inv Q c" and ev: "ev_type ev \<in> {CancelOrderEvent, ExecuteOrderEvent}"
  shows "refines_step ev Q c"
proof -
  let ?A = "entries Q (bc_heap c)" and ?n = "ev_quantity ev"
  have run: "book_consume ev c = do {
      (result, h', b') \<leftarrow> reduceOrder (ev_orderId ev) ?n (bc_heap c, bc_book c);
      bc_releaseIfOwned (upd_removed_order result) (c\<lparr>bc_heap := h', bc_book := b'\<rparr>)}"
    using ev by (auto simp: book_consume_def executeOrder_def)
  have stay: "refines_step ev Q c"
    if "reduceOrder (ev_orderId ev) ?n (bc_heap c, bc_book c) = Some (no_update, bc_heap c, bc_book c)"
      "book_step ev ?A ?A"
    using that inv by (intro refines_stepI[of _ _ c Q])
      (simp_all add: run bc_releaseIfOwned_def no_update_def)
  show ?thesis
  proof (cases "index_find (bc_book c) (ev_orderId ev)")
    case None
    then have "\<not> a_has ?A (ev_orderId ev)"
      using index_find_None[OF bc_invD(1)[OF inv]] entries_has by blast
    then show ?thesis using stay reduceOrder_absent[OF None] book_step.reduce_unknown[OF ev] by blast
  next
    case (Some p)
    then have pl: "p \<in> live Q" and id: "ord_id (bc_heap c p) = ev_orderId ev"
      using index_find_iff[OF bc_invD(1)[OF inv]] by blast+
    then obtain s i where p: "p \<in> set (Q s i)" unfolding live_def by blast
    let ?q = "ord_quantity (bc_heap c p)"
    have mem: "(ev_orderId ev, ord_account (bc_heap c p), ?q) \<in> set (?A s i)"
      using p id by (force simp: entries_def entry_of_def)
    consider "?n = 0 \<or> ?n > ?q" | "0 < ?n" "?n < ?q" | "?n \<noteq> 0" "?n = ?q"
      using word_neq_0_conv[of ?n] by (meson linorder_cases)
    then show ?thesis
    proof cases
      case 1
      then show ?thesis using stay reduceOrder_rejected[OF Some] book_step.reduce_refused[OF ev, where A = ?A and s = s and i = i, OF mem] by blast
    next
      case 2
      let ?h = "(bc_heap c)(p := (bc_heap c p)\<lparr>ord_quantity := ?q - ?n\<rparr>)"
      have "bc_inv Q (c\<lparr>bc_heap := ?h, bc_book := bc_book c\<rparr>)"
        using inv book_inv_quantity[OF bc_invD(1)[OF inv]] by (simp add: bc_inv_def)
      moreover have "book_consume ev c = Some (c\<lparr>bc_heap := ?h, bc_book := bc_book c\<rparr>)"
        by (simp add: run reduceOrder_partial[OF Some, where h = "bc_heap c", OF 2] bc_releaseIfOwned_def no_update_def)
      moreover have "book_step ev ?A (entries Q ?h)"
        using entries_reduce[OF bc_invD(1)[OF inv] p] book_step.reduce_part[OF ev, where A = ?A and s = s and i = i, OF mem 2] id by simp
      ultimately show ?thesis by (intro refines_stepI[of _ _ "c\<lparr>bc_heap := ?h, bc_book := bc_book c\<rparr>" Q]) simp_all
    next
      case 3
      obtain c' h' b' where c: "cancelOrder (ev_orderId ev) (bc_heap c, bc_book c) = Some (Some p, h', b')"
        "bc_releaseIfOwned (Some p) (c\<lparr>bc_heap := h', bc_book := b'\<rparr>) = Some c'" "bc_inv (deq s i p Q) c'"
        "entries (deq s i p Q) (bc_heap c') = a_remove (ev_orderId ev) ?A"
        by (rule cancel_step[OF inv p id])
      have "book_consume ev c = Some c'" by (simp add: run reduceOrder_full[OF Some, where h = "bc_heap c", OF 3 c(1)] c(2))
      then show ?thesis
        using c(3,4) book_step.reduce_all[OF ev, where A = ?A and s = s and i = i] mem 3
        by (metis refines_stepI)
    qed
  qed
qed

lemma consume_add:
  assumes inv: "bc_inv Q c" and ev: "ev_type ev = AddOrderEvent" and ok: "event_ok (entries Q (bc_heap c)) ev"
  shows "refines_step ev Q c"
proof -
  note I = bc_invD[OF inv]
  obtain i where i: "ev_price ev = int i" "0 < i" "i < MaxPriceLevels"
    using ok ev zero_less_imp_eq_int[of "ev_price ev"] by (auto simp: event_ok_def)
  have new: "ord_id (bc_heap c q) \<noteq> ev_orderId ev" if "q \<in> live Q" for q
    using ok ev that by (auto simp: event_ok_def entries_has)
  from I(2) show ?thesis
  proof (cases rule: acquire_cases)
    case none
    then have "a_count (entries Q (bc_heap c)) = DefaultOrderCapacity"
      using live_count[OF I(1)] I(3,4) card_slots by simp
    then have "book_step ev (entries Q (bc_heap c)) (entries Q (bc_heap c))" by (rule book_step.add_full[OF ev])
    moreover have "book_consume ev c = Some c" by (simp add: book_consume_def ev none(1))
    ultimately show ?thesis using refines_stepI inv by blast
  next
    case (slot p pl)
    let ?r = "\<lparr>ord_id = ev_orderId ev, ord_account = ev_accountId ev, ord_side = ev_side ev,
      ord_price = ev_price ev, ord_quantity = ev_quantity ev, ord_level = None, ord_prev = None, ord_next = None\<rparr>"
    let ?h = "(bc_heap c)(p := ?r)" and ?s = "ev_side ev"
    have p: "p \<notin> live Q" using slot(3) I(3) by simp
    have room: "card (live Q) < DefaultOrderCapacity"
      using psubset_card_mono[OF bc_room(2)[OF inv], of "live Q"] bc_room(3)[OF inv] slot(2) p
        card_slots I(4) by fastforce
    have b: "book_inv Q ?h (bc_book c)" using p by (intro book_inv_heap_cong[OF I(1)]) auto
    have hs: "ord_side (?h p) = ?s" "ord_price (?h p) = int i" using i(1) by simp_all
    have fresh: "ord_id (?h q) \<noteq> ord_id (?h p)" if "q \<in> live Q" for q using new[OF that] p that by auto
    obtain h' b' where a: "addOrder p (?h, bc_book c) = Some (h', b')" "book_inv (enq ?s i p Q) h' b'"
      "\<And>q. payload (h' q) = payload (?h q)"
      using addOrder_ok[of Q ?h "bc_book c" p ?s i, OF b p hs i(2,3) fresh room] by metis
    let ?c = "c\<lparr>bc_pool := pl, bc_heap := h', bc_book := b'\<rparr>"
    have live: "live (enq ?s i p Q) = insert p (live Q)" by (rule live_set_queue_add) simp
    have "pool_capacity pl = pool_capacity (bc_pool c)"
      using card_slots slot(5) by metis
    then have "bc_inv (enq ?s i p Q) ?c" unfolding bc_inv_def using a(2) slot(4,6) live I(3,4) by simp
    moreover have "book_consume ev c = Some ?c" by (simp add: book_consume_def ev slot(1) a(1))
    moreover have "entries (enq ?s i p Q) h' =
        a_push ?s i (ev_orderId ev, ev_accountId ev, ev_quantity ev) (entries Q (bc_heap c))"
    proof -
      have "entries Q ?h = entries Q (bc_heap c)" by (rule entries_off[OF p])
      moreover have "entries (enq ?s i p Q) h' = entries (enq ?s i p Q) ?h" by (intro entries_payload a(3))
      ultimately show ?thesis by (simp add: entries_push entry_of_def)
    qed
    moreover note book_step.add[OF ev _ i(1), of "entries Q (bc_heap c)"]
    ultimately show ?thesis using room live_count[OF I(1)]
      by (intro refines_stepI[of _ _ ?c "enq ?s i p Q"]) simp_all
  qed
qed

lemma consume_replace:
  assumes inv: "bc_inv Q c" and ev: "ev_type ev = ReplaceOrderEvent" and ok: "event_ok (entries Q (bc_heap c)) ev"
  shows "refines_step ev Q c"
proof -
  note I = bc_invD[OF inv]
  let ?A = "entries Q (bc_heap c)" and ?o = "ev_orderId ev" and ?n = "ev_newOrderId ev" and ?q = "ev_quantity ev"
  obtain j where j: "ev_price ev = int j" "0 < j" "j < MaxPriceLevels"
    using ok ev zero_less_imp_eq_int[of "ev_price ev"] by (auto simp: event_ok_def)
  show ?thesis
  proof (cases "?n = 0 \<or> ?q = 0 \<or> ?n = ?o \<or> a_has ?A ?n \<or> \<not> a_has ?A ?o")
    case True
    then have "?n = 0 \<or> ?q = 0 \<or> ?n = ?o \<or> index_find (bc_book c) ?n \<noteq> None \<or> index_find (bc_book c) ?o = None"
      using index_find_None[OF I(1)] by (auto simp: entries_has)
    then have "book_consume ev c = Some c" by (simp add: book_consume_def ev replaceOrder_refused)
    then show ?thesis using refines_stepI inv book_step.replace_refused[OF ev True] by blast
  next
    case False
    then obtain p where pl: "p \<in> live Q" and id: "ord_id (bc_heap c p) = ?o" by (auto simp: entries_has)
    then obtain s i where p: "p \<in> set (Q s i)" unfolding live_def by blast
    have new: "?n \<noteq> 0" "?q \<noteq> 0" "?n \<noteq> ?o" "\<forall>q\<in>live Q. ord_id (bc_heap c q) \<noteq> ?n"
      using False by (auto simp: entries_has)
    let ?Q = "enq s j p (deq s i p Q)"
    let ?h = "(bc_heap c)(p := reprice ?n ?q (int j) (bc_heap c p))"
    obtain h' b' where r: "replaceOrder ?o ?n ?q (int j) (bc_heap c, bc_book c) = Some (True, h', b')"
      "book_inv ?Q h' b'" and r3: "\<And>q. payload (h' q) = payload (if q = p then reprice ?n ?q (int j) (bc_heap c q) else bc_heap c q)"
      using replaceOrder_ok[OF I(1) p id new j(2,3) bc_room(1)[OF inv]] by blast
    have r3: "payload (h' q) = payload (?h q)" for q using r3[of q] by simp
    let ?c = "c\<lparr>bc_heap := h', bc_book := b'\<rparr>"
    have "live ?Q = insert p (live (deq s i p Q))" by (rule live_set_queue_add) simp
    then have "live ?Q = live Q" using live_set_queue_remove[OF I(1) p] pl by auto
    then have inv': "bc_inv ?Q ?c" unfolding bc_inv_def using r(2) I by simp
    have out: "p \<notin> live (deq s i p Q)" using live_set_queue_remove[OF I(1) p] by auto
    have "entries (deq s i p Q) ?h = entries (deq s i p Q) (bc_heap c)"
      by (rule entries_off[OF out])
    moreover have "entries ?Q h' = entries ?Q ?h" by (intro entries_payload r3)
    moreover have "entry_of ?h p = (?n, ord_account (bc_heap c p), ?q)" by (simp add: entry_of_def reprice_def)
    ultimately have E: "entries ?Q h' = a_push s j (?n, ord_account (bc_heap c p), ?q) (a_remove ?o ?A)"
      using entries_remove[OF I(1) p] id by (simp only: entries_push)
    have "(?o, ord_account (bc_heap c p), ord_quantity (bc_heap c p)) \<in> set (?A s i)"
      using p id by (force simp: entries_def entry_of_def)
    then have "book_step ev ?A (entries ?Q h')"
      unfolding E using False
      by (intro book_step.replace[OF ev, where A = ?A and s = s and i = i]) (auto simp: j(1))
    moreover have "book_consume ev c = Some ?c" by (simp add: book_consume_def ev j(1) r(1))
    ultimately show ?thesis using inv' by (intro refines_stepI[of _ _ ?c ?Q]) simp_all
  qed
qed

lemma consume_refines:
  assumes "bc_inv Q c" "event_ok (entries Q (bc_heap c)) ev"
  shows "refines_step ev Q c"
  using assms consume_delete consume_reduce consume_add consume_replace by (cases "ev_type ev") auto

lemma new_consumer_inv: "bc_inv (\<lambda>_ _. []) (new_consumer h base)"
  unfolding bc_inv_def new_consumer_def
  by (simp add: new_book_inv new_pool_inv new_pool_held) (simp add: new_pool_def pool_capacity_def)

section \<open>Properties\<close>

text \<open>C20. \<^verbatim>\<open>MarketDataBookConsumer::consume\<close> implements the meaning of the market-data event on an
  abstract book, per side and price the list of (identifier, account, quantity) in time order:
  from a consumer in its invariant and an event whose price has a level and, for an add, whose
  identifier is new, it returns, keeps the invariant (the pool has handed out exactly the orders in
  the book) and the abstract book makes the step of the event: an add is appended or, with the pool
  exhausted, dropped; a cancel or execution lowers the quantity in place, removes the order when it
  takes all of it, and is ignored when unknown, zero or excessive; a delete removes; a replace moves
  the order to the back of the new price, or is ignored.\<close>

theorem book_consumer_refines:
  assumes "bc_inv Q c" "event_ok (entries Q (bc_heap c)) ev"
  shows "\<exists>Q' c'. book_consume ev c = Some c' \<and> bc_inv Q' c' \<and>
    book_step ev (entries Q (bc_heap c)) (entries Q' (bc_heap c'))"
  using consume_refines[OF assms] unfolding refines_step_def .

definition demo_add :: MarketDataEvent where
  "demo_add = default_event\<lparr>ev_orderId := 7, ev_price := 100, ev_quantity := 5\<rparr>"

theorem book_consumer_refines_witness:
  "\<exists>Q' c'. book_consume demo_add (new_consumer (\<lambda>_. demo_heap 1) 0) = Some c' \<and> bc_inv Q' c' \<and>
     entries Q' (bc_heap c') Buy 100 = [(7, 0, 5)]"
proof -
  let ?c = "new_consumer (\<lambda>_. demo_heap 1) 0" and ?Q = "\<lambda>_ _. [] :: ptr list"
  have "event_ok (entries ?Q (bc_heap ?c)) demo_add"
    by (simp add: event_ok_def demo_add_def default_event_def a_has_def entries_def MaxPriceLevels_def)
  from book_consumer_refines[OF new_consumer_inv this] obtain Q' c' where
    c: "book_consume demo_add ?c = Some c'" "bc_inv Q' c'"
    "book_step demo_add (entries ?Q (bc_heap ?c)) (entries Q' (bc_heap c'))" by blast
  have "entries Q' (bc_heap c') Buy 100 = [(7, 0, 5)]"
    using c(3) by (cases rule: book_step.cases)
      (auto simp: demo_add_def default_event_def a_push_def a_count_def entries_def DefaultOrderCapacity_def)
  with c(1,2) show ?thesis by blast
qed

end
