(* ===== verification/Pipeline.thy ===== *)
theory Pipeline
  imports BookConsumer SpscRingBuffer
begin

text \<open>
  \<^verbatim>\<open>pipeline/dispatcher.cpp\<close> and \<^verbatim>\<open>pipeline/market_data_pipeline.cpp\<close>: the thread that owns the
  pipeline submits events and starts and stops the worker; the worker moves events from the ring
  to the consumer.

  \<open>dispatch\<close> is the loop of the dispatcher run by itself.  \<open>pipe_step\<close> interleaves the two threads:
  one call of the owner, or one iteration of the worker's loops, per step.  A pop inside the running
  loop may miss events published a moment ago; the final drain sees everything submitted before
  \<^verbatim>\<open>stop\<close>, because the worker has read the \<^verbatim>\<open>false\<close> the owner stored after them.  The consumer is an
  argument, \<open>consume ev x = None\<close> standing for undefined behaviour in it.  Which CPU the worker is
  pinned to has no effect on the state and is left out.

  \<open>pl_accepted\<close>, \<open>pl_consumed\<close> and \<open>pl_base\<close> record the history; no guard reads them.
\<close>

section \<open>The dispatcher\<close>

definition QueueCapacity :: nat where
  "QueueCapacity = 4096"

type_synonym EventQueue = "MarketDataEvent ring"
type_synonym 'x consumer = "MarketDataEvent \<Rightarrow> 'x \<Rightarrow> 'x option"

partial_function (option) dispatch_loop ::
  "'x consumer \<Rightarrow> EventQueue \<Rightarrow> 'x \<Rightarrow> nat \<Rightarrow> (EventQueue \<times> 'x \<times> nat) option" where
  "dispatch_loop consume queue x dispatchedCount =
     (case tryPop QueueCapacity queue of
        (None, queue') \<Rightarrow> Some (queue', x, dispatchedCount)
      | (Some event, queue') \<Rightarrow>
          Option.bind (consume event x) (\<lambda>x'. dispatch_loop consume queue' x' (Suc dispatchedCount)))"

definition dispatch :: "'x consumer \<Rightarrow> EventQueue \<Rightarrow> 'x \<Rightarrow> (EventQueue \<times> 'x \<times> nat) option" where
  "dispatch consume queue x = dispatch_loop consume queue x 0"

section \<open>The pipeline\<close>

datatype worker_pc = NoThread | WCheck | WDispatch nat | WDrain nat | WExit
datatype main_pc = MIdle | MJoining

record 'x pipeline =
  pl_queue :: EventQueue
  pl_consumer :: 'x
  pl_running :: bool
  pl_processed :: u64
  pl_worker :: worker_pc
  pl_main :: main_pc
  pl_accepted :: "MarketDataEvent list"
  pl_consumed :: "MarketDataEvent list"
  pl_base :: nat

definition new_pipeline :: "'x \<Rightarrow> 'x pipeline" where
  "new_pipeline x = \<lparr>pl_queue = new_ring default_event, pl_consumer = x, pl_running = False, pl_processed = 0,
     pl_worker = NoThread, pl_main = MIdle, pl_accepted = [], pl_consumed = [], pl_base = 0\<rparr>"

definition joinable :: "'x pipeline \<Rightarrow> bool" where
  "joinable s \<longleftrightarrow> pl_worker s \<noteq> NoThread"

text \<open>Assigning to a joinable \<^verbatim>\<open>std::thread\<close> calls \<^verbatim>\<open>std::terminate\<close>: the result \<open>None\<close> of \<open>pipeline_start\<close>.\<close>

definition pipeline_start :: "'x pipeline \<Rightarrow> 'x pipeline option" where
  "pipeline_start s =
     (if pl_running s then Some s
      else if joinable s then None
      else Some (s\<lparr>pl_running := True, pl_processed := 0, pl_worker := WCheck, pl_base := length (pl_consumed s)\<rparr>))"

definition pipeline_stop :: "'x pipeline \<Rightarrow> 'x pipeline" where
  "pipeline_stop s =
     (if \<not> pl_running s then s
      else let s = s\<lparr>pl_running := False\<rparr> in if joinable s then s\<lparr>pl_main := MJoining\<rparr> else s)"

definition pipeline_submit :: "MarketDataEvent \<Rightarrow> 'x pipeline \<Rightarrow> bool \<times> 'x pipeline" where
  "pipeline_submit event s =
     (let (ok, queue) = tryPush QueueCapacity event (pl_queue s)
      in (ok, s\<lparr>pl_queue := queue, pl_accepted := pl_accepted s @ (if ok then [event] else [])\<rparr>))"

definition processedCount :: "'x pipeline \<Rightarrow> u64" where
  "processedCount s = pl_processed s"

text \<open>The addition to \<^verbatim>\<open>processedCount_\<close> after a dispatch.\<close>

definition add_processed :: "nat \<Rightarrow> 'x pipeline \<Rightarrow> 'x pipeline" where
  "add_processed n s = (if n > 0 then s\<lparr>pl_processed := pl_processed s + of_nat n\<rparr> else s)"

definition pop_missed :: "EventQueue \<Rightarrow> EventQueue" where
  "pop_missed q = q\<lparr>rb_metrics := (rb_metrics q)\<lparr>popFailures := popFailures (rb_metrics q) + 1\<rparr>\<rparr>"

definition deliver_event :: "MarketDataEvent \<Rightarrow> EventQueue \<Rightarrow> 'x \<Rightarrow> worker_pc \<Rightarrow> 'x pipeline \<Rightarrow> 'x pipeline" where
  "deliver_event ev q x pc s =
     s\<lparr>pl_queue := q, pl_consumer := x, pl_worker := pc, pl_consumed := pl_consumed s @ [ev]\<rparr>"

declare pipeline_start_def [step_simps] pipeline_stop_def [step_simps] pipeline_submit_def [step_simps] add_processed_def [step_simps]
  deliver_event_def [step_simps]

inductive pipe_step :: "'x consumer \<Rightarrow> 'x pipeline \<Rightarrow> 'x pipeline \<Rightarrow> bool" for consume :: "'x consumer" where
  m_start: "pl_main s = MIdle \<Longrightarrow> pipeline_start s = Some s' \<Longrightarrow> pipe_step consume s s'"
| m_submit: "pl_main s = MIdle \<Longrightarrow> pipeline_submit ev s = (ok, s') \<Longrightarrow> pipe_step consume s s'"
| m_stop: "pl_main s = MIdle \<Longrightarrow> pipe_step consume s (pipeline_stop s)"
| m_join: "pl_main s = MJoining \<Longrightarrow> pl_worker s = WExit \<Longrightarrow>
    pipe_step consume s (s\<lparr>pl_worker := NoThread, pl_main := MIdle\<rparr>)"
| w_continue: "pl_worker s = WCheck \<Longrightarrow> pl_running s \<Longrightarrow> pipe_step consume s (s\<lparr>pl_worker := WDispatch 0\<rparr>)"
| w_leave: "pl_worker s = WCheck \<Longrightarrow> \<not> pl_running s \<Longrightarrow> pipe_step consume s (s\<lparr>pl_worker := WDrain 0\<rparr>)"
| w_pop: "pl_worker s = WDispatch n \<Longrightarrow> tryPop QueueCapacity (pl_queue s) = (Some ev, q) \<Longrightarrow>
    consume ev (pl_consumer s) = Some x \<Longrightarrow> pipe_step consume s (deliver_event ev q x (WDispatch (Suc n)) s)"
| w_empty: "pl_worker s = WDispatch n \<Longrightarrow>
    pipe_step consume s (add_processed n (s\<lparr>pl_queue := pop_missed (pl_queue s), pl_worker := WCheck\<rparr>))"
| w_drain_pop: "pl_worker s = WDrain n \<Longrightarrow> tryPop QueueCapacity (pl_queue s) = (Some ev, q) \<Longrightarrow>
    consume ev (pl_consumer s) = Some x \<Longrightarrow> pipe_step consume s (deliver_event ev q x (WDrain (Suc n)) s)"
| w_drain_empty: "pl_worker s = WDrain n \<Longrightarrow> tryPop QueueCapacity (pl_queue s) = (None, q) \<Longrightarrow>
    pipe_step consume s (add_processed n (s\<lparr>pl_queue := q, pl_worker := WExit\<rparr>))"

inductive pipe_reach :: "'x consumer \<Rightarrow> 'x \<Rightarrow> 'x pipeline \<Rightarrow> bool" for consume x0 where
  start: "pipe_reach consume x0 (new_pipeline x0)"
| step: "pipe_reach consume x0 s \<Longrightarrow> pipe_step consume s s' \<Longrightarrow> pipe_reach consume x0 s'"

section \<open>Invariant\<close>

fun in_flight :: "worker_pc \<Rightarrow> nat" where
  "in_flight (WDispatch n) = n"
| "in_flight (WDrain n) = n"
| "in_flight _ = 0"

fun draining :: "worker_pc \<Rightarrow> bool" where
  "draining (WDrain n) \<longleftrightarrow> True"
| "draining WExit \<longleftrightarrow> True"
| "draining _ \<longleftrightarrow> False"

text \<open>What the two threads agree on: what is consumed and what is queued is what was accepted.\<close>

definition data_inv :: "'x consumer \<Rightarrow> 'x \<Rightarrow> 'x pipeline \<Rightarrow> bool" where
  "data_inv consume x0 s \<longleftrightarrow>
     rb_inv QueueCapacity (pl_queue s) \<and>
     pl_consumed s @ rb_list QueueCapacity (pl_queue s) = pl_accepted s \<and>
     fold_opt consume (pl_consumed s) x0 = Some (pl_consumer s) \<and>
     pl_base s \<le> length (pl_consumed s) \<and>
     pl_processed s + of_nat (in_flight (pl_worker s)) = of_nat (length (pl_consumed s) - pl_base s)"

definition control_inv :: "'x pipeline \<Rightarrow> bool" where
  "control_inv s \<longleftrightarrow>
     (pl_main s = MIdle \<longrightarrow> (pl_running s \<longleftrightarrow> joinable s)) \<and>
     (pl_main s = MJoining \<longrightarrow> \<not> pl_running s \<and> joinable s) \<and>
     (draining (pl_worker s) \<longrightarrow> pl_main s = MJoining) \<and>
     (pl_worker s = WExit \<longrightarrow> rb_list QueueCapacity (pl_queue s) = [])"

lemma main_pc_neq [simp]: "m \<noteq> MIdle \<longleftrightarrow> m = MJoining" "m \<noteq> MJoining \<longleftrightarrow> m = MIdle"
  by (cases m; simp)+

lemma control_step:
  assumes "pipe_step consume s s'" "control_inv s" "rb_inv QueueCapacity (pl_queue s)"
  shows "control_inv s'"
  using assms
proof (cases rule: pipe_step.cases)
  case (w_drain_empty n q)
  then show ?thesis
    using assms(2) rb.pop_none[OF assms(3)] rb.pop_contents[OF assms(3)]
    by (auto simp: control_inv_def add_processed_def joinable_def)
qed (auto simp: control_inv_def pipeline_start_def pipeline_submit_def pipeline_stop_def add_processed_def
      deliver_event_def joinable_def Let_def split: if_splits prod.splits)

lemma data_pop:
  assumes "data_inv consume x0 s" "tryPop QueueCapacity (pl_queue s) = (Some ev, q)"
    "consume ev (pl_consumer s) = Some x" "in_flight pc = Suc (in_flight (pl_worker s))"
  shows "data_inv consume x0 (deliver_event ev q x pc s)"
proof -
  have inv: "rb_inv QueueCapacity (pl_queue s)" using assms(1) by (simp add: data_inv_def)
  have "rb_list QueueCapacity (pl_queue s) = ev # rb_list QueueCapacity q" "rb_inv QueueCapacity q"
    using rb.pop_contents[OF inv] rb.pop_invar[OF inv] by (simp_all add: assms(2))
  then show ?thesis
    using assms(1,3,4) by (auto simp: data_inv_def deliver_event_def fold_opt_append Suc_diff_le algebra_simps)
qed

lemma data_quiet:
  assumes "data_inv consume x0 s" "rb_inv QueueCapacity q" "rb_list QueueCapacity q = rb_list QueueCapacity (pl_queue s)"
    "in_flight pc = 0" "n = in_flight (pl_worker s)"
  shows "data_inv consume x0 (add_processed n (s\<lparr>pl_queue := q, pl_worker := pc\<rparr>))"
  using assms by (auto simp: data_inv_def add_processed_def)

lemma pop_missed_same [simp]:
  "rb_list cap (pop_missed q) = rb_list cap q" "rb_inv cap (pop_missed q) = rb_inv cap q"
  by (simp_all add: pop_missed_def rb_list_def rb_inv_def rb_size_def)

lemma data_step:
  assumes "pipe_step consume s s'" "data_inv consume x0 s" "control_inv s"
  shows "data_inv consume x0 s'"
proof -
  have inv: "rb_inv QueueCapacity (pl_queue s)" using assms(2) by (simp add: data_inv_def)
  from assms(1) show ?thesis
  proof (cases rule: pipe_step.cases)
    case m_start
    then show ?thesis using assms(2) by (auto simp: data_inv_def pipeline_start_def joinable_def split: if_splits)
  next
    case (m_submit ev ok)
    then show ?thesis
      using assms(2) rb.push_contents[OF inv, of ev] rb.push_invar[OF inv, of ev]
      by (auto simp: data_inv_def pipeline_submit_def Let_def split: prod.splits if_splits)
  next
    case m_stop
    then show ?thesis using assms(2) by (auto simp: data_inv_def pipeline_stop_def Let_def)
  next
    case (w_drain_empty n q)
    then show ?thesis
      using assms(2) rb.pop_contents[OF inv] rb.pop_invar[OF inv] by (auto intro!: data_quiet)
  qed (use assms(2) in \<open>auto intro!: data_pop data_quiet simp: inv\<close>, auto simp: data_inv_def)
qed

lemma pipe_reach_inv:
  assumes "pipe_reach consume x0 s"
  shows "data_inv consume x0 s \<and> control_inv s"
  using assms
proof induction
  case start
  have "1 < QueueCapacity" by (simp add: QueueCapacity_def)
  then show ?case
    by (simp add: data_inv_def control_inv_def new_pipeline_def rb_inv_new rb_list_new joinable_def)
next
  case (step s s')
  then show ?case using data_step control_step by (metis data_inv_def)
qed

section \<open>The dispatcher returns\<close>

lemma dispatch_drains:
  assumes "rb_inv QueueCapacity q"
  shows "\<exists>q'. rb_inv QueueCapacity q' \<and> rb_list QueueCapacity q' = [] \<and>
    dispatch consume q x =
      map_option (\<lambda>x'. (q', x', rb_size QueueCapacity q)) (fold_opt consume (rb_list QueueCapacity q) x)"
  using rb.drain[where L = "dispatch_loop consume", OF dispatch_loop.simps assms, of x 0]
  by (simp add: dispatch_def)

section \<open>Stopping\<close>

definition work_left :: "'x pipeline \<Rightarrow> nat" where
  "work_left s = rb_size QueueCapacity (pl_queue s) +
     (case pl_worker s of NoThread \<Rightarrow> 0 | WExit \<Rightarrow> 1 | WDrain n \<Rightarrow> 2 | WCheck \<Rightarrow> 3 | WDispatch n \<Rightarrow> 4)"

lemma pop_size:
  assumes "rb_inv QueueCapacity q" "tryPop QueueCapacity q = (Some ev, q')"
  shows "rb_size QueueCapacity q = Suc (rb_size QueueCapacity q')"
  using rb.pop_contents[OF assms(1)] by (simp add: assms(2) flip: length_rb_list)

lemma joining_step:
  assumes "pipe_step consume s s'" "pl_main s = MJoining" "control_inv s" "rb_inv QueueCapacity (pl_queue s)"
  shows "work_left s' < work_left s \<and> pl_accepted s' = pl_accepted s \<and> pl_base s' = pl_base s \<and>
    (pl_main s' = MIdle \<longrightarrow> pl_worker s' = NoThread \<and> \<not> pl_running s' \<and> rb_list QueueCapacity (pl_queue s') = [])"
proof -
  have running: "\<not> pl_running s" using assms(2,3) by (simp add: control_inv_def)
  have size: "rb_size QueueCapacity (pop_missed q) = rb_size QueueCapacity q" for q
    by (simp add: pop_missed_def rb_size_def)
  from assms(1) show ?thesis
  proof (cases rule: pipe_step.cases)
    case (w_drain_empty n q)
    then show ?thesis
      using assms(2) rb.pop_contents[OF assms(4)] by (auto simp: work_left_def add_processed_def simp flip: length_rb_list)
  qed (use assms(2,3) running pop_size[OF assms(4)] size in
      \<open>auto simp: work_left_def add_processed_def deliver_event_def control_inv_def\<close>)
qed

lemma joining_progress:
  assumes inv: "data_inv consume x0 s" "control_inv s" and j: "pl_main s = MJoining"
    and ok: "fold_opt consume (pl_accepted s) x0 = Some y"
  shows "\<exists>s'. pipe_step consume s s'"
proof (cases "pl_worker s")
  case (WDrain n)
  have rb: "rb_inv QueueCapacity (pl_queue s)" using inv(1) by (simp add: data_inv_def)
  obtain r q where pop: "tryPop QueueCapacity (pl_queue s) = (r, q)" by force
  show ?thesis
  proof (cases r)
    case None
    then show ?thesis using pipe_step.w_drain_empty[OF WDrain] pop by blast
  next
    case (Some ev)
    have "rb_list QueueCapacity (pl_queue s) = ev # rb_list QueueCapacity q"
      using rb.pop_contents[OF rb] by (simp add: pop Some)
    then have "pl_accepted s = pl_consumed s @ ev # rb_list QueueCapacity q" using inv(1) by (simp add: data_inv_def)
    then obtain x where "consume ev (pl_consumer s) = Some x"
      using ok inv(1) by (auto simp: data_inv_def fold_opt_append bind_eq_Some_conv)
    then show ?thesis using pipe_step.w_drain_pop[OF WDrain] pop Some by blast
  qed
qed (use inv(2) j in \<open>auto simp: control_inv_def joinable_def intro: pipe_step.intros\<close>)

text \<open>What the owner finds when \<^verbatim>\<open>join\<close> returns.\<close>

definition stopped_with :: "'x pipeline \<Rightarrow> 'x \<Rightarrow> 'x pipeline \<Rightarrow> bool" where
  "stopped_with s y s' \<longleftrightarrow> pl_main s' = MIdle \<and> \<not> pl_running s' \<and> \<not> joinable s' \<and>
     pl_consumed s' = pl_accepted s \<and> pl_consumer s' = y \<and>
     processedCount s' = of_nat (length (pl_accepted s) - pl_base s)"

lemma join_returns:
  assumes "pipe_reach consume x0 s" "pl_main s = MJoining" "fold_opt consume (pl_accepted s) x0 = Some y"
    and "f 0 = s" "\<And>i. pipe_step consume (f i) (f (Suc i))"
  shows "\<exists>i\<le>work_left s. stopped_with s y (f i)"
  using assms
proof (induction "work_left s" arbitrary: s f rule: less_induct)
  case less
  note inv = pipe_reach_inv[OF less.prems(1)]
  have step: "pipe_step consume s (f 1)" using less.prems(5)[of 0] less.prems(4) by simp
  have reach: "pipe_reach consume x0 (f 1)" by (rule pipe_reach.step[OF less.prems(1) step])
  have rb: "rb_inv QueueCapacity (pl_queue s)" using inv by (simp add: data_inv_def)
  note J = joining_step[OF step less.prems(2) conjunct2[OF inv] rb]
  show ?case
  proof (cases "pl_main (f 1) = MIdle")
    case True
    have "data_inv consume x0 (f 1)" using pipe_reach_inv[OF reach] by blast
    then have "stopped_with s y (f 1)"
      using True J less.prems(3) by (auto simp: data_inv_def stopped_with_def joinable_def processedCount_def)
    then show ?thesis using J by (intro exI[of _ 1]) auto
  next
    case False
    then have m: "pl_main (f 1) = MJoining" by simp
    have "\<exists>i\<le>work_left (f 1). stopped_with (f 1) y (f (Suc i))"
      by (rule less.hyps[of "f 1" "\<lambda>i. f (Suc i)"]) (use J reach m less.prems(3,5) in auto)
    then obtain i where i: "i \<le> work_left (f 1)" "stopped_with (f 1) y (f (Suc i))" by blast
    have "stopped_with s y (f (Suc i))" using i(2) J by (simp add: stopped_with_def)
    then show ?thesis using i(1) J by (intro exI[of _ "Suc i"]) auto
  qed
qed

text \<open>Left to itself, the worker's drain is one call of \<open>dispatch\<close>.\<close>

lemma drain_runs_dispatch:
  assumes "pl_worker s = WDrain n" "rb_inv QueueCapacity (pl_queue s)"
    "dispatch_loop consume (pl_queue s) (pl_consumer s) n = Some (q, x, m)"
  shows "(pipe_step consume)\<^sup>*\<^sup>* s (add_processed m (s\<lparr>pl_queue := q, pl_consumer := x, pl_worker := WExit,
    pl_consumed := pl_consumed s @ rb_list QueueCapacity (pl_queue s)\<rparr>))"
  using assms
proof (induction "rb_list QueueCapacity (pl_queue s)" arbitrary: s n)
  case Nil
  obtain q' where pop: "tryPop QueueCapacity (pl_queue s) = (None, q')"
    using rb.pop_Nil[OF Nil.prems(2) Nil.hyps[symmetric]] by blast
  then have "q' = q" "pl_consumer s = x" "m = n" using Nil.prems(3) by (simp_all add: dispatch_loop.simps)
  moreover have "s\<lparr>pl_queue := q, pl_consumer := pl_consumer s, pl_worker := WExit, pl_consumed := pl_consumed s\<rparr> =
      s\<lparr>pl_queue := q, pl_worker := WExit\<rparr>" by (cases s) simp
  ultimately show ?case using pipe_step.w_drain_empty[OF Nil.prems(1) pop] Nil.hyps by auto
next
  case (Cons ev evs)
  obtain q' where pop: "tryPop QueueCapacity (pl_queue s) = (Some ev, q')"
    "rb_list QueueCapacity q' = evs" "rb_inv QueueCapacity q'"
    using rb.pop_Some[OF Cons.prems(2) Cons.hyps(2)[symmetric]] by blast
  obtain x' where x: "consume ev (pl_consumer s) = Some x'" "dispatch_loop consume q' x' (Suc n) = Some (q, x, m)"
    using Cons.prems(3) by (subst (asm) dispatch_loop.simps) (auto simp: pop(1) bind_eq_Some_conv)
  let ?s = "deliver_event ev q' x' (WDrain (Suc n)) s"
  have "(pipe_step consume)\<^sup>*\<^sup>* ?s (add_processed m (?s\<lparr>pl_queue := q, pl_consumer := x, pl_worker := WExit,
      pl_consumed := pl_consumed ?s @ rb_list QueueCapacity (pl_queue ?s)\<rparr>))"
    by (rule Cons.hyps(1)[of _ "Suc n"]) (simp_all add: deliver_event_def pop x(2))
  moreover have "pipe_step consume s ?s" by (rule pipe_step.w_drain_pop) (fact Cons.prems(1) pop(1) x(1))+
  ultimately show ?case
    using Cons.hyps(2)[symmetric] pop(2) by (simp add: deliver_event_def converse_rtranclp_into_rtranclp)
qed

section \<open>The book behind the pipeline\<close>

inductive book_run :: "MarketDataEvent list \<Rightarrow> abook \<Rightarrow> abook \<Rightarrow> bool" where
  none: "book_run [] A A"
| some: "book_step ev A B \<Longrightarrow> book_run evs B C \<Longrightarrow> book_run (ev # evs) A C"

text \<open>Every event is acceptable to the book it meets.\<close>

fun events_ok :: "MarketDataEvent list \<Rightarrow> abook \<Rightarrow> bool" where
  "events_ok [] A \<longleftrightarrow> True"
| "events_ok (ev # evs) A \<longleftrightarrow> event_ok A ev \<and> (\<forall>B. book_step ev A B \<longrightarrow> events_ok evs B)"

lemma feed_book:
  assumes "bc_inv Q c" "events_ok evs (entries Q (bc_heap c))"
  shows "\<exists>Q' c'. fold_opt book_consume evs c = Some c' \<and> bc_inv Q' c' \<and>
    book_run evs (entries Q (bc_heap c)) (entries Q' (bc_heap c'))"
  using assms
proof (induction evs arbitrary: Q c)
  case (Cons ev evs)
  then obtain Q1 c1 where 1: "book_consume ev c = Some c1" "bc_inv Q1 c1"
    "book_step ev (entries Q (bc_heap c)) (entries Q1 (bc_heap c1))"
    using consume_refines[of Q c ev] by (auto simp: refines_step_def)
  then obtain Q' c' where "fold_opt book_consume evs c1 = Some c'" "bc_inv Q' c'"
    "book_run evs (entries Q1 (bc_heap c1)) (entries Q' (bc_heap c'))"
    using Cons by fastforce
  with 1 show ?case using book_run.some by fastforce
qed (use book_run.none in auto)

inductive_simps book_run_Nil: "book_run [] A B"
inductive_simps book_run_Cons: "book_run (ev # evs) A C"

lemma book_run_append: "book_run (xs @ ys) A C \<longleftrightarrow> (\<exists>B. book_run xs A B \<and> book_run ys B C)"
  by (induction xs arbitrary: A) (auto simp: book_run_Nil book_run_Cons)

lemma events_ok_prefix: "events_ok (xs @ ys) A \<Longrightarrow> events_ok xs A"
  by (induction xs arbitrary: A) auto

section \<open>Properties\<close>

text \<open>C15. In every interleaving of the owner (starting, submitting, stopping) with the worker, the
  events handed to the consumer followed by those still queued are exactly the accepted ones, in
  order: nothing is lost, duplicated or reordered.  The consumer's state is the result of exactly
  the delivered events, the queue never holds more than 4095, \<^verbatim>\<open>processedCount\<close> never runs ahead of
  the deliveries since the last start, and starting never assigns to a live thread.\<close>

theorem pipeline_exactly_once:
  assumes "pipe_reach consume x0 s"
  shows "pl_consumed s @ rb_list QueueCapacity (pl_queue s) = pl_accepted s \<and>
    fold_opt consume (pl_consumed s) x0 = Some (pl_consumer s) \<and>
    length (rb_list QueueCapacity (pl_queue s)) \<le> 4095 \<and>
    processedCount s + of_nat (in_flight (pl_worker s)) = of_nat (length (pl_consumed s) - pl_base s) \<and>
    (pl_main s = MIdle \<longrightarrow> pipeline_start s \<noteq> None)"
  using pipe_reach_inv[OF assms] rb_size_le[of QueueCapacity "pl_queue s"]
  by (auto simp: data_inv_def control_inv_def processedCount_def pipeline_start_def QueueCapacity_def)

definition id_log :: "OrderId list consumer" where
  "id_log ev xs = Some (xs @ [ev_orderId ev])"

definition demo_stopping :: "OrderId list pipeline" where
  "demo_stopping =
     pipeline_stop (snd (pipeline_submit demo_add (the (pipeline_start (new_pipeline [])))))"

lemma demo_stopping_reach: "pipe_reach id_log [] demo_stopping"
proof -
  let ?s1 = "the (pipeline_start (new_pipeline [])) :: OrderId list pipeline"
  let ?s2 = "snd (pipeline_submit demo_add ?s1)"
  have "pipe_step id_log (new_pipeline []) ?s1"
    by (rule pipe_step.m_start) (simp_all add: new_pipeline_def pipeline_start_def joinable_def)
  then have "pipe_reach id_log [] ?s1" by (rule pipe_reach.step[OF pipe_reach.start])
  moreover have "pipe_step id_log ?s1 ?s2"
    by (rule pipe_step.m_submit[of _ demo_add "fst (pipeline_submit demo_add ?s1)"])
      (simp_all add: new_pipeline_def pipeline_start_def joinable_def)
  ultimately have "pipe_reach id_log [] ?s2" by (rule pipe_reach.step)
  moreover have "pl_main ?s2 = MIdle"
    by (simp add: pipeline_submit_def pipeline_start_def new_pipeline_def joinable_def split: prod.splits)
  ultimately show ?thesis unfolding demo_stopping_def by (blast intro: pipe_reach.step pipe_step.m_stop)
qed

lemma demo_stopping_fields:
  "pl_main demo_stopping = MJoining" "pl_worker demo_stopping = WCheck" "\<not> pl_running demo_stopping"
  "pl_accepted demo_stopping = [demo_add]" "pl_consumed demo_stopping = []" "pl_base demo_stopping = 0"
  "pl_consumer demo_stopping = []" "pl_processed demo_stopping = 0"
  "tryPop QueueCapacity (pl_queue demo_stopping) = (Some demo_add, snd (tryPop QueueCapacity (pl_queue demo_stopping)))"
  by (simp_all add: demo_stopping_def pipeline_stop_def pipeline_submit_def pipeline_start_def new_pipeline_def
      joinable_def tryPush_def tryPop_def new_ring_def increment_def QueueCapacity_def Let_def)

theorem pipeline_exactly_once_witness:
  "rb_list QueueCapacity (pl_queue demo_stopping) = [demo_add] \<and> pl_consumer demo_stopping = []"
  using pipeline_exactly_once[OF demo_stopping_reach] by (simp add: demo_stopping_fields(4,5,7))

text \<open>C17. \<^verbatim>\<open>stop\<close> returns and drains: while the owner waits in \<^verbatim>\<open>join\<close>, provided the consumer can
  take the accepted events, some step is always possible, and every execution reaches the return of
  \<^verbatim>\<open>join\<close> within a number of steps bounded by the queue length plus four.  There the worker is gone, every
  accepted event has been consumed, in order, and \<^verbatim>\<open>processedCount\<close> is the number consumed since the
  last start.\<close>

theorem pipeline_stop_drains:
  assumes "pipe_reach consume x0 s" "pl_main s = MJoining" "fold_opt consume (pl_accepted s) x0 = Some y"
  shows "(\<exists>s'. pipe_step consume s s') \<and> work_left s \<le> rb_size QueueCapacity (pl_queue s) + 4 \<and>
    (\<forall>f. f 0 = s \<and> (\<forall>i. pipe_step consume (f i) (f (Suc i))) \<longrightarrow> (\<exists>i\<le>work_left s. stopped_with s y (f i)))"
proof (intro conjI allI impI)
  show "\<exists>s'. pipe_step consume s s'" 
    using joining_progress[OF _ _ assms(2,3)] pipe_reach_inv[OF assms(1)] by simp
  show "work_left s \<le> rb_size QueueCapacity (pl_queue s) + 4"
    by (auto simp: work_left_def split: worker_pc.splits)
  show "\<exists>i\<le>work_left s. stopped_with s y (f i)"
    if "f 0 = s \<and> (\<forall>i. pipe_step consume (f i) (f (Suc i)))" for f
    by (rule join_returns[OF assms]) (use that in auto)
qed

text \<open>The run in which the worker drains and the owner then keeps calling \<^verbatim>\<open>stop\<close>.\<close>

definition demo_run :: "nat \<Rightarrow> OrderId list pipeline" where
  "demo_run i = (let s1 = demo_stopping\<lparr>pl_worker := WDrain 0\<rparr>;
       s2 = deliver_event demo_add (snd (tryPop QueueCapacity (pl_queue s1))) [7] (WDrain 1) s1;
       s3 = add_processed 1 (s2\<lparr>pl_queue := snd (tryPop QueueCapacity (pl_queue s2)), pl_worker := WExit\<rparr>);
       s4 = s3\<lparr>pl_worker := NoThread, pl_main := MIdle\<rparr>
     in [demo_stopping, s1, s2, s3, s4] ! min i 4)"

lemma demo_run_steps: "pipe_step id_log (demo_run i) (demo_run (Suc i))"
proof -
  note F = demo_stopping_fields(1-8) and pop1 = demo_stopping_fields(9)
  define s1 where "s1 = demo_stopping\<lparr>pl_worker := WDrain 0\<rparr>"
  define s2 where "s2 = deliver_event demo_add (snd (tryPop QueueCapacity (pl_queue s1))) [7] (WDrain 1) s1"
  define s3 where "s3 = add_processed 1 (s2\<lparr>pl_queue := snd (tryPop QueueCapacity (pl_queue s2)), pl_worker := WExit\<rparr>)"
  define s4 where "s4 = s3\<lparr>pl_worker := NoThread, pl_main := MIdle\<rparr>"
  have run: "demo_run j = [demo_stopping, s1, s2, s3, s4] ! min j 4" for j
    by (simp add: demo_run_def s1_def s2_def s3_def s4_def Let_def)
  have 1: "pipe_step id_log demo_stopping s1" unfolding s1_def by (rule pipe_step.w_leave) (simp_all add: F)
  have 2: "pipe_step id_log s1 s2" unfolding s2_def
    using pipe_step.w_drain_pop[of s1 0 demo_add "snd (tryPop QueueCapacity (pl_queue s1))" id_log "[7]"] pop1
    by (simp add: s1_def id_log_def F(7) demo_add_def)
  have "pipe_reach id_log [] s2" by (rule pipe_reach.step[OF pipe_reach.step[OF demo_stopping_reach 1] 2])
  from conjunct1[OF pipe_reach_inv[OF this]] have "data_inv id_log [] s2" .
  then have rb: "rb_inv QueueCapacity (pl_queue s2)" and "rb_list QueueCapacity (pl_queue s2) = []"
    by (simp_all add: data_inv_def s2_def s1_def deliver_event_def F)
  then have pop: "tryPop QueueCapacity (pl_queue s2) = (None, snd (tryPop QueueCapacity (pl_queue s2)))"
    using rb.pop_none[OF rb] by (metis prod.collapse)
  have 3: "pipe_step id_log s2 s3" unfolding s3_def
    by (rule pipe_step.w_drain_empty[OF _ pop]) (simp add: s2_def deliver_event_def)
  have 4: "pipe_step id_log s3 s4" unfolding s4_def
    by (rule pipe_step.m_join) (simp_all add: s3_def s2_def s1_def deliver_event_def add_processed_def F)
  have "pipeline_stop s4 = s4"
    by (simp add: pipeline_stop_def s4_def s3_def s2_def s1_def deliver_event_def add_processed_def F)
  then have 5: "pipe_step id_log s4 s4" using pipe_step.m_stop[of s4 id_log] by (simp add: s4_def)
  consider "i = 0" | "i = 1" | "i = 2" | "i = 3" | "4 \<le> i" by linarith
  then show ?thesis using 1 2 3 4 5 by cases (simp_all add: run min_def numeral_eq_Suc)
qed

theorem pipeline_stop_drains_witness:
  "\<exists>i\<le>work_left demo_stopping. stopped_with demo_stopping [7] (demo_run i)"
proof -
  have "fold_opt id_log (pl_accepted demo_stopping) [] = Some [7]"
    by (simp add: demo_stopping_fields(4) id_log_def demo_add_def)
  from pipeline_stop_drains[OF demo_stopping_reach demo_stopping_fields(1) this] show ?thesis
    using demo_run_steps by (auto simp: demo_run_def Let_def)
qed

text \<open>C9. The feed to the book, across threads: with the book consumer behind the pipeline and a feed
  whose every event the book can take, whatever has been delivered at any moment is an initial part
  of the accepted events, and the order book is the one the meaning of those events, run in order
  from the empty book, leads to.\<close>

theorem pipeline_book_follows_feed:
  assumes "pipe_reach book_consume (new_consumer h base) s" "events_ok (pl_accepted s) (\<lambda>_ _. [])"
  shows "\<exists>Q. pl_consumed s @ rb_list QueueCapacity (pl_queue s) = pl_accepted s \<and> bc_inv Q (pl_consumer s) \<and>
    book_run (pl_consumed s) (\<lambda>_ _. []) (entries Q (bc_heap (pl_consumer s)))"
proof -
  have inv: "data_inv book_consume (new_consumer h base) s" using pipe_reach_inv[OF assms(1)] by blast
  have "events_ok (pl_consumed s) (entries (\<lambda>_ _. []) (bc_heap (new_consumer h base)))"
    using assms(2) inv events_ok_prefix[of "pl_consumed s" "rb_list QueueCapacity (pl_queue s)" "\<lambda>_ _. []"]
    by (simp add: data_inv_def entries_def)
  from feed_book[OF new_consumer_inv this] show ?thesis using inv by (auto simp: data_inv_def entries_def)
qed

lemma demo_add_ok: "events_ok [demo_add] (\<lambda>_ _. [])"
  by (simp add: event_ok_def demo_add_def default_event_def a_has_def MaxPriceLevels_def)

theorem pipeline_book_follows_feed_witness:
  "\<exists>s Q. pipe_reach book_consume (new_consumer (\<lambda>_. demo_heap 1) 0) s \<and> pl_accepted s = [demo_add] \<and>
     book_run (pl_consumed s) (\<lambda>_ _. []) (entries Q (bc_heap (pl_consumer s)))"
proof -
  let ?init = "new_pipeline (new_consumer (\<lambda>_. demo_heap 1) 0)"
  let ?s = "snd (pipeline_submit demo_add ?init)"
  have "pipe_step book_consume ?init ?s"
    by (rule pipe_step.m_submit[of _ demo_add "fst (pipeline_submit demo_add ?init)"]) (simp_all add: new_pipeline_def)
  then have r: "pipe_reach book_consume (new_consumer (\<lambda>_. demo_heap 1) 0) ?s"
    by (rule pipe_reach.step[OF pipe_reach.start])
  have a: "pl_accepted ?s = [demo_add]"
    by (simp add: pipeline_submit_def new_pipeline_def tryPush_def new_ring_def increment_def QueueCapacity_def Let_def)
  show ?thesis using pipeline_book_follows_feed[OF r] a demo_add_ok r by auto
qed

end
