(* ===== verification/ReplayRuntime.thy ===== *)
theory ReplayRuntime
  imports Pipeline ItchFeed "HOL-Library.Sublist"
begin

text \<open>
  Replay mode of \<^verbatim>\<open>apps/trading_runtime.cpp\<close>, for any consumer behind the pipeline: the main thread reads the file,
  decodes and submits, waits until the worker has processed what was accepted, and stops the pipeline, while
  the worker runs.  \<open>replay_step\<close> interleaves the two; waiting does not change the state, so the wait loop
  is the guard of the step that leaves it.

  The main results: the file's events reach the consumer in order, every accepted one exactly once, and the
  process can always come to its end.
\<close>

section \<open>The two threads\<close>

text \<open>A step of the worker moves its program counter and leaves the owner's state alone; no step of
  the owner does both.\<close>

definition worker_step :: "'x consumer \<Rightarrow> 'x pipeline \<Rightarrow> 'x pipeline \<Rightarrow> bool" where
  "worker_step consume p p' \<longleftrightarrow> pipe_step consume p p' \<and> pl_worker p' \<noteq> pl_worker p \<and>
     pl_main p' = pl_main p \<and> pl_running p' = pl_running p"

datatype replay_pc = Reading | Waiting | Joining | Finished

record 'x replay =
  rp_pipeline :: "'x pipeline"
  rp_stream :: ifstream
  rp_message :: buffer
  rp_count :: nat
  rp_pc :: replay_pc

definition replay_start :: "buffer \<Rightarrow> 'x \<Rightarrow> 'x replay option" where
  "replay_start content x = map_option (\<lambda>p. \<lparr>rp_pipeline = p, rp_stream = open_stream (Some content), rp_message = [],
     rp_count = 0, rp_pc = Reading\<rparr>) (pipeline_start (new_pipeline x))"

inductive replay_step :: "endian \<Rightarrow> 'x consumer \<Rightarrow> 'x replay \<Rightarrow> 'x replay \<Rightarrow> bool" for E consume where
  r_read: "rp_pc s = Reading \<Longrightarrow> readNext E (rp_message s) (rp_stream s) = (True, message, st) \<Longrightarrow>
    itch_dispatch E pipeline_submit message (Some 0) (length message) (rp_pipeline s) = Some (ok, p) \<Longrightarrow>
    replay_step E consume s (s\<lparr>rp_pipeline := p, rp_stream := st, rp_message := message,
      rp_count := rp_count s + (if ok then 1 else 0)\<rparr>)"
| r_end: "rp_pc s = Reading \<Longrightarrow> readNext E (rp_message s) (rp_stream s) = (False, message, st) \<Longrightarrow>
    replay_step E consume s (s\<lparr>rp_stream := st, rp_message := message, rp_pc := Waiting\<rparr>)"
| r_stop: "rp_pc s = Waiting \<Longrightarrow> \<not> unat (processedCount (rp_pipeline s)) < rp_count s \<Longrightarrow>
    replay_step E consume s (s\<lparr>rp_pipeline := pipeline_stop (rp_pipeline s), rp_pc := Joining\<rparr>)"
| r_join: "rp_pc s = Joining \<Longrightarrow> pl_main (rp_pipeline s) = MJoining \<Longrightarrow> pl_worker (rp_pipeline s) = WExit \<Longrightarrow>
    replay_step E consume s (s\<lparr>rp_pipeline := (rp_pipeline s)\<lparr>pl_worker := NoThread, pl_main := MIdle\<rparr>, rp_pc := Finished\<rparr>)"
| r_worker: "worker_step consume (rp_pipeline s) p \<Longrightarrow> replay_step E consume s (s\<lparr>rp_pipeline := p\<rparr>)"

inductive replay_reach :: "endian \<Rightarrow> 'x consumer \<Rightarrow> buffer \<Rightarrow> 'x \<Rightarrow> 'x replay \<Rightarrow> bool" for E consume content x0 where
  replay_begin: "replay_start content x0 = Some s \<Longrightarrow> replay_reach E consume content x0 s"
| replay_next: "replay_reach E consume content x0 s \<Longrightarrow> replay_step E consume s s' \<Longrightarrow> replay_reach E consume content x0 s'"

section \<open>Invariant\<close>

definition main_ok :: "'x replay \<Rightarrow> bool" where
  "main_ok s \<longleftrightarrow>
     (case rp_pc s of
        Joining \<Rightarrow> pl_main (rp_pipeline s) = MJoining
      | Finished \<Rightarrow> pl_main (rp_pipeline s) = MIdle \<and> \<not> pl_running (rp_pipeline s) \<and> \<not> joinable (rp_pipeline s) \<and>
          rb_list QueueCapacity (pl_queue (rp_pipeline s)) = []
      | _ \<Rightarrow> pl_main (rp_pipeline s) = MIdle \<and> pl_running (rp_pipeline s))"

text \<open>How far the main thread is in a file of the given messages.\<close>

definition feed_ok :: "endian \<Rightarrow> itch_message list \<Rightarrow> 'x replay \<Rightarrow> bool" where
  "feed_ok E ms s \<longleftrightarrow> (\<exists>seen rest. ms = seen @ rest \<and>
     (if rp_pc s = Reading
      then unread (rp_stream s) = concat (map (writeMessage E []) (map message_bytes rest)) \<and>
        \<not> eofbit (rp_stream s) \<and> \<not> failbit (rp_stream s)
      else rest = []) \<and>
     subseq (pl_accepted (rp_pipeline s)) (map message_event seen) \<and>
     (length seen < QueueCapacity \<longrightarrow> pl_accepted (rp_pipeline s) = map message_event seen))"

definition replay_inv :: "endian \<Rightarrow> 'x consumer \<Rightarrow> 'x \<Rightarrow> itch_message list \<Rightarrow> 'x replay \<Rightarrow> bool" where
  "replay_inv E consume x0 ms s \<longleftrightarrow> pipe_reach consume x0 (rp_pipeline s) \<and> pl_base (rp_pipeline s) = 0 \<and>
     rp_count s = length (pl_accepted (rp_pipeline s)) \<and> main_ok s \<and> feed_ok E ms s"

lemma submit_accepts:
  assumes "pipeline_submit ev p = (ok, p')" "rb_inv QueueCapacity (pl_queue p)"
  shows "pl_accepted p' = pl_accepted p @ (if ok then [ev] else [])" "pl_base p' = pl_base p" "pl_main p' = pl_main p"
    "pl_running p' = pl_running p" "ok \<longleftrightarrow> rb_size QueueCapacity (pl_queue p) < QueueCapacity - 1"
  using assms rb.push_ok[OF assms(2), of ev] by (auto simp: pipeline_submit_def split: prod.splits)

lemma worker_step_same:
  assumes "worker_step consume p p'"
  shows "pl_accepted p' = pl_accepted p" "pl_base p' = pl_base p" "pl_main p' = pl_main p" "pl_running p' = pl_running p"
    "joinable p \<and> joinable p'"
  using assms unfolding worker_step_def
  by (auto elim!: pipe_step.cases simp: step_simps joinable_def Let_def split: if_splits prod.splits)

lemma start_inv_replay:
  assumes "\<forall>m\<in>set ms. message_ok m" "replay_start (foldl (writeMessage E) [] (map message_bytes ms)) x0 = Some s"
  shows "replay_inv E consume x0 ms s"
proof -
  obtain p where p: "pipeline_start (new_pipeline x0) = Some p" and s: "s = \<lparr>rp_pipeline = p,
      rp_stream = open_stream (Some (foldl (writeMessage E) [] (map message_bytes ms))), rp_message = [], rp_count = 0, rp_pc = Reading\<rparr>"
    using assms(2) by (auto simp: replay_start_def)
  have "pipe_step consume (new_pipeline x0) p" by (rule pipe_step.m_start[OF _ p]) (simp add: new_pipeline_def)
  then have "pipe_reach consume x0 p" by (rule pipe_reach.step[OF pipe_reach.start])
  moreover have "pl_accepted p = []" "pl_base p = 0" "pl_main p = MIdle" "pl_running p"
    using p by (auto simp: pipeline_start_def new_pipeline_def joinable_def)
  moreover have "feed_ok E ms s"
    unfolding feed_ok_def using \<open>pl_accepted p = []\<close>
    by (intro exI[of _ "[]"] exI[of _ ms]) (simp add: s open_stream_def write_all[of E "[]"])
  ultimately show ?thesis by (simp add: replay_inv_def s main_ok_def)
qed

lemma read_message:
  assumes "message_ok m" "unread st = concat (map (writeMessage E []) (map message_bytes (m # rest)))" "\<not> eofbit st" "\<not> failbit st"
  shows "readNext E message st = (True, message_bytes m, st\<lparr>unread := concat (map (writeMessage E []) (map message_bytes rest))\<rparr>)"
  using assms message_bytes_length[OF assms(1)] by (intro readNext_written) auto

lemma queue_within:
  assumes "pipe_reach consume x0 p"
  shows "rb_inv QueueCapacity (pl_queue p)" "rb_size QueueCapacity (pl_queue p) \<le> length (pl_accepted p)"
proof -
  have "data_inv consume x0 p" using pipe_reach_inv[OF assms] by (rule conjunct1)
  then have "rb_inv QueueCapacity (pl_queue p)" "pl_consumed p @ rb_list QueueCapacity (pl_queue p) = pl_accepted p"
    by (simp_all add: data_inv_def)
  then show "rb_inv QueueCapacity (pl_queue p)" "rb_size QueueCapacity (pl_queue p) \<le> length (pl_accepted p)"
    by (simp_all flip: length_rb_list) (metis le_add2 length_append)
qed

lemma read_inv:
  assumes inv: "replay_inv E consume x0 ms s" and ms: "\<forall>m\<in>set ms. message_ok m" and r: "rp_pc s = Reading"
    "readNext E (rp_message s) (rp_stream s) = (True, message, st)"
    "itch_dispatch E pipeline_submit message (Some 0) (length message) (rp_pipeline s) = Some (ok, p)"
  shows "replay_inv E consume x0 ms (s\<lparr>rp_pipeline := p, rp_stream := st, rp_message := message,
      rp_count := rp_count s + (if ok then 1 else 0)\<rparr>)"
proof -
  obtain seen rest where f: "ms = seen @ rest" "unread (rp_stream s) = concat (map (writeMessage E []) (map message_bytes rest))"
    "\<not> eofbit (rp_stream s)" "\<not> failbit (rp_stream s)"
    "subseq (pl_accepted (rp_pipeline s)) (map message_event seen)"
    "length seen < QueueCapacity \<Longrightarrow> pl_accepted (rp_pipeline s) = map message_event seen"
    using inv r(1) by (auto simp: replay_inv_def feed_ok_def)
  have reach: "pipe_reach consume x0 (rp_pipeline s)" using inv by (simp add: replay_inv_def)
  obtain m rest' where m: "rest = m # rest'"
    using readNext_end[OF f(3), of E "rp_message s"] f(2) r(2) by (cases rest) auto
  have mok: "message_ok m" using ms f(1) m by simp
  have rd: "message = message_bytes m" "st = (rp_stream s)\<lparr>unread := concat (map (writeMessage E []) (map message_bytes rest'))\<rparr>"
    using read_message[OF mok f(2)[unfolded m] f(3,4), of "rp_message s"] r(2) by simp_all
  have sub: "pipeline_submit (message_event m) (rp_pipeline s) = (ok, p)"
    using r(3) dispatch_message[OF mok, of E pipeline_submit "rp_pipeline s"] rd(1) by simp
  note A = submit_accepts[OF sub queue_within(1)[OF reach]]
  have idle: "pl_main (rp_pipeline s) = MIdle" using inv r(1) by (simp add: replay_inv_def main_ok_def)
  let ?s = "s\<lparr>rp_pipeline := p, rp_stream := st, rp_message := message, rp_count := rp_count s + (if ok then 1 else 0)\<rparr>"
  have reach': "pipe_reach consume x0 p" by (rule pipe_reach.step[OF reach pipe_step.m_submit[OF idle sub]])
  have "subseq (pl_accepted p) (map message_event (seen @ [m]))"
    using f(5) A(1) by (auto intro: list_emb_append_mono subseq_order.order_trans)
  moreover have "pl_accepted p = map message_event (seen @ [m])" if "length (seen @ [m]) < QueueCapacity"
  proof -
    have acc: "pl_accepted (rp_pipeline s) = map message_event seen" using f(6) that by simp
    then have "rb_size QueueCapacity (pl_queue (rp_pipeline s)) < QueueCapacity - 1"
      using queue_within(2)[OF reach] that by simp
    then show ?thesis using A(1,5) acc by simp
  qed
  ultimately have "feed_ok E ms ?s"
    unfolding feed_ok_def using r(1) rd(2) f(1,3,4) m by (intro exI[of _ "seen @ [m]"] exI[of _ rest']) simp
  moreover have "pl_base p = 0" "rp_count s = length (pl_accepted (rp_pipeline s))" "pl_running (rp_pipeline s)"
    using inv r(1) A(2) by (simp_all add: replay_inv_def main_ok_def)
  ultimately show ?thesis using reach' idle r(1) A(1,3,4) by (simp add: replay_inv_def main_ok_def)
qed

lemma replay_step_inv:
  assumes "replay_step E consume s s'" "replay_inv E consume x0 ms s" "\<forall>m\<in>set ms. message_ok m"
  shows "replay_inv E consume x0 ms s'"
proof -
  have reach: "pipe_reach consume x0 (rp_pipeline s)" using assms(2) by (simp add: replay_inv_def)
  have ctl: "control_inv (rp_pipeline s)" using pipe_reach_inv[OF reach] by (rule conjunct2)
  from assms(1) show ?thesis
  proof (cases rule: replay_step.cases)
    case (r_read message st ok p)
    then show ?thesis using read_inv[OF assms(2,3)] by simp
  next
    case (r_end message st)
    obtain seen rest where f: "ms = seen @ rest" "unread (rp_stream s) = concat (map (writeMessage E []) (map message_bytes rest))"
      "\<not> eofbit (rp_stream s)" "\<not> failbit (rp_stream s)"
      "subseq (pl_accepted (rp_pipeline s)) (map message_event seen)"
      "length seen < QueueCapacity \<longrightarrow> pl_accepted (rp_pipeline s) = map message_event seen"
      using assms(2) r_end(2) by (auto simp: replay_inv_def feed_ok_def)
    have "rest = []"
      using read_message[of "hd rest" "rp_stream s" E "tl rest" "rp_message s"] f(1-4) assms(3) r_end(3) by (cases rest) auto
    then show ?thesis using assms(2) f r_end by (simp add: replay_inv_def main_ok_def feed_ok_def)
  next
    case r_stop
    then have run: "pl_main (rp_pipeline s) = MIdle" "pl_running (rp_pipeline s)"
      using assms(2) by (simp_all add: replay_inv_def main_ok_def)
    then have j: "joinable (rp_pipeline s)" using ctl by (simp add: control_inv_def)
    have "pipe_reach consume x0 (pipeline_stop (rp_pipeline s))" by (rule pipe_reach.step[OF reach pipe_step.m_stop[OF run(1)]])
    then show ?thesis
      using assms(2) r_stop run j by (simp add: replay_inv_def main_ok_def feed_ok_def pipeline_stop_def joinable_def)
  next
    case r_join
    have "pipe_reach consume x0 ((rp_pipeline s)\<lparr>pl_worker := NoThread, pl_main := MIdle\<rparr>)"
      by (rule pipe_reach.step[OF reach pipe_step.m_join[OF r_join(3,4)]])
    then show ?thesis
      using assms(2) r_join ctl by (simp add: replay_inv_def main_ok_def feed_ok_def joinable_def control_inv_def)
  next
    case (r_worker p)
    note W = worker_step_same[OF r_worker(2)]
    have "pipe_reach consume x0 p" using pipe_reach.step[OF reach] r_worker(2) by (simp add: worker_step_def)
    then show ?thesis
      using assms(2) r_worker W
      by (cases "rp_pc s") (simp_all add: replay_inv_def main_ok_def feed_ok_def)
  qed
qed

lemma replay_reach_inv:
  assumes "replay_reach E consume (foldl (writeMessage E) [] (map message_bytes ms)) x0 s" "\<forall>m\<in>set ms. message_ok m"
  shows "replay_inv E consume x0 ms s"
  using assms by (induction rule: replay_reach.induct) (auto intro: start_inv_replay replay_step_inv)

section \<open>The end can always be reached\<close>

text \<open>Left alone, a running worker empties the queue and counts what it delivered.\<close>

lemma worker_sweeps:
  assumes "data_inv consume x0 p" "pl_worker p = WDispatch n" "fold_opt consume (pl_accepted p) x0 = Some y"
  shows "\<exists>p'. (worker_step consume)\<^sup>*\<^sup>* p p' \<and> pl_worker p' = WCheck \<and> rb_list QueueCapacity (pl_queue p') = []"
  using assms
proof (induction "rb_list QueueCapacity (pl_queue p)" arbitrary: p n)
  case Nil
  let ?p = "add_processed n (p\<lparr>pl_queue := pop_missed (pl_queue p), pl_worker := WCheck\<rparr>)"
  have "worker_step consume p ?p"
    unfolding worker_step_def using pipe_step.w_empty[OF Nil.prems(2), of consume] Nil.prems(2) by (simp add: add_processed_def)
  then show ?case using Nil.hyps by (intro exI[of _ ?p]) (auto simp: add_processed_def)
next
  case (Cons ev evs)
  have inv: "rb_inv QueueCapacity (pl_queue p)" using Cons.prems(1) by (simp add: data_inv_def)
  obtain q where q: "tryPop QueueCapacity (pl_queue p) = (Some ev, q)" "rb_list QueueCapacity q = evs"
    using rb.pop_Some[OF inv Cons.hyps(2)[symmetric]] by blast
  have "pl_accepted p = pl_consumed p @ ev # evs" using Cons.prems(1) Cons.hyps(2) by (simp add: data_inv_def)
  then obtain x where x: "consume ev (pl_consumer p) = Some x"
    using Cons.prems(1,3) by (auto simp: data_inv_def fold_opt_append bind_eq_Some_conv)
  let ?p = "deliver_event ev q x (WDispatch (Suc n)) p"
  have "worker_step consume p ?p"
    unfolding worker_step_def using pipe_step.w_pop[where consume = consume, OF Cons.prems(2) q(1) x] Cons.prems(2) by (simp add: deliver_event_def)
  moreover have "data_inv consume x0 ?p" by (rule data_pop[where consume = consume, OF Cons.prems(1) q(1) x]) (simp add: Cons.prems(2))
  then have "\<exists>p'. (worker_step consume)\<^sup>*\<^sup>* ?p p' \<and> pl_worker p' = WCheck \<and> rb_list QueueCapacity (pl_queue p') = []"
    using Cons.hyps(1)[of ?p "Suc n"] q(2) Cons.prems(3) by (simp add: deliver_event_def)
  ultimately show ?case by (meson converse_rtranclp_into_rtranclp)
qed

lemma worker_catches_up:
  assumes "pipe_reach consume x0 p" "pl_main p = MIdle" "pl_running p" "fold_opt consume (pl_accepted p) x0 = Some y"
  shows "\<exists>p'. (worker_step consume)\<^sup>*\<^sup>* p p' \<and> pl_worker p' = WCheck \<and> rb_list QueueCapacity (pl_queue p') = []"
proof -
  have inv: "data_inv consume x0 p" "control_inv p" using pipe_reach_inv[OF assms(1)] by auto
  then consider "pl_worker p = WCheck" | n where "pl_worker p = WDispatch n"
    using assms(2,3) by (cases "pl_worker p") (auto simp: control_inv_def joinable_def)
  then show ?thesis
  proof cases
    case 1
    let ?p = "p\<lparr>pl_worker := WDispatch 0\<rparr>"
    have "worker_step consume p ?p"
      unfolding worker_step_def using pipe_step.w_continue[OF 1 assms(3)] 1 by simp
    moreover have "data_inv consume x0 ?p" using inv(1) 1 by (simp add: data_inv_def)
    then have "\<exists>p'. (worker_step consume)\<^sup>*\<^sup>* ?p p' \<and> pl_worker p' = WCheck \<and> rb_list QueueCapacity (pl_queue p') = []"
      by (rule worker_sweeps[of consume x0 ?p 0 y]) (use assms(4) in simp_all)
    ultimately show ?thesis by (meson converse_rtranclp_into_rtranclp)
  next
    case 2
    then show ?thesis using worker_sweeps[OF inv(1) _ assms(4)] by blast
  qed
qed

lemma replay_worker_steps:
  assumes "(worker_step consume)\<^sup>*\<^sup>* p p'" "rp_pipeline s = p"
  shows "(replay_step E consume)\<^sup>*\<^sup>* s (s\<lparr>rp_pipeline := p'\<rparr>)"
  using assms(1)
proof induction
  case base
  have "s\<lparr>rp_pipeline := p\<rparr> = s" using assms(2) by (cases s) simp
  then show ?case by simp
next
  case (step q r)
  have "replay_step E consume (s\<lparr>rp_pipeline := q\<rparr>) (s\<lparr>rp_pipeline := q\<rparr>\<lparr>rp_pipeline := r\<rparr>)"
    by (rule replay_step.r_worker) (simp add: step(2))
  then show ?case using step(3) by (simp add: rtranclp.rtrancl_into_rtrancl)
qed

lemma joining_is_worker:
  assumes "pipe_step consume p p'" "pl_main p = MJoining" "pl_worker p \<noteq> WExit"
  shows "worker_step consume p p'"
  using assms unfolding worker_step_def
  by (auto elim!: pipe_step.cases simp: add_processed_def deliver_event_def split: if_splits)

lemma joining_finishes:
  assumes "pipe_reach consume x0 (rp_pipeline s)" "rp_pc s = Joining" "pl_main (rp_pipeline s) = MJoining"
    "fold_opt consume (pl_accepted (rp_pipeline s)) x0 = Some y"
  shows "\<exists>s'. (replay_step E consume)\<^sup>*\<^sup>* s s' \<and> rp_pc s' = Finished"
  using assms
proof (induction "work_left (rp_pipeline s)" arbitrary: s rule: less_induct)
  case less
  let ?p = "rp_pipeline s"
  have inv: "data_inv consume x0 ?p" "control_inv ?p" using pipe_reach_inv[OF less.prems(1)] by auto
  show ?case
  proof (cases "pl_worker ?p = WExit")
    case True
    let ?s = "s\<lparr>rp_pipeline := ?p\<lparr>pl_worker := NoThread, pl_main := MIdle\<rparr>, rp_pc := Finished\<rparr>"
    have "replay_step E consume s ?s" by (rule replay_step.r_join[OF less.prems(2,3) True])
    then show ?thesis by (intro exI[of _ ?s]) simp
  next
    case False
    obtain p' where st: "pipe_step consume ?p p'" using joining_progress[OF inv less.prems(3,4)] by blast
    have w: "worker_step consume ?p p'" by (rule joining_is_worker[OF st less.prems(3) False])
    have rb: "rb_inv QueueCapacity (pl_queue ?p)" using inv(1) by (simp add: data_inv_def)
    note J = joining_step[OF st less.prems(3) inv(2) rb]
    let ?s = "s\<lparr>rp_pipeline := p'\<rparr>"
    have "\<exists>s'. (replay_step E consume)\<^sup>*\<^sup>* ?s s' \<and> rp_pc s' = Finished"
      by (rule less.hyps)
        (use J less.prems pipe_reach.step[OF less.prems(1) st] worker_step_same(3)[OF w] in simp_all)
    moreover have "replay_step E consume s ?s" by (rule replay_step.r_worker[OF w])
    ultimately show ?thesis by (meson converse_rtranclp_into_rtranclp)
  qed
qed

text \<open>With a feed that fits into the queue nothing is dropped, so what is accepted is a prefix of the feed.\<close>

lemma accepted_defined:
  assumes "replay_inv E consume x0 ms s" "length ms < QueueCapacity" "fold_opt consume (map message_event ms) x0 = Some y"
  shows "\<exists>z. fold_opt consume (pl_accepted (rp_pipeline s)) x0 = Some z"
proof -
  obtain seen rest where "ms = seen @ rest" "pl_accepted (rp_pipeline s) = map message_event seen"
    using assms(1,2) by (auto simp: replay_inv_def feed_ok_def)
  then show ?thesis using assms(3) by (auto simp: fold_opt_append bind_eq_Some_conv)
qed

lemma reading_ends:
  assumes "replay_inv E consume x0 ms s" "\<forall>m\<in>set ms. message_ok m" "rp_pc s = Reading"
  shows "\<exists>s'. (replay_step E consume)\<^sup>*\<^sup>* s s' \<and> replay_inv E consume x0 ms s' \<and> rp_pc s' = Waiting"
proof -
  obtain seen rest where "ms = seen @ rest" "unread (rp_stream s) = concat (map (writeMessage E []) (map message_bytes rest))"
    "\<not> eofbit (rp_stream s)" "\<not> failbit (rp_stream s)"
    using assms(1,3) by (auto simp: replay_inv_def feed_ok_def)
  then show ?thesis using assms(1,3)
  proof (induction rest arbitrary: seen s)
    case Nil
    have "fst (readNext E (rp_message s) (rp_stream s)) = False" by (rule readNext_end[OF Nil.prems(3)]) (simp add: Nil.prems(2))
    then obtain message st where rd: "readNext E (rp_message s) (rp_stream s) = (False, message, st)"
      by (cases "readNext E (rp_message s) (rp_stream s)") auto
    let ?s = "s\<lparr>rp_stream := st, rp_message := message, rp_pc := Waiting\<rparr>"
    have st: "replay_step E consume s ?s" by (rule replay_step.r_end[OF Nil.prems(6) rd])
    then show ?case using replay_step_inv[OF st Nil.prems(5) assms(2)] by (intro exI[of _ ?s]) simp
  next
    case (Cons m rest)
    have mok: "message_ok m" using assms(2) Cons.prems(1) by simp
    let ?st = "(rp_stream s)\<lparr>unread := concat (map (writeMessage E []) (map message_bytes rest))\<rparr>"
    obtain ok p where sub: "pipeline_submit (message_event m) (rp_pipeline s) = (ok, p)" by force
    let ?s = "s\<lparr>rp_pipeline := p, rp_stream := ?st, rp_message := message_bytes m, rp_count := rp_count s + (if ok then 1 else 0)\<rparr>"
    have st: "replay_step E consume s ?s"
      by (rule replay_step.r_read[OF Cons.prems(6) read_message[OF mok Cons.prems(2-4)]])
        (simp add: dispatch_message[OF mok] sub)
    have "\<exists>s'. (replay_step E consume)\<^sup>*\<^sup>* ?s s' \<and> replay_inv E consume x0 ms s' \<and> rp_pc s' = Waiting"
      by (rule Cons.IH[of "seen @ [m]"]) (use Cons.prems replay_step_inv[OF st Cons.prems(5) assms(2)] in simp_all)
    then show ?case using st by (meson converse_rtranclp_into_rtranclp)
  qed
qed

lemma waiting_finishes:
  assumes "replay_inv E consume x0 ms s" "\<forall>m\<in>set ms. message_ok m" "rp_pc s = Waiting"
    "length ms < QueueCapacity" "fold_opt consume (map message_event ms) x0 = Some y"
  shows "\<exists>s'. (replay_step E consume)\<^sup>*\<^sup>* s s' \<and> rp_pc s' = Finished"
proof -
  let ?p = "rp_pipeline s"
  have reach: "pipe_reach consume x0 ?p" and idle: "pl_main ?p = MIdle" "pl_running ?p"
    using assms(1,3) by (simp_all add: replay_inv_def main_ok_def)
  obtain z where z: "fold_opt consume (pl_accepted ?p) x0 = Some z" using accepted_defined[OF assms(1,4,5)] by blast
  obtain p' where p': "(worker_step consume)\<^sup>*\<^sup>* ?p p'" "pl_worker p' = WCheck" "rb_list QueueCapacity (pl_queue p') = []"
    using worker_catches_up[OF reach idle z] by blast
  let ?s = "s\<lparr>rp_pipeline := p'\<rparr>"
  have steps: "(replay_step E consume)\<^sup>*\<^sup>* s ?s" by (rule replay_worker_steps[OF p'(1) refl])
  have inv: "replay_inv E consume x0 ms ?s"
    using steps assms(1) by (induction rule: rtranclp_induct) (auto intro: replay_step_inv[OF _ _ assms(2)])
  have reach': "pipe_reach consume x0 p'" and cnt: "rp_count s = length (pl_accepted p')" "pl_base p' = 0"
    and idle': "pl_main p' = MIdle" "pl_running p'"
    using inv assms(3) by (simp_all add: replay_inv_def main_ok_def)
  have "data_inv consume x0 p'" using pipe_reach_inv[OF reach'] by (rule conjunct1)
  then have caught: "processedCount p' = of_nat (length (pl_accepted p'))"
    using p'(2,3) cnt(2) by (simp add: data_inv_def processedCount_def)
  have small: "length (pl_accepted p') < QueueCapacity"
    using inv assms(4) by (auto simp: replay_inv_def feed_ok_def)
  have "unat (processedCount p') = rp_count s"
    using caught small cnt(1) by (simp add: unat_of_nat QueueCapacity_def)
  then have st: "replay_step E consume ?s (?s\<lparr>rp_pipeline := pipeline_stop p', rp_pc := Joining\<rparr>)"
    using replay_step.r_stop[of ?s E consume] assms(3) by simp
  let ?t = "?s\<lparr>rp_pipeline := pipeline_stop p', rp_pc := Joining\<rparr>"
  have invt: "replay_inv E consume x0 ms ?t" by (rule replay_step_inv[OF st inv assms(2)])
  obtain w where w: "fold_opt consume (pl_accepted (rp_pipeline ?t)) x0 = Some w"
    using accepted_defined[OF invt assms(4,5)] by blast
  obtain s' where "(replay_step E consume)\<^sup>*\<^sup>* ?t s'" "rp_pc s' = Finished"
    using joining_finishes[of consume x0 ?t w E] invt w by (auto simp: replay_inv_def main_ok_def)
  with steps st show ?thesis by (meson rtranclp_trans converse_rtranclp_into_rtranclp)
qed

lemma replay_finishes:
  assumes "replay_inv E consume x0 ms s" "\<forall>m\<in>set ms. message_ok m"
    "length ms < QueueCapacity" "fold_opt consume (map message_event ms) x0 = Some y"
  shows "\<exists>s'. (replay_step E consume)\<^sup>*\<^sup>* s s' \<and> rp_pc s' = Finished"
proof (cases "rp_pc s")
  case Reading
  from reading_ends[OF assms(1,2) this] waiting_finishes[OF _ assms(2) _ assms(3,4)] show ?thesis by (meson rtranclp_trans)
next
  case Waiting
  then show ?thesis using waiting_finishes[OF assms(1,2) _ assms(3,4)] by blast
next
  case Joining
  obtain z where "fold_opt consume (pl_accepted (rp_pipeline s)) x0 = Some z" using accepted_defined[OF assms(1,3,4)] by blast
  then show ?thesis using joining_finishes[of consume x0 s z E] assms(1) Joining by (simp add: replay_inv_def main_ok_def)
qed auto

section \<open>A main thread that outruns the worker\<close>

lemma reading_alone:
  assumes "replay_inv E consume x0 ms s" "\<forall>m\<in>set ms. message_ok m" "rp_pc s = Reading" "ms = seen @ rest"
    "unread (rp_stream s) = concat (map (writeMessage E []) (map message_bytes rest))"
    "\<not> eofbit (rp_stream s)" "\<not> failbit (rp_stream s)"
    "pl_consumed (rp_pipeline s) = []" "pl_accepted (rp_pipeline s) = map message_event (take (QueueCapacity - 1) seen)"
  shows "\<exists>s'. (replay_step E consume)\<^sup>*\<^sup>* s s' \<and> rp_pc s' = Waiting \<and>
    pl_accepted (rp_pipeline s') = map message_event (take (QueueCapacity - 1) ms)"
  using assms
proof (induction rest arbitrary: seen s)
  case Nil
  have "fst (readNext E (rp_message s) (rp_stream s)) = False" by (rule readNext_end[OF Nil.prems(6)]) (simp add: Nil.prems(5))
  then obtain message st where rd: "readNext E (rp_message s) (rp_stream s) = (False, message, st)"
    by (cases "readNext E (rp_message s) (rp_stream s)") auto
  let ?s = "s\<lparr>rp_stream := st, rp_message := message, rp_pc := Waiting\<rparr>"
  have "replay_step E consume s ?s" by (rule replay_step.r_end[OF Nil.prems(3) rd])
  then show ?case using Nil.prems(4,9) by (intro exI[of _ ?s]) simp
next
  case (Cons m rest)
  have mok: "message_ok m" using Cons.prems(2,4) by simp
  let ?st = "(rp_stream s)\<lparr>unread := concat (map (writeMessage E []) (map message_bytes rest))\<rparr>"
  obtain ok p where sub: "pipeline_submit (message_event m) (rp_pipeline s) = (ok, p)" by force
  let ?s = "s\<lparr>rp_pipeline := p, rp_stream := ?st, rp_message := message_bytes m, rp_count := rp_count s + (if ok then 1 else 0)\<rparr>"
  have st: "replay_step E consume s ?s"
    by (rule replay_step.r_read[OF Cons.prems(3) read_message[OF mok Cons.prems(5-7)]])
      (simp add: dispatch_message[OF mok] sub)
  have reach: "pipe_reach consume x0 (rp_pipeline s)" using Cons.prems(1) by (simp add: replay_inv_def)
  have "data_inv consume x0 (rp_pipeline s)" using pipe_reach_inv[OF reach] by (rule conjunct1)
  then have "rb_size QueueCapacity (pl_queue (rp_pipeline s)) = length (pl_accepted (rp_pipeline s))"
    using Cons.prems(8) by (auto simp: data_inv_def simp flip: length_rb_list)
  then have ok: "ok \<longleftrightarrow> length seen < QueueCapacity - 1"
    using submit_accepts(5)[OF sub queue_within(1)[OF reach]] Cons.prems(9) by auto
  have c: "pl_consumed p = []" using sub Cons.prems(8) by (auto simp: pipeline_submit_def split: prod.splits)
  have a: "pl_accepted p = map message_event (take (QueueCapacity - 1) (seen @ [m]))"
    using submit_accepts(1)[OF sub queue_within(1)[OF reach]] ok Cons.prems(9) by (simp add: take_append)
  have "\<exists>s'. (replay_step E consume)\<^sup>*\<^sup>* ?s s' \<and> rp_pc s' = Waiting \<and>
      pl_accepted (rp_pipeline s') = map message_event (take (QueueCapacity - 1) ms)"
    by (rule Cons.IH[of _ "seen @ [m]"])
      (use Cons.prems replay_step_inv[OF st Cons.prems(1,2)] c a in simp_all)
  then show ?case using st by (meson converse_rtranclp_into_rtranclp)
qed

lemma replay_steps_reach:
  "(replay_step E consume)\<^sup>*\<^sup>* s s' \<Longrightarrow> replay_reach E consume content x0 s \<Longrightarrow> replay_reach E consume content x0 s'"
  by (induction rule: rtranclp_induct) (auto intro: replay_reach.replay_next)

text \<open>The outcome of a run, and that it can be brought about.\<close>

lemma replay_outcome:
  assumes "\<forall>m\<in>set ms. message_ok m" "replay_reach E consume (foldl (writeMessage E) [] (map message_bytes ms)) x0 s"
  shows "(rp_pc s = Finished \<longrightarrow>
      (let p = rp_pipeline s in \<not> joinable p \<and> pl_consumed p = pl_accepted p \<and>
        fold_opt consume (pl_accepted p) x0 = Some (pl_consumer p) \<and>
        rp_count s = length (pl_accepted p) \<and> processedCount p = of_nat (rp_count s) \<and>
        subseq (pl_accepted p) (map message_event ms) \<and>
        (length ms < QueueCapacity \<longrightarrow> pl_accepted p = map message_event ms))) \<and>
    (length ms < QueueCapacity \<and> fold_opt consume (map message_event ms) x0 \<noteq> None \<longrightarrow>
      (\<exists>s'. (replay_step E consume)\<^sup>*\<^sup>* s s' \<and> rp_pc s' = Finished))"
proof -
  let ?p = "rp_pipeline s"
  note I = replay_reach_inv[OF assms(2,1)]
  have reach: "pipe_reach consume x0 ?p" using I by (simp add: replay_inv_def)
  have inv: "data_inv consume x0 ?p" "control_inv ?p" using pipe_reach_inv[OF reach] by auto
  have fin: "\<not> joinable ?p" "rp_count s = length (pl_accepted ?p)" "pl_base ?p = 0"
    "rb_list QueueCapacity (pl_queue ?p) = []" "subseq (pl_accepted ?p) (map message_event ms)" "length ms < QueueCapacity \<Longrightarrow> pl_accepted ?p = map message_event ms"
    if "rp_pc s = Finished"
    using I that by (auto simp: replay_inv_def main_ok_def feed_ok_def)
  show ?thesis
    using fin inv(1) replay_finishes[OF I assms(1)] unfolding Let_def data_inv_def processedCount_def joinable_def by fastforce
qed

section \<open>Properties\<close>

text \<open>C16. Replaying a file, in every interleaving of the main thread with the worker: when the run has finished, the worker
  is gone and the consumer has been given exactly the accepted events, each once and in order; both counters
  equal their number; and they are events of the file in file order, all of them when the file
  has fewer than 4096 messages.  In that case, for a consumer that handles the feed, the end can be reached from every state the run can be
  in: the wait for the worker is never in vain.\<close>

theorem replay_complete:
  assumes "\<forall>m\<in>set ms. message_ok m" "replay_reach E consume (foldl (writeMessage E) [] (map message_bytes ms)) x0 s"
  shows "(rp_pc s = Finished \<longrightarrow>
      (let p = rp_pipeline s in \<not> joinable p \<and> pl_consumed p = pl_accepted p \<and>
        fold_opt consume (pl_accepted p) x0 = Some (pl_consumer p) \<and>
        rp_count s = length (pl_accepted p) \<and> processedCount p = of_nat (rp_count s) \<and>
        subseq (pl_accepted p) (map message_event ms) \<and>
        (length ms < QueueCapacity \<longrightarrow> pl_accepted p = map message_event ms))) \<and>
    (length ms < QueueCapacity \<and> fold_opt consume (map message_event ms) x0 \<noteq> None \<longrightarrow>
      (\<exists>s'. (replay_step E consume)\<^sup>*\<^sup>* s s' \<and> rp_pc s' = Finished))"
  by (rule replay_outcome[OF assms])

definition demo_message :: itch_message where
  "demo_message = (0, 0, replicate 6 0, BCancel 5 77)"

lemma demo_message_ok: "message_ok demo_message" "ev_orderId (message_event demo_message) = 5"
  by (simp_all add: demo_message_def)

theorem replay_complete_witness:
  "\<exists>s. replay_reach Little id_log (foldl (writeMessage Little) [] (map message_bytes [demo_message, demo_message])) [] s \<and>
     rp_pc s = Finished \<and> pl_consumer (rp_pipeline s) = [5, 5] \<and> processedCount (rp_pipeline s) = 2"
proof -
  let ?ms = "[demo_message, demo_message]"
  let ?f = "foldl (writeMessage Little) [] (map message_bytes ?ms)"
  have ok: "\<forall>m\<in>set ?ms. message_ok m" by (simp add: demo_message_ok)
  have cap: "length ?ms < QueueCapacity" by (simp add: QueueCapacity_def)
  have fold: "fold_opt id_log (map message_event ?ms) [] = Some [5, 5]" by (simp add: id_log_def demo_message_ok)
  obtain s where s: "replay_start ?f ([] :: OrderId list) = Some s"
    by (auto simp: replay_start_def pipeline_start_def new_pipeline_def joinable_def)
  have reach: "replay_reach Little id_log ?f [] s" by (rule replay_reach.replay_begin[OF s])
  obtain s' where s': "(replay_step Little id_log)\<^sup>*\<^sup>* s s'" "rp_pc s' = Finished"
    using replay_complete[OF ok reach] cap fold by auto
  have reach': "replay_reach Little id_log ?f [] s'" by (rule replay_steps_reach[OF s'(1) reach])
  have "pl_accepted (rp_pipeline s') = map message_event ?ms" "rp_count s' = length (pl_accepted (rp_pipeline s'))"
    "processedCount (rp_pipeline s') = of_nat (rp_count s')"
    "fold_opt id_log (pl_accepted (rp_pipeline s')) [] = Some (pl_consumer (rp_pipeline s'))"
    using replay_complete[OF ok reach'] s'(2) cap unfolding Let_def by blast+
  then show ?thesis using reach' s'(2) fold by (intro exI[of _ s']) simp
qed

text \<open>C36. Nothing holds the main thread back when the queue is full: of a file of 4096 messages or more it can read all before the worker
  takes the first event, and every event after the 4095th is dropped without a trace, neither counted nor
  submitted again.\<close>

theorem replay_drops:
  assumes "\<forall>m\<in>set ms. message_ok m" "QueueCapacity \<le> length ms"
  shows "\<exists>s. replay_reach E consume (foldl (writeMessage E) [] (map message_bytes ms)) x0 s \<and> rp_pc s = Waiting \<and>
    rp_count s = 4095 \<and> pl_accepted (rp_pipeline s) = map message_event (take 4095 ms)"
proof -
  let ?f = "foldl (writeMessage E) [] (map message_bytes ms)"
  obtain p where p: "pipeline_start (new_pipeline x0) = Some p" "pl_consumed p = []" "pl_accepted p = []"
    by (auto simp: pipeline_start_def new_pipeline_def joinable_def)
  define s where "s = \<lparr>rp_pipeline = p, rp_stream = open_stream (Some ?f), rp_message = [], rp_count = 0, rp_pc = Reading\<rparr>"
  have st: "replay_start ?f x0 = Some s" by (simp add: replay_start_def p(1) s_def)
  have reach: "replay_reach E consume ?f x0 s" by (rule replay_reach.replay_begin[OF st])
  have "\<exists>s'. (replay_step E consume)\<^sup>*\<^sup>* s s' \<and> rp_pc s' = Waiting \<and>
      pl_accepted (rp_pipeline s') = map message_event (take (QueueCapacity - 1) ms)"
    by (rule reading_alone[where seen = "[]" and rest = ms, OF start_inv_replay[OF assms(1) st] assms(1)])
      (simp_all add: s_def p open_stream_def write_all[of E "[]"])
  then obtain s' where s': "(replay_step E consume)\<^sup>*\<^sup>* s s'" "rp_pc s' = Waiting"
    "pl_accepted (rp_pipeline s') = map message_event (take (QueueCapacity - 1) ms)" by blast
  have reach': "replay_reach E consume ?f x0 s'" by (rule replay_steps_reach[OF s'(1) reach])
  have "rp_count s' = length (pl_accepted (rp_pipeline s'))"
    using replay_reach_inv[OF reach' assms(1)] by (simp add: replay_inv_def)
  then show ?thesis using reach' s'(2,3) assms(2) by (intro exI[of _ s']) (simp add: QueueCapacity_def)
qed

theorem replay_drops_witness:
  "\<exists>s. replay_reach Little id_log (foldl (writeMessage Little) [] (map message_bytes (replicate 5000 demo_message))) [] s \<and>
     rp_pc s = Waiting \<and> rp_count s = 4095"
  using replay_drops[of "replicate 5000 demo_message" Little id_log "[]"] demo_message_ok(1)
  by (auto simp: QueueCapacity_def simp del: replicate.simps)

end
