(* ===== verification/Binary64.thy ===== *)
theory Binary64
  imports Complex_Main
begin

text \<open>
  The \<^verbatim>\<open>double\<close> arithmetic of the strategy code: a value is a real number and every operation rounds
  its exact result to 53 significant bits, to nearest with ties to even, as IEEE binary64 does.  Range
  is not modelled: the operands here are prices below \<open>10\<^sup>5\<close>, quantities below \<open>2\<^sup>3\<^sup>2\<close> and their
  quotients, which stay far from overflow and from the subnormal numbers.

  What the strategy relies on is the locale \<open>rounding\<close>: rounding is monotone and exact on numbers
  of at most 53 bits.
\<close>

section \<open>Rounding\<close>

definition round_even :: "real \<Rightarrow> int" where
  "round_even x =
     (let f = \<lfloor>x\<rfloor>; d = x - of_int f
      in if d < 1/2 then f else if d > 1/2 then f + 1 else if even f then f else f + 1)"

text \<open>The exponent of the unit in the last place.\<close>

definition ulp_exp :: "real \<Rightarrow> int" where
  "ulp_exp x = \<lfloor>log 2 \<bar>x\<bar>\<rfloor> - 52"

definition fl :: "real \<Rightarrow> real" where
  "fl x = (if x = 0 then 0 else of_int (round_even (x * 2 powr (- ulp_exp x))) * 2 powr (ulp_exp x))"

section \<open>Monotonicity\<close>

lemma round_even_int [simp]: "round_even (of_int n) = n"
  by (simp add: round_even_def)

lemma round_even_bounds: "\<lfloor>x\<rfloor> \<le> round_even x" "round_even x \<le> \<lfloor>x\<rfloor> + 1"
  by (simp_all add: round_even_def Let_def)

lemma round_even_mono:
  assumes "x \<le> y"
  shows "round_even x \<le> round_even y"
proof (cases "\<lfloor>x\<rfloor> = \<lfloor>y\<rfloor>")
  case True
  then show ?thesis using assms by (auto simp: round_even_def Let_def)
next
  case False
  then have "\<lfloor>x\<rfloor> + 1 \<le> \<lfloor>y\<rfloor>" using floor_mono[OF assms] by linarith
  then show ?thesis using round_even_bounds(2)[of x] round_even_bounds(1)[of y] by linarith
qed

lemma round_even_neg: "round_even (- x) = - round_even x"
proof (cases "x = of_int \<lfloor>x\<rfloor>")
  case True
  then have "round_even x = \<lfloor>x\<rfloor>" "round_even (- x) = - \<lfloor>x\<rfloor>"
    by (metis round_even_int) (metis True of_int_minus round_even_int)
  then show ?thesis by simp
next
  case False
  then have f: "\<lfloor>- x\<rfloor> = - \<lfloor>x\<rfloor> - 1" by linarith
  then show ?thesis by (auto simp: round_even_def Let_def f)
qed

lemma fl_neg: "fl (- x) = - fl x"
  by (simp add: fl_def ulp_exp_def round_even_neg)

lemma scaled_range:
  assumes "x > 0"
  shows "2 ^ 52 \<le> x * 2 powr (- ulp_exp x)" "x * 2 powr (- ulp_exp x) < 2 ^ 53"
proof -
  let ?k = "\<lfloor>log 2 x\<rfloor>"
  have lo: "2 powr ?k \<le> x" and hi: "x < 2 powr (?k + 1)"
    using assms floor_log_eq_powr_iff[of x 2 ?k] by auto
  have e: "2 powr (- ulp_exp x) = (2::real) powr (52 - ?k)" using assms by (simp add: ulp_exp_def)
  have "2 powr ?k * 2 powr (52 - ?k) \<le> x * 2 powr (52 - ?k)" using lo by simp
  then show "2 ^ 52 \<le> x * 2 powr (- ulp_exp x)" unfolding e by (simp flip: powr_add)
  have "x * 2 powr (52 - ?k) < 2 powr (?k + 1) * 2 powr (52 - ?k)" using hi by simp
  also have "\<dots> = 2 ^ 53" by (simp flip: powr_add)
  finally show "x * 2 powr (- ulp_exp x) < 2 ^ 53" unfolding e .
qed

lemma fl_between:
  assumes "x > 0"
  shows "2 powr \<lfloor>log 2 x\<rfloor> \<le> fl x" "fl x \<le> 2 powr (\<lfloor>log 2 x\<rfloor> + 1)"
proof -
  let ?m = "round_even (x * 2 powr (- ulp_exp x))"
  have "round_even (of_int (2 ^ 52)) \<le> ?m" using scaled_range(1)[OF assms] by (intro round_even_mono) simp
  then have m1: "(2::real) ^ 52 \<le> of_int ?m" by (simp only: round_even_int flip: of_int_le_iff[where 'a = real]) simp
  have "?m \<le> round_even (of_int (2 ^ 53))" using scaled_range(2)[OF assms] by (intro round_even_mono) simp
  then have m2: "of_int ?m \<le> (2::real) ^ 53" by (simp only: round_even_int flip: of_int_le_iff[where 'a = real]) simp
  have e: "fl x = of_int ?m * 2 powr (ulp_exp x)" using assms by (simp add: fl_def)
  have u: "ulp_exp x = \<lfloor>log 2 x\<rfloor> - 52" using assms by (simp add: ulp_exp_def)
  have "(2::real) powr \<lfloor>log 2 x\<rfloor> = 2 ^ 52 * 2 powr (ulp_exp x)" unfolding u
    by (simp add: powr_diff)
  also have "\<dots> \<le> fl x" unfolding e using m1 by simp
  finally show "2 powr \<lfloor>log 2 x\<rfloor> \<le> fl x" .
  have "fl x \<le> 2 ^ 53 * 2 powr (ulp_exp x)" unfolding e using m2 by simp
  also have "\<dots> = 2 powr (\<lfloor>log 2 x\<rfloor> + 1)" unfolding u by (simp add: powr_diff powr_add)
  finally show "fl x \<le> 2 powr (\<lfloor>log 2 x\<rfloor> + 1)" .
qed

lemma fl_mono_pos:
  assumes "0 < x" "x \<le> y"
  shows "fl x \<le> fl y"
proof (cases "\<lfloor>log 2 x\<rfloor> = \<lfloor>log 2 y\<rfloor>")
  case True
  then have e: "ulp_exp x = ulp_exp y" using assms by (simp add: ulp_exp_def)
  have "round_even (x * 2 powr (- ulp_exp y)) \<le> round_even (y * 2 powr (- ulp_exp y))"
    using assms by (intro round_even_mono) simp
  then show ?thesis using assms by (simp add: fl_def e)
next
  case False
  have "\<lfloor>log 2 x\<rfloor> \<le> \<lfloor>log 2 y\<rfloor>" using assms by (intro floor_mono) simp
  with False have "real_of_int \<lfloor>log 2 x\<rfloor> + 1 \<le> real_of_int \<lfloor>log 2 y\<rfloor>" by linarith
  then have step: "(2::real) powr (\<lfloor>log 2 x\<rfloor> + 1) \<le> 2 powr \<lfloor>log 2 y\<rfloor>" by simp
  have "fl x \<le> 2 powr (\<lfloor>log 2 x\<rfloor> + 1)" using assms by (intro fl_between(2))
  also note step
  also have "2 powr \<lfloor>log 2 y\<rfloor> \<le> fl y" using assms by (intro fl_between(1)) simp
  finally show ?thesis .
qed

lemma fl_mono:
  assumes "x \<le> y"
  shows "fl x \<le> fl y"
proof -
  have pos: "0 \<le> fl z" if "0 \<le> z" for z
    using that fl_between(1)[of z] by (cases "z = 0") (auto simp: fl_def intro: order_trans[OF powr_ge_zero])
  consider "0 < x" | "y < 0" | "x \<le> 0" "0 \<le> y" by linarith
  then show ?thesis
  proof cases
    case 1
    then show ?thesis using assms by (rule fl_mono_pos)
  next
    case 2
    then show ?thesis using fl_mono_pos[of "- y" "- x"] assms by (simp add: fl_neg)
  next
    case 3
    then show ?thesis using pos[of "- x"] pos[of y] by (simp add: fl_neg)
  qed
qed

section \<open>Exactness\<close>

lemma fl_exact_pos:
  assumes "0 < k" "k < 2 ^ 53"
  shows "fl (of_int k * 2 powr (of_int j)) = of_int k * 2 powr (of_int j)"
proof -
  let ?x = "real_of_int k * 2 powr (of_int j)"
  have "real_of_int k < 2 ^ 53" using assms(2) by simp
  then have "log 2 (real_of_int k) < log 2 (2 ^ 53)" using assms(1) by (subst log_less_cancel_iff) auto
  also have "log 2 (2 ^ 53) = (53::real)" using log_pow_cancel[of 2 53] by linarith
  finally have l: "\<lfloor>log 2 (real_of_int k)\<rfloor> \<le> 52" by linarith
  have "log 2 ?x = log 2 (real_of_int k) + of_int j" using assms by (simp add: log_mult)
  then have u: "ulp_exp ?x = \<lfloor>log 2 (real_of_int k)\<rfloor> + j - 52"
    using assms by (simp add: ulp_exp_def)
  define d where "d = nat (j - ulp_exp ?x)"
  have d: "int d = j - ulp_exp ?x" using l u by (simp add: d_def)
  have "?x * 2 powr (- ulp_exp ?x) = of_int k * 2 powr (real_of_int (int d))"
    unfolding d by (simp add: powr_diff powr_minus divide_inverse)
  also have "\<dots> = of_int (k * 2 ^ d)" by (simp add: powr_realpow)
  finally have r: "round_even (?x * 2 powr (- ulp_exp ?x)) = k * 2 ^ d" by (simp only: round_even_int)
  have "fl ?x = of_int (k * 2 ^ d) * 2 powr (ulp_exp ?x)" using assms r by (simp add: fl_def)
  also have "\<dots> = of_int k * 2 powr (real_of_int (int d) + ulp_exp ?x)" by (simp add: powr_add powr_realpow)
  also have "\<dots> = ?x" unfolding d by simp
  finally show ?thesis .
qed

lemma fl_exact:
  assumes "\<bar>k\<bar> < 2 ^ 53"
  shows "fl (of_int k * 2 powr (of_int j)) = of_int k * 2 powr (of_int j)"
proof -
  consider "k = 0" | "0 < k" | "0 < - k" by linarith
  then show ?thesis
  proof cases
    case 1
    then show ?thesis by (simp add: fl_def)
  next
    case 2
    then show ?thesis using assms by (intro fl_exact_pos) auto
  next
    case 3
    then show ?thesis using fl_exact_pos[of "- k" j] assms fl_neg[of "of_int k * 2 powr (of_int j)"] by simp
  qed
qed

section \<open>The contract\<close>

locale rounding =
  fixes rnd :: "real \<Rightarrow> real"
  assumes mono: "x \<le> y \<Longrightarrow> rnd x \<le> rnd y"
    and exact: "\<bar>k\<bar> < 2 ^ 53 \<Longrightarrow> rnd (of_int k * 2 powr (of_int j)) = of_int k * 2 powr (of_int j)"
begin

lemma integer: "\<bar>k\<bar> < 2 ^ 53 \<Longrightarrow> rnd (of_int k) = of_int k"
  using exact[of k 0] by simp

lemma half: "\<bar>k\<bar> < 2 ^ 53 \<Longrightarrow> rnd (of_int k / 2) = of_int k / 2"
  using exact[of k "-1"] by (simp add: powr_minus_divide)

text \<open>A result between two numbers that need no rounding stays between them.\<close>

lemma within_integers:
  assumes "\<bar>a\<bar> < 2 ^ 53" "\<bar>b\<bar> < 2 ^ 53" "of_int a \<le> x" "x \<le> of_int b"
  shows "of_int a \<le> rnd x" "rnd x \<le> of_int b"
  using mono[OF assms(3)] mono[OF assms(4)] integer assms(1,2) by simp_all

lemma within_halves:
  assumes "\<bar>a\<bar> < 2 ^ 53" "\<bar>b\<bar> < 2 ^ 53" "of_int a / 2 \<le> x" "x \<le> of_int b / 2"
  shows "of_int a / 2 \<le> rnd x" "rnd x \<le> of_int b / 2"
  using mono[OF assms(3)] mono[OF assms(4)] half[OF assms(1)] half[OF assms(2)] by linarith+

end

interpretation fl: rounding fl
  by unfold_locales (rule fl_mono, assumption, rule fl_exact)

end
