(* ===== verification/Strategy.thy ===== *)
theory Strategy
  imports Binary64 BookConsumer RiskGateway
begin

text \<open>
  \<^verbatim>\<open>strategy/\<close>: the features read off the top of the book, the linear model that scores them, the two
  strategies that turn a score or a price into an intent, and the consumer that applies an event to
  the book, asks the strategy and forwards its intent.

  \<^verbatim>\<open>double\<close> operations round with \<open>fl\<close> after every operation (theory \<open>Binary64\<close>).  The interface
  \<^verbatim>\<open>IStrategy\<close> is the datatype of the classes implementing it; its contract, which the consumer's
  lemmas rest on, is the locale \<open>trading_strategy\<close>.
\<close>

section \<open>Features\<close>

record MarketFeatures =
  bestBidPrice :: Price
  bestAskPrice :: Price
  bestBidQuantity :: Quantity
  bestAskQuantity :: Quantity
  spread :: real
  midPrice :: real
  imbalance :: real
  microPrice :: real

definition level_features :: "PriceLevel \<Rightarrow> PriceLevel \<Rightarrow> MarketFeatures option" where
  "level_features bid ask =
     (let bidPrice = fl (of_int (lvl_price bid));
          askPrice = fl (of_int (lvl_price ask));
          bidQuantity = fl (of_int (uint (lvl_total bid)));
          askQuantity = fl (of_int (uint (lvl_total ask)));
          totalQuantity = fl (bidQuantity + askQuantity)
      in if totalQuantity = 0 then None
         else Some \<lparr>bestBidPrice = lvl_price bid, bestAskPrice = lvl_price ask,
           bestBidQuantity = lvl_total bid, bestAskQuantity = lvl_total ask,
           spread = fl (askPrice - bidPrice),
           midPrice = fl (fl (bidPrice + askPrice) / 2),
           imbalance = fl (bidQuantity / totalQuantity),
           microPrice = fl (fl (fl (askPrice * bidQuantity) + fl (bidPrice * askQuantity)) / totalQuantity)\<rparr>)"

definition extractFeatures :: "ArrayOrderBook \<Rightarrow> MarketFeatures option option" where
  "extractFeatures b = do {
     bid \<leftarrow> bestBid b;
     ask \<leftarrow> bestAsk b;
     (case (bid, ask) of
        (Some rb, Some ra) \<Rightarrow> Some (level_features (level_at rb b) (level_at ra b))
      | _ \<Rightarrow> Some None)
   }"

section \<open>The signal model\<close>

record ModelWeights =
  w_imbalance :: real
  w_microPrice :: real
  w_spread :: real

definition imbalanceSignal :: "MarketFeatures \<Rightarrow> real" where
  "imbalanceSignal features = fl (fl (imbalance features - 1/2) * 2)"

definition microPriceSignal :: "MarketFeatures \<Rightarrow> real" where
  "microPriceSignal features =
     (if spread features > 0 then fl (fl (microPrice features - midPrice features) / spread features) else 0)"

definition predict :: "ModelWeights \<Rightarrow> MarketFeatures \<Rightarrow> real" where
  "predict weights features =
     fl (fl (fl (w_imbalance weights * imbalanceSignal features) + fl (w_microPrice weights * microPriceSignal features))
         + fl (w_spread weights * spread features))"

section \<open>Strategies\<close>

record MicrostructureStrategy =
  ms_model :: ModelWeights
  ms_accountId :: AccountId
  ms_quantity :: Quantity
  ms_buyScoreThreshold :: real
  ms_sellScoreThreshold :: real

definition microstructure_onMarketData ::
  "MicrostructureStrategy \<Rightarrow> MarketDataEvent \<Rightarrow> ArrayOrderBook \<Rightarrow> OrderIntent option option" where
  "microstructure_onMarketData st event b = do {
     features \<leftarrow> extractFeatures b;
     (case features of
        None \<Rightarrow> Some None
      | Some market \<Rightarrow>
          let score = predict (ms_model st) market
          in if score \<ge> ms_buyScoreThreshold st
             then Some (Some \<lparr>int_accountId = ms_accountId st, int_side = Buy, int_symbol = ev_symbol event,
               int_price = bestAskPrice market, int_quantity = ms_quantity st\<rparr>)
             else if score \<le> ms_sellScoreThreshold st
             then Some (Some \<lparr>int_accountId = ms_accountId st, int_side = Sell, int_symbol = ev_symbol event,
               int_price = bestBidPrice market, int_quantity = ms_quantity st\<rparr>)
             else Some None)
   }"

record SimpleThresholdStrategy =
  ss_accountId :: AccountId
  ss_buyBelowPrice :: Price
  ss_quantity :: Quantity

definition simple_onMarketData ::
  "SimpleThresholdStrategy \<Rightarrow> MarketDataEvent \<Rightarrow> ArrayOrderBook \<Rightarrow> OrderIntent option option" where
  "simple_onMarketData st event b =
     (if ev_type event \<noteq> AddOrderEvent then Some None
      else if ev_side event \<noteq> Sell then Some None
      else do {
        ask \<leftarrow> bestAsk b;
        (case ask of
           None \<Rightarrow> Some None
         | Some ra \<Rightarrow>
             if lvl_price (level_at ra b) > ss_buyBelowPrice st then Some None
             else Some (Some \<lparr>int_accountId = ss_accountId st, int_side = Buy, int_symbol = ev_symbol event,
               int_price = lvl_price (level_at ra b), int_quantity = ss_quantity st\<rparr>))
      })"

datatype IStrategy = Microstructure MicrostructureStrategy | SimpleThreshold SimpleThresholdStrategy

fun strategy_onMarketData :: "IStrategy \<Rightarrow> MarketDataEvent \<Rightarrow> ArrayOrderBook \<Rightarrow> OrderIntent option option" where
  "strategy_onMarketData (Microstructure st) = microstructure_onMarketData st"
| "strategy_onMarketData (SimpleThreshold st) = simple_onMarketData st"

section \<open>The consumer\<close>

definition strategy_consume ::
  "IStrategy \<Rightarrow> (OrderIntent \<Rightarrow> 'x \<Rightarrow> (bool \<times> 'x) option) \<Rightarrow> MarketDataEvent \<Rightarrow> book_consumer \<times> 'x \<Rightarrow>
     (book_consumer \<times> 'x) option" where
  "strategy_consume strategy intentSink event = (\<lambda>(c, x). do {
     c' \<leftarrow> book_consume event c;
     intent \<leftarrow> strategy_onMarketData strategy event (bc_book c');
     (case intent of
        None \<Rightarrow> Some (c', x)
      | Some i \<Rightarrow> map_option (\<lambda>(_, x'). (c', x')) (intentSink i x))
   })"

section \<open>Bounds of the features\<close>

text \<open>Prices of levels and their quantities are far below the \<open>2\<^sup>5\<^sup>3\<close> that binary64 holds exactly.\<close>

lemma features_exact:
  assumes p: "0 < p" "p < 100000" and q: "0 < q" "q < 100000"
    and a: "0 \<le> a" "a < 2 ^ 32" and b: "0 \<le> b" "b < (2 ^ 32 :: int)"
  shows "fl (of_int p) = of_int p" "fl (of_int a) = of_int a"
    "fl (of_int q - of_int p) = of_int (q - p)"
    "fl (fl (of_int p + of_int q) / 2) = of_int (p + q) / 2"
    "fl (of_int a + of_int b) = of_int (a + b)"
    "fl (fl (of_int q * of_int a) + fl (of_int p * of_int b)) = of_int (q * a + p * b)"
proof -
  have qa: "q * a \<le> 100000 * 2 ^ 32" "0 \<le> q * a" using mult_mono[of q 100000 a "2 ^ 32"] q a by simp_all
  have pb: "p * b \<le> 100000 * 2 ^ 32" "0 \<le> p * b" using mult_mono[of p 100000 b "2 ^ 32"] p b by simp_all
  show "fl (of_int p) = of_int p" "fl (of_int a) = of_int a" using p a by (simp_all add: fl.integer)
  show "fl (of_int q - of_int p) = of_int (q - p)" using fl.integer[of "q - p"] p q by simp
  have "fl (of_int p + of_int q) = of_int (p + q)" using fl.integer[of "p + q"] p q by simp
  then show "fl (fl (of_int p + of_int q) / 2) = of_int (p + q) / 2" using fl.half[of "p + q"] p q by simp
  show "fl (of_int a + of_int b) = of_int (a + b)" using fl.integer[of "a + b"] a b by simp
  have "fl (of_int q * of_int a) = of_int (q * a)" using fl.integer[of "q * a"] qa by simp
  moreover have "fl (of_int p * of_int b) = of_int (p * b)" using fl.integer[of "p * b"] pb by simp
  ultimately show "fl (fl (of_int q * of_int a) + fl (of_int p * of_int b)) = of_int (q * a + p * b)"
    using fl.integer[of "q * a + p * b"] qa pb by simp
qed

lemma weighted_between:
  fixes p q a b :: int
  assumes "0 \<le> a" "0 \<le> b" "0 < a + b"
  shows "of_int (min p q) \<le> real_of_int (q * a + p * b) / of_int (a + b)"
    "real_of_int (q * a + p * b) / of_int (a + b) \<le> of_int (max p q)"
proof -
  have "min p q * (a + b) \<le> q * a + p * b" "q * a + p * b \<le> max p q * (a + b)"
    using assms by (simp_all add: distrib_left add_mono mult_right_mono)
  then have "real_of_int (min p q) * of_int (a + b) \<le> of_int (q * a + p * b)"
    "real_of_int (q * a + p * b) \<le> of_int (max p q) * of_int (a + b)"
    by (simp_all only: of_int_mult[symmetric] of_int_le_iff)
  then show "of_int (min p q) \<le> real_of_int (q * a + p * b) / of_int (a + b)"
    "real_of_int (q * a + p * b) / of_int (a + b) \<le> of_int (max p q)"
    using assms(3) by (simp_all add: pos_le_divide_eq pos_divide_le_eq)
qed

lemma ratio_half:
  fixes d s :: real
  assumes "0 < s" "- (s / 2) \<le> d" "d \<le> s / 2"
  shows "of_int (- 1) / 2 \<le> d / s" "d / s \<le> of_int 1 / 2"
  using assms by (simp_all add: field_simps)

definition features_sound :: "Price \<Rightarrow> Price \<Rightarrow> MarketFeatures \<Rightarrow> bool" where
  "features_sound p q f \<longleftrightarrow> bestBidPrice f = p \<and> bestAskPrice f = q \<and>
     spread f = of_int (q - p) \<and> midPrice f = of_int (p + q) / 2 \<and>
     0 \<le> imbalance f \<and> imbalance f \<le> 1 \<and>
     of_int (min p q) \<le> microPrice f \<and> microPrice f \<le> of_int (max p q) \<and>
     \<bar>imbalanceSignal f\<bar> \<le> 1 \<and> \<bar>microPriceSignal f\<bar> \<le> 1/2"

lemma level_features_sound:
  assumes p: "0 < lvl_price l" "lvl_price l < 100000" and q: "0 < lvl_price m" "lvl_price m < 100000"
  shows "level_features l m = None \<longleftrightarrow> lvl_total l = 0 \<and> lvl_total m = 0"
    "level_features l m = Some f \<Longrightarrow> features_sound (lvl_price l) (lvl_price m) f"
proof -
  let ?p = "lvl_price l" and ?q = "lvl_price m" and ?a = "uint (lvl_total l)" and ?b = "uint (lvl_total m)"
  have ab: "0 \<le> ?a" "?a < 2 ^ 32" "0 \<le> ?b" "?b < 2 ^ 32"
    using uint_lt2p[of "lvl_total l"] uint_lt2p[of "lvl_total m"] by simp_all
  note E = features_exact[OF p q ab] features_exact(1,2)[OF q p ab(3,4) ab(1,2)]
  have zero: "?a + ?b = 0 \<longleftrightarrow> lvl_total l = 0 \<and> lvl_total m = 0"
    using ab uint_0_iff by (metis add_nonneg_eq_0_iff)
  have none: "level_features l m = None \<longleftrightarrow> ?a + ?b = 0"
    by (simp only: level_features_def Let_def E of_int_eq_0_iff) simp
  then show "level_features l m = None \<longleftrightarrow> lvl_total l = 0 \<and> lvl_total m = 0" by (simp only: zero)
  assume f: "level_features l m = Some f"
  then have "?a + ?b \<noteq> 0" using none by (metis option.distinct(1))
  then have pos: "0 < ?a + ?b" using ab by linarith
  have F: "bestBidPrice f = ?p" "bestAskPrice f = ?q" "spread f = of_int (?q - ?p)"
    "midPrice f = of_int (?p + ?q) / 2" "imbalance f = fl (of_int ?a / of_int (?a + ?b))"
    "microPrice f = fl (of_int (?q * ?a + ?p * ?b) / of_int (?a + ?b))"
    using f by (auto simp only: level_features_def Let_def E option.inject split: if_splits) simp_all
  have imb: "0 \<le> imbalance f" "imbalance f \<le> 1"
    using fl.within_integers[OF _ _ weighted_between[where p = 0 and q = 1, OF ab(1,3) pos]] by (simp_all add: F)
  note w = weighted_between[where p = ?p and q = ?q, OF ab(1,3) pos]
  have micro: "of_int (min ?p ?q) \<le> microPrice f" "microPrice f \<le> of_int (max ?p ?q)"
    using fl.within_integers[OF _ _ w] p q by (simp_all add: F)
  have "\<bar>imbalanceSignal f\<bar> \<le> 1"
  proof -
    have d: "of_int (- 1) / 2 \<le> imbalance f - 1/2" "imbalance f - 1/2 \<le> of_int 1 / 2" using imb by simp_all
    note d' = fl.within_halves[OF _ _ d]
    have "of_int (- 1) \<le> fl (imbalance f - 1/2) * 2" "fl (imbalance f - 1/2) * 2 \<le> of_int 1" using d' by simp_all
    from fl.within_integers[OF _ _ this] show ?thesis by (simp add: imbalanceSignal_def)
  qed
  moreover have "\<bar>microPriceSignal f\<bar> \<le> 1/2"
  proof (cases "spread f > 0")
    case True
    then have "?p < ?q" by (simp add: F)
    then have d: "of_int (?p - ?q) / 2 \<le> microPrice f - midPrice f" "microPrice f - midPrice f \<le> of_int (?q - ?p) / 2"
      using micro by (simp_all add: F field_simps)
    have "of_int (?p - ?q) / 2 \<le> fl (microPrice f - midPrice f)" "fl (microPrice f - midPrice f) \<le> of_int (?q - ?p) / 2"
      using fl.within_halves[OF _ _ d] p q by simp_all
    then have "- (spread f / 2) \<le> fl (microPrice f - midPrice f)" "fl (microPrice f - midPrice f) \<le> spread f / 2"
      unfolding F(3) by (simp_all add: field_simps)
    from fl.within_halves[OF _ _ ratio_half[OF True this]] show ?thesis using True by (simp add: microPriceSignal_def abs_le_iff)
  qed (simp add: microPriceSignal_def)
  ultimately show "features_sound ?p ?q f" using imb micro by (simp add: features_sound_def F(1-4))
qed

section \<open>The contract of a strategy\<close>

text \<open>An intent of a strategy is at the best price of the opposite side, where some order rests.\<close>

definition at_best :: "queues \<Rightarrow> ArrayOrderBook \<Rightarrow> MarketDataEvent \<Rightarrow> OrderIntent \<Rightarrow> bool" where
  "at_best Q b event i \<longleftrightarrow> int_symbol i = ev_symbol event \<and>
     (\<exists>j. int_price i = int j \<and> best (opposite (int_side i)) b = int j \<and> Q (opposite (int_side i)) j \<noteq> [])"

lemma at_best_range:
  assumes "book_inv Q h b" "at_best Q b event i"
  shows "0 < int_price i" "int_price i < int MaxPriceLevels"
  using assms inv_range[OF assms(1)] by (auto simp: at_best_def)

locale trading_strategy =
  fixes decide :: "MarketDataEvent \<Rightarrow> ArrayOrderBook \<Rightarrow> OrderIntent option option"
  assumes decides: "book_inv Q h b \<Longrightarrow> \<exists>r. decide event b = Some r \<and> (\<forall>i. r = Some i \<longrightarrow> at_best Q b event i)"
begin

text \<open>Updating the book, deciding and forwarding: returns when the sink does for prices in range.\<close>

lemma chain:
  assumes inv: "bc_inv Q c" "event_ok (entries Q (bc_heap c)) event"
    and sink: "\<And>i. 0 < int_price i \<Longrightarrow> int_price i < int MaxPriceLevels \<Longrightarrow> int_symbol i = ev_symbol event \<Longrightarrow>
      \<exists>ok x'. sink i x = Some (ok, x') \<and> P x'"
    and x: "P x"
  shows "\<exists>Q' c' r x'. book_consume event c = Some c' \<and> bc_inv Q' c' \<and>
    book_step event (entries Q (bc_heap c)) (entries Q' (bc_heap c')) \<and> decide event (bc_book c') = Some r \<and>
    (case r of None \<Rightarrow> x' = x | Some i \<Rightarrow> at_best Q' (bc_book c') event i \<and> (\<exists>ok. sink i x = Some (ok, x'))) \<and> P x'"
proof -
  obtain Q' c' where c: "book_consume event c = Some c'" "bc_inv Q' c'"
    "book_step event (entries Q (bc_heap c)) (entries Q' (bc_heap c'))"
    using consume_refines[OF inv] by (auto simp: refines_step_def)
  obtain r where r: "decide event (bc_book c') = Some r" "\<forall>i. r = Some i \<longrightarrow> at_best Q' (bc_book c') event i"
    using decides[OF bc_invD(1)[OF c(2)], of event] by blast
  show ?thesis
  proof (cases r)
    case None
    then show ?thesis using c r x by auto
  next
    case (Some i)
    then have "0 < int_price i" "int_price i < int MaxPriceLevels" "int_symbol i = ev_symbol event"
      using at_best_range[OF bc_invD(1)[OF c(2)]] r(2) unfolding at_best_def by blast+
    then obtain ok x' where "sink i x = Some (ok, x')" "P x'" using sink by blast
    then show ?thesis using c r Some by auto
  qed
qed

end

lemma extract_cases:
  assumes inv: "book_inv Q h b"
  obtains (none) "extractFeatures b = Some None" "levels_in Q Buy = {} \<or> levels_in Q Sell = {} \<or>
      (\<exists>i j. best Buy b = int i \<and> best Sell b = int j \<and>
         lvl_total (level_at (Buy, i) b) = 0 \<and> lvl_total (level_at (Sell, j) b) = 0)"
  | (some) f i j where "extractFeatures b = Some (Some f)" "best Buy b = int i" "best Sell b = int j"
      "Q Buy i \<noteq> []" "Q Sell j \<noteq> []" "features_sound (int i) (int j) f"
proof -
  have E: "extractFeatures b = do { bid \<leftarrow> best_ref Buy b; ask \<leftarrow> best_ref Sell b;
      (case (bid, ask) of (Some rb, Some ra) \<Rightarrow> Some (level_features (level_at rb b) (level_at ra b)) | _ \<Rightarrow> Some None) }"
    by (simp add: extractFeatures_def)
  show ?thesis
  proof (cases rule: best_ref_cases[OF inv, of Buy, case_names none level])
    case none
    then show ?thesis
      by (cases rule: best_ref_cases[OF inv, of Sell, case_names none level]) (auto simp: E intro: that(1))
  next
    case bid: (level i)
    show ?thesis
    proof (cases rule: best_ref_cases[OF inv, of Sell, case_names none level])
      case none
      then show ?thesis using bid by (auto simp: E intro: that(1))
    next
      case ask: (level j)
      have pr: "lvl_price (level_at (Buy, i) b) = int i" "lvl_price (level_at (Sell, j) b) = int j"
        using inv_price[OF inv] bid(2) ask(2) by blast+
      have r: "0 < int i" "int i < 100000" "0 < int j" "int j < 100000"
        using inv_range[OF inv bid(2)] inv_range[OF inv ask(2)] by (simp_all add: MaxPriceLevels_def)
      then have s: "level_features (level_at (Buy, i) b) (level_at (Sell, j) b) = Some f \<Longrightarrow>
          features_sound (int i) (int j) f" for f
        using level_features_sound(2)[of "level_at (Buy, i) b" "level_at (Sell, j) b" f] by (simp only: pr)
      have n: "level_features (level_at (Buy, i) b) (level_at (Sell, j) b) = None \<longleftrightarrow>
          lvl_total (level_at (Buy, i) b) = 0 \<and> lvl_total (level_at (Sell, j) b) = 0"
        using level_features_sound(1)[of "level_at (Buy, i) b" "level_at (Sell, j) b"] r by (simp only: pr)
      show ?thesis
      proof (cases "level_features (level_at (Buy, i) b) (level_at (Sell, j) b)")
        case None
        then show ?thesis using that(1) n bid(1,3) ask(1,3) by (simp add: E del: level_at.simps)
      next
        case (Some f)
        then show ?thesis using that(2)[of f i j] s bid ask by (simp add: E del: level_at.simps)
      qed
    qed
  qed
qed

lemma microstructure_decides:
  assumes inv: "book_inv Q h b"
  shows "\<exists>r. microstructure_onMarketData st event b = Some r \<and> (\<forall>i. r = Some i \<longrightarrow> at_best Q b event i)"
proof (cases rule: extract_cases[OF inv, case_names none some])
  case (some f i j)
  have "bestBidPrice f = int i" "bestAskPrice f = int j" using some(6) by (simp_all add: features_sound_def)
  then show ?thesis
    using some by (auto simp: microstructure_onMarketData_def at_best_def Let_def)
qed (simp add: microstructure_onMarketData_def)

lemma microstructure_symbol:
  assumes "microstructure_onMarketData st event b = Some (Some i)"
  shows "int_symbol i = ev_symbol event"
proof -
  obtain f where "extractFeatures b = Some (Some f)"
    using assms by (cases "extractFeatures b"; cases "the (extractFeatures b)") (simp_all add: microstructure_onMarketData_def)
  with assms show ?thesis
    by (cases "predict (ms_model st) f \<ge> ms_buyScoreThreshold st"; cases "predict (ms_model st) f \<le> ms_sellScoreThreshold st")
      (simp_all add: microstructure_onMarketData_def Let_def, (erule subst, simp)+)
qed

lemma simple_decides:
  assumes inv: "book_inv Q h b"
  shows "\<exists>r. simple_onMarketData st event b = Some r \<and> (\<forall>i. r = Some i \<longrightarrow> at_best Q b event i)"
proof (cases rule: best_ref_cases[OF inv, of Sell, case_names none level])
  case (level j)
  then show ?thesis
    using inv_price[OF inv level(2)] by (auto simp: simple_onMarketData_def at_best_def)
qed (auto simp: simple_onMarketData_def)

interpretation st: trading_strategy "strategy_onMarketData st" for st
  by unfold_locales (cases st; simp add: microstructure_decides simple_decides)

section \<open>Properties\<close>

text \<open>C28. The features of any well-formed book, with the rounding of binary64: spread and midpoint are
  exact, the imbalance lies in the unit interval, the microprice between the two best prices, and the
  signals the model weighs in \<open>[-1, 1]\<close> and \<open>[-1/2, 1/2]\<close>; extraction never fails, and yields nothing
  only when a side is empty or both best levels show no quantity.\<close>

theorem features_bounded:
  assumes "book_inv Q h b"
  shows "\<exists>r. extractFeatures b = Some r \<and>
    (case r of
       None \<Rightarrow> levels_in Q Buy = {} \<or> levels_in Q Sell = {} \<or>
         (\<exists>i j. best Buy b = int i \<and> best Sell b = int j \<and>
            lvl_total (level_at (Buy, i) b) = 0 \<and> lvl_total (level_at (Sell, j) b) = 0)
     | Some f \<Rightarrow> features_sound (best Buy b) (best Sell b) f)"
proof (cases rule: extract_cases[OF assms, case_names none some])
  case none
  then show ?thesis by auto
next
  case (some f i j)
  then show ?thesis by auto
qed

text \<open>A book with one bid and one ask.\<close>

definition two_heap :: heap where
  "two_heap = demo_heap(2 := (demo_heap 2)\<lparr>ord_side := Sell, ord_price := 103, ord_quantity := 5\<rparr>)"

lemma two_sided_book:
  obtains h b where "book_inv (enq Sell 103 2 (enq Buy 100 1 (\<lambda>_ _. []))) h b"
    "lvl_total (level_at (Buy, 100) b) = 7" "lvl_total (level_at (Sell, 103) b) = 5"
proof -
  have room: "0 < DefaultOrderCapacity" "1 < DefaultOrderCapacity" by (simp_all add: DefaultOrderCapacity_def)
  have lv: "100 < MaxPriceLevels" "103 < MaxPriceLevels" by (simp_all add: MaxPriceLevels_def)
  let ?Q = "enq Buy 100 1 (\<lambda>_ _. [])"
  obtain h1 b1 where 1: "addOrder 1 (two_heap, new_book) = Some (h1, b1)" "book_inv ?Q h1 b1"
    "\<And>q. payload (h1 q) = payload (two_heap q)" "totals_ok ?Q h1 b1"
    by (rule addOrder_ok[OF new_book_inv[of two_heap], of 1 Buy 100])
      (use room lv new_book_totals in \<open>auto simp: two_heap_def\<close>)
  have live: "live ?Q = {1}" by (auto simp: live_def set_queue_def)
  have pl: "ord_side (h1 2) = Sell" "ord_price (h1 2) = int 103" "ord_quantity (h1 2) = 5" "ord_id (h1 2) = 2"
    "ord_id (h1 1) = 1" "ord_quantity (h1 1) = 7"
    using payload_eqD[OF 1(3)[of 2]] payload_eqD[OF 1(3)[of 1]] by (simp_all add: two_heap_def)
  obtain h b where 2: "book_inv (enq Sell 103 2 ?Q) h b" "\<And>q. payload (h q) = payload (h1 q)"
    "totals_ok (enq Sell 103 2 ?Q) h b"
    by (rule addOrder_ok[OF 1(2), of 2 Sell 103]) (use room lv live pl 1(4) in auto)
  have "ord_quantity (h 1) = 7" "ord_quantity (h 2) = 5" using payload_eqD(5)[OF 2(2)] pl by simp_all
  then have "lvl_total (level_at (Buy, 100) b) = 7" "lvl_total (level_at (Sell, 103) b) = 5"
    using 2(3) unfolding totals_ok_def by (simp_all add: set_queue_def del: level_at.simps)
  with 2(1) show ?thesis by (rule that)
qed

lemma two_sided_levels:
  "levels_in (enq Sell 103 2 (enq Buy 100 1 (\<lambda>_ _. []))) Buy = {100}"
  "levels_in (enq Sell 103 2 (enq Buy 100 1 (\<lambda>_ _. []))) Sell = {103}"
  by (auto simp: levels_in_def set_queue_def)

lemma two_sided_best:
  assumes "book_inv (enq Sell 103 2 (enq Buy 100 1 (\<lambda>_ _. []))) h b"
  shows "best Buy b = int 100" "best Sell b = int 103"
  unfolding inv_best[OF assms] two_sided_levels by simp_all

lemma two_sided_features:
  obtains h b f where "book_inv (enq Sell 103 2 (enq Buy 100 1 (\<lambda>_ _. []))) h b" "extractFeatures b = Some (Some f)"
proof -
  obtain h b where b: "book_inv (enq Sell 103 2 (enq Buy 100 1 (\<lambda>_ _. []))) h b"
    "lvl_total (level_at (Buy, 100) b) = 7" "lvl_total (level_at (Sell, 103) b) = 5"
    by (rule two_sided_book)
  show ?thesis
  proof (cases rule: extract_cases[OF b(1), case_names none some])
    case none
    then show ?thesis using b(2) unfolding two_sided_best[OF b(1)] two_sided_levels of_nat_eq_iff by simp
  qed (use that b(1) in blast)
qed

theorem features_bounded_witness:
  "\<exists>b f. extractFeatures b = Some (Some f) \<and> spread f = 3 \<and> midPrice f = 203/2 \<and> 100 \<le> microPrice f \<and> microPrice f \<le> 103"
proof -
  obtain h b f where b: "book_inv (enq Sell 103 2 (enq Buy 100 1 (\<lambda>_ _. []))) h b" "extractFeatures b = Some (Some f)"
    by (rule two_sided_features)
  have "features_sound (int 100) (int 103) f"
    using features_bounded[OF b(1)] unfolding b(2) two_sided_best[OF b(1)] by simp
  with b(2) show ?thesis by (auto simp: features_sound_def)
qed

text \<open>C12. One event through the whole decision chain, for either strategy and with the gateway in front
  of the matching engine as sink: the consumer returns, the local book makes the step of the event,
  any intent is at the best opposite price of the updated book, which is always a price the engine's
  book can hold, the engine stays in its invariant and every position within the limit.\<close>

theorem strategy_chain_safe:
  assumes "bc_inv Q c" "event_ok (entries Q (bc_heap c)) event" "engine_reach e" "within_limits ps"
    "unat (eng_seq e) + DefaultOrderCapacity < 2 ^ 64"
  shows "\<exists>Q' c' r ps' e'.
    strategy_consume st (intent_sink_submit engine_sink) event (c, ps, e) = Some (c', ps', e') \<and>
    bc_inv Q' c' \<and> book_step event (entries Q (bc_heap c)) (entries Q' (bc_heap c')) \<and>
    strategy_onMarketData st event (bc_book c') = Some r \<and> (\<forall>i. r = Some i \<longrightarrow> at_best Q' (bc_book c') event i) \<and>
    engine_reach e' \<and> within_limits ps' \<and> (r = None \<longrightarrow> ps' = ps \<and> e' = e)"
proof -
  let ?P = "\<lambda>(ps, e). engine_reach e \<and> within_limits ps"
  have sink: "\<exists>ok x'. intent_sink_submit engine_sink i (ps, e) = Some (ok, x') \<and> ?P x'"
    if "0 < int_price i" "int_price i < int MaxPriceLevels" "int_symbol i = ev_symbol event" for i
  proof -
    have "risk_check ps i = Accepted \<Longrightarrow> engine_ready i e"
      using that assms(5) by (simp add: engine_ready_def risk_check_Accepted)
    from me.gateway_returns[OF assms(3,4) this] show ?thesis by (auto simp: intent_sink_submit_def)
  qed
  have "\<exists>Q' c' r x'. book_consume event c = Some c' \<and> bc_inv Q' c' \<and>
      book_step event (entries Q (bc_heap c)) (entries Q' (bc_heap c')) \<and> strategy_onMarketData st event (bc_book c') = Some r \<and>
      (case r of None \<Rightarrow> x' = (ps, e) | Some i \<Rightarrow> at_best Q' (bc_book c') event i \<and>
        (\<exists>ok. intent_sink_submit engine_sink i (ps, e) = Some (ok, x'))) \<and> ?P x'"
    by (rule st.chain[OF assms(1,2)], erule sink, assumption+) (use assms(3,4) in simp)
  then obtain Q' c' r ps' e' where *: "book_consume event c = Some c'" "bc_inv Q' c'"
    "book_step event (entries Q (bc_heap c)) (entries Q' (bc_heap c'))"
    "strategy_onMarketData st event (bc_book c') = Some r"
    "case r of None \<Rightarrow> (ps', e') = (ps, e) | Some i \<Rightarrow> at_best Q' (bc_book c') event i \<and>
       (\<exists>ok. intent_sink_submit engine_sink i (ps, e) = Some (ok, ps', e'))"
    "engine_reach e'" "within_limits ps'"
    by (auto simp: case_prod_beta)
  then have "strategy_consume st (intent_sink_submit engine_sink) event (c, ps, e) = Some (c', ps', e')"
    by (cases r) (auto simp: strategy_consume_def)
  with * show ?thesis by (intro exI conjI) (auto split: option.splits)
qed

theorem strategy_chain_safe_witness:
  "\<exists>Q' c' ps' e'. strategy_consume (SimpleThreshold \<lparr>ss_accountId = 9, ss_buyBelowPrice = 200, ss_quantity = 1\<rparr>)
       (intent_sink_submit engine_sink) demo_add (new_consumer demo_heap 0, Map.empty, new_engine demo_heap 16) =
       Some (c', ps', e') \<and> bc_inv Q' c' \<and> engine_reach e' \<and> within_limits ps'"
proof -
  have "event_ok (entries (\<lambda>_ _. []) (bc_heap (new_consumer demo_heap 0))) demo_add"
    by (simp add: event_ok_def demo_add_def default_event_def a_has_def entries_def MaxPriceLevels_def)
  moreover have "within_limits Map.empty" by (simp add: within_limits_def risk_pos_def MaxPosition_def)
  moreover have "unat (eng_seq (new_engine demo_heap 16)) + DefaultOrderCapacity < 2 ^ 64"
    by (simp add: new_engine_def DefaultOrderCapacity_def)
  ultimately show ?thesis
    using strategy_chain_safe[OF new_consumer_inv _ engine_reach.start] by blast
qed

text \<open>C39. Only add messages carry a symbol, so the microstructure strategy, which acts on every kind of
  event and copies the event's symbol, issues intents without one: whatever it decides upon a cancel,
  delete, execute or replace message names the all-zero symbol.\<close>

theorem strategy_blank_symbol:
  assumes "message_ok msg"
    "itch_dispatch E (\<lambda>e _. (True, Some e)) (message_bytes msg) (Some 0) (length (message_bytes msg)) None = Some (True, Some ev)"
    "ev_type ev \<noteq> AddOrderEvent" "microstructure_onMarketData st ev b = Some (Some i)"
  shows "int_symbol i = replicate 8 0"
proof -
  obtain locate tracking ts body where m: "msg = (locate, tracking, ts, body)" by (metis prod.exhaust)
  have ev: "ev = itch_event body" 
    using assms(2) dispatch_message[OF assms(1), of E "\<lambda>e _. (True, Some e)" None] by (simp add: m)
  then have "ev_symbol ev = replicate 8 0" using assms(3) by (cases body) (simp_all add: default_event_def)
  moreover have "int_symbol i = ev_symbol ev"
    by (rule microstructure_symbol[OF assms(4)])
  ultimately show ?thesis by simp
qed

theorem strategy_blank_symbol_witness:
  "\<exists>ev b i. itch_dispatch Little (\<lambda>e _. (True, Some e)) (message_bytes (0, 0, replicate 6 0, BCancel 5 1)) (Some 0) 23 None
       = Some (True, Some ev) \<and>
     microstructure_onMarketData \<lparr>ms_model = \<lparr>w_imbalance = 1, w_microPrice = 1, w_spread = 0\<rparr>, ms_accountId = 9,
       ms_quantity = 1, ms_buyScoreThreshold = 0, ms_sellScoreThreshold = 0\<rparr> ev b = Some (Some i) \<and>
     int_symbol i = replicate 8 0"
proof -
  let ?msg = "(0, 0, replicate 6 0, BCancel 5 1)" and ?ev = "itch_event (BCancel 5 1)"
  let ?st = "\<lparr>ms_model = \<lparr>w_imbalance = 1, w_microPrice = 1, w_spread = 0\<rparr>, ms_accountId = 9,
       ms_quantity = 1, ms_buyScoreThreshold = 0, ms_sellScoreThreshold = 0\<rparr>"
  have len: "length (message_bytes ?msg) = 23" by (simp add: itch_bytes_def)
  have ok: "message_ok ?msg" by simp
  have d: "itch_dispatch Little (\<lambda>e _. (True, Some e)) (message_bytes ?msg) (Some 0) (length (message_bytes ?msg)) None =
      Some (True, Some ?ev)"
    using dispatch_message[OF ok, of Little "\<lambda>e _. (True, Some e)" None] by simp
  obtain h b f where "book_inv (enq Sell 103 2 (enq Buy 100 1 (\<lambda>_ _. []))) h b" "extractFeatures b = Some (Some f)"
    by (rule two_sided_features)
  then obtain i where i: "microstructure_onMarketData ?st ?ev b = Some (Some i)"
    by (cases "predict (ms_model ?st) f \<ge> 0") (auto simp: microstructure_onMarketData_def Let_def)
  have "ev_type ?ev \<noteq> AddOrderEvent" by simp
  from strategy_blank_symbol[OF ok d this i] show ?thesis using d i unfolding len by blast
qed

end
