(* ===== verification/TradingRuntime.thy ===== *)
theory TradingRuntime
  imports ReplayRuntime Strategy OuchClient RuntimeConfig
begin

text \<open>
  The trading process (\<^verbatim>\<open>apps/trading_runtime.cpp\<close>): from the command line to the chain

    feed \<open>\<rightarrow>\<close> dispatcher \<open>\<rightarrow>\<close> pipeline \<open>\<rightarrow>\<close> order book \<open>\<rightarrow>\<close> strategy \<open>\<rightarrow>\<close> gateway \<open>\<rightarrow>\<close> risk \<open>\<rightarrow>\<close> OUCH transport,

  with a replay file or the DPDK receiver as feed and the recording or the TLS transport at the end.
  What the operating system, OpenSSL and DPDK answer is the record \<open>world\<close>.  A replay run goes on with the steps
  of \<open>ReplayRuntime\<close>; a DPDK run with \<open>live_step\<close>, in which the bursts of the receiver and the steps of the
  pipeline's worker interleave.

  The main results: what a replay run has done when it ends, from the book to the bytes of the orders, and what the
  DPDK path makes of the packets it is given.
\<close>

section \<open>Execution transport\<close>

datatype exec_transport = RecordingTransport recording_transport | TlsTransport tls_transport

fun transport_send :: "u8 list option \<Rightarrow> exec_transport \<Rightarrow> (bool \<times> exec_transport) option" where
  "transport_send data (RecordingTransport t) = map_option (map_prod id RecordingTransport) (recording_send data t)"
| "transport_send data (TlsTransport t) = map_option (map_prod id TlsTransport) (tls_send data t)"

fun transport_stream :: "exec_transport \<Rightarrow> u8 list" where
  "transport_stream (RecordingTransport t) = rec_log t"
| "transport_stream (TlsTransport t) = tls_wire t"

text \<open>The destructors: only the TLS transport holds anything.\<close>

fun transport_close :: "exec_transport \<Rightarrow> exec_transport" where
  "transport_close (RecordingTransport t) = RecordingTransport t"
| "transport_close (TlsTransport t) = TlsTransport (tls_close t)"

definition new_recording :: recording_transport where
  "new_recording = \<lparr>rec_buffer = replicate 128 0, rec_lastLength = 0, rec_sent = False, rec_log = []\<rparr>"

record world =
  w_heap :: heap
  w_orders :: ptr
  w_connect :: tls_connect_results
  w_writes :: "int list"
  w_reads :: "(int \<times> u8 list) list"
  w_file :: "string \<Rightarrow> buffer option"
  w_eal :: int
  w_dpdk :: dpdk

definition new_tls :: "world \<Rightarrow> tls_transport" where
  "new_tls w = \<lparr>tls_fd = -1, tls_ssl = False, tls_context = False, tls_replies = w_writes w, tls_incoming = w_reads w,
     tls_wire = [], tls_events = []\<rparr>"

definition open_transport :: "ExecutionMode \<Rightarrow> world \<Rightarrow> exec_transport + exec_transport" where
  "open_transport em w =
     (case em of
        Recording \<Rightarrow> Inr (RecordingTransport new_recording)
      | Tls \<Rightarrow> (case tls_connect (w_connect w) (new_tls w) of (ok, t) \<Rightarrow>
          if \<not> ok then Inl (transport_close (TlsTransport t)) else Inr (TlsTransport t)))"

section \<open>Composition\<close>

definition signalModel :: ModelWeights where
  "signalModel = \<lparr>w_imbalance = fl (6 / 10), w_microPrice = fl (4 / 10), w_spread = 0\<rparr>"

definition runtime_strategy :: IStrategy where
  "runtime_strategy = Microstructure \<lparr>ms_model = signalModel, ms_accountId = 1001, ms_quantity = 10,
     ms_buyScoreThreshold = fl (20 / 100), ms_sellScoreThreshold = - fl (20 / 100)\<rparr>"

type_synonym execution = "risk_positions \<times> exec_transport ouch_sink"
type_synonym trader = "book_consumer \<times> execution"

definition intentSink :: "OrderIntent \<Rightarrow> execution \<Rightarrow> (bool \<times> execution) option" where
  "intentSink = intent_sink_submit (ouch_sink_submit transport_send)"

definition runtime_consume :: "trader consumer" where
  "runtime_consume = strategy_consume runtime_strategy intentSink"

definition new_trader :: "world \<Rightarrow> exec_transport \<Rightarrow> trader" where
  "new_trader w t = (new_consumer (w_heap w) (w_orders w), Map.empty, \<lparr>nextUserRef = 1, transport = t\<rparr>)"

definition receiver_initialize :: "int \<Rightarrow> bool" where
  "receiver_initialize ret = (\<not> ret < 0)"

definition new_receiver :: "'x pipeline \<Rightarrow> 'x pipeline receiver" where
  "new_receiver p = \<lparr>packetCount = 0, byteCount = 0, freed = [], sink_state = p\<rparr>"

datatype trading_run =
    BadConfig cli_error
  | NoConnection exec_transport
  | NoFile exec_transport
  | NoDpdk exec_transport
  | Replaying "trader replay"
  | Receiving "trader pipeline receiver"
  | NoPort "trader pipeline"

definition trading_main :: "string list \<Rightarrow> world \<Rightarrow> trading_run option" where
  "trading_main args w =
     (case trading_config args of
        Inl err \<Rightarrow> Some (BadConfig err)
      | Inr opts \<Rightarrow>
          (case open_transport (executionMode opts) w of
             Inl t \<Rightarrow> Some (NoConnection t)
           | Inr t \<Rightarrow>
               let consumer = new_trader w t
               in if mode opts = Some Replay
                  then (case w_file w (the (replayFile opts)) of
                          None \<Rightarrow> Some (NoFile (transport_close t))
                        | Some content \<Rightarrow> map_option Replaying (replay_start content consumer))
                  else if \<not> receiver_initialize (w_eal w) then Some (NoDpdk (transport_close t))
                  else do {
                    p \<leftarrow> pipeline_start (new_pipeline consumer);
                    if fst (run_setup (w_dpdk w)) then Some (Receiving (new_receiver p))
                    else Some (NoPort (pipeline_stop p))
                  }))"

section \<open>The receiver and the worker\<close>

definition BURST_SIZE :: nat where
  "BURST_SIZE = 32"

inductive live_step :: "endian \<Rightarrow> 'x consumer \<Rightarrow> 'x pipeline receiver \<Rightarrow> mbuf list \<Rightarrow> 'x pipeline receiver \<Rightarrow> bool" for E consume where
  l_burst: "length received \<le> BURST_SIZE \<Longrightarrow>
    rx_iteration E (Some (udp_sink_submit E pipeline_submit)) received elapsed r = Some r' \<Longrightarrow> live_step E consume r received r'"
| l_worker: "worker_step consume (sink_state r) p \<Longrightarrow> live_step E consume r [] (r\<lparr>sink_state := p\<rparr>)"

inductive live_reach :: "endian \<Rightarrow> 'x consumer \<Rightarrow> 'x \<Rightarrow> mbuf list \<Rightarrow> 'x pipeline receiver \<Rightarrow> bool" for E consume x0 where
  live_begin: "pipeline_start (new_pipeline x0) = Some p \<Longrightarrow> live_reach E consume x0 [] (new_receiver p)"
| live_next: "live_reach E consume x0 packets r \<Longrightarrow> live_step E consume r received r' \<Longrightarrow>
    live_reach E consume x0 (packets @ received) r'"

text \<open>The receiver as a program of its own, without a sink: its exit code; once it polls it never returns.\<close>

definition receiver_app :: "int \<Rightarrow> dpdk \<Rightarrow> int option" where
  "receiver_app ret d =
     (if \<not> receiver_initialize ret then Some (-1)
      else if fst (run_setup d) then None else Some 0)"

section \<open>The end of a run\<close>

datatype response_report = ResponseAccepted UserRefNum | ResponseUndecoded | ResponseMissing

text \<open>After a replay with the TLS transport, one response is awaited.\<close>

definition read_response :: "trader \<Rightarrow> (response_report option \<times> trader) option" where
  "read_response = (\<lambda>(c, ps, s).
     (case transport s of
        RecordingTransport t \<Rightarrow> Some (None, c, ps, s)
      | TlsTransport t \<Rightarrow> do {
          (ok, response, t') \<leftarrow> tls_receive False AcceptedSize t;
          let x = (c, ps, s\<lparr>transport := TlsTransport t'\<rparr>);
          if ok then do {
            dispatched \<leftarrow> response_dispatch response (Some 0) AcceptedSize;
            (case dispatched of
               Some (RAccepted accepted) \<Rightarrow> Some (Some (ResponseAccepted (ac_userRefNum accepted)), x)
             | _ \<Rightarrow> Some (Some ResponseUndecoded, x))
          }
          else Some (Some ResponseMissing, x)
        }))"

text \<open>What is printed last: the best prices, and the length of the last recorded message.\<close>

definition final_report :: "trader \<Rightarrow> (Price option \<times> Price option \<times> nat option) option" where
  "final_report = (\<lambda>(c, ps, s). do {
     bid \<leftarrow> bestBid (bc_book c);
     ask \<leftarrow> bestAsk (bc_book c);
     let price = map_option (\<lambda>r. lvl_price (level_at r (bc_book c)));
     Some (price bid, price ask,
       (case transport s of
          RecordingTransport t \<Rightarrow> (if rec_sent t then Some (rec_lastLength t) else None)
        | TlsTransport t \<Rightarrow> None))
   })"

definition trading_end :: "trader replay \<Rightarrow>
  (nat \<times> response_report option \<times> (Price option \<times> Price option \<times> nat option)) option" where
  "trading_end s = do {
     (response, x) \<leftarrow> read_response (pl_consumer (rp_pipeline s));
     report \<leftarrow> final_report x;
     Some (rp_count s, response, report)
   }"

section \<open>Orders of the strategy\<close>

interpretation xt: ouch_transport transport_send transport_stream
proof
  fix data t ok t' assume "transport_send (Some data) t = Some (ok, t')"
  then show "\<exists>n. transport_stream t' = transport_stream t @ take n data \<and> (ok \<longrightarrow> length data \<le> n)"
    by (cases t) (auto dest!: rec.send_stream tls.send_stream intro: exI[of _ "length data"])
qed

text \<open>What the process may send: the strategy's account and quantity, at a price of the book.\<close>

definition runtime_intent :: "OrderIntent \<Rightarrow> bool" where
  "runtime_intent i \<longleftrightarrow> int_accountId i = 1001 \<and> int_quantity i = 10 \<and> length (int_symbol i) = 8 \<and>
     0 < int_price i \<and> int_price i < int MaxPriceLevels"

definition net_position :: "OrderIntent list \<Rightarrow> int" where
  "net_position is = foldl (\<lambda>p i. moved (int_side i) (int_quantity i) p) 0 is"

text \<open>The execution side after the orders \<open>is\<close> have been recorded.\<close>

definition recorded :: "OrderIntent list \<Rightarrow> execution \<Rightarrow> bool" where
  "recorded is x \<longleftrightarrow> (\<forall>i\<in>set is. runtime_intent i) \<and> within_limits (fst x) \<and> risk_pos (fst x) 1001 = net_position is \<and>
     nextUserRef (snd x) = 1 + of_nat (length is) \<and>
     (\<exists>t. transport (snd x) = RecordingTransport t \<and> length (rec_buffer t) = 128 \<and>
        rec_log t = concat (map enter_bytes (orders_from 1 is)) \<and> rec_sent t = (is \<noteq> []) \<and>
        (is \<noteq> [] \<longrightarrow> rec_lastLength t = 47))"

lemma orders_from_snoc: "orders_from ref (is @ [i]) = orders_from ref is @ [intent_order (ref + of_nat (length is)) i]"
  by (induction "is" arbitrary: ref) (simp_all add: add.assoc)

lemma runtime_enter:
  assumes "runtime_intent i"
  shows "encode_enter (intent_order ref i) = Some (enter_bytes (intent_order ref i))"
    "length (enter_bytes (intent_order ref i)) = 47"
  using assms by (simp_all add: encode_enter_bytes runtime_intent_def intent_order_def enter_bytes_def)

lemma ouch_submit_recorded:
  assumes "recorded is (ps, s)" "runtime_intent i"
  obtains s' where "ouch_sink_submit transport_send i s = Some (True, s')"
    "risk_check ps i = Accepted \<Longrightarrow> recorded (is @ [i]) (risk_onAccepted i ps, s')"
proof -
  from assms(1) obtain t where t: "transport s = RecordingTransport t" "length (rec_buffer t) = 128"
    "rec_log t = concat (map enter_bytes (orders_from 1 is))" "nextUserRef s = 1 + of_nat (length is)"
    by (auto simp: recorded_def)
  let ?b = "enter_bytes (intent_order (nextUserRef s) i)"
  let ?t = "t\<lparr>rec_buffer := ?b @ drop 47 (rec_buffer t), rec_lastLength := 47, rec_sent := True, rec_log := rec_log t @ ?b\<rparr>"
  let ?s = "s\<lparr>nextUserRef := nextUserRef s + 1, transport := RecordingTransport ?t\<rparr>"
  have s': "ouch_sink_submit transport_send i s = Some (True, ?s)"
    using runtime_enter[OF assms(2), of "nextUserRef s"] t(1,2)
    by (simp add: ouch_sink_submit_def nextUserRefNum_def recording_send_def)
  have "recorded (is @ [i]) (risk_onAccepted i ps, ?s)" if "risk_check ps i = Accepted"
  proof -
    have "within_limits (risk_onAccepted i ps)"
      using that assms(1) unfolding risk_check_Accepted within_limits_def risk_pos_onAccepted recorded_def by simp
    moreover have "risk_pos (risk_onAccepted i ps) 1001 = net_position (is @ [i])"
      using assms by (simp add: risk_pos_onAccepted recorded_def runtime_intent_def net_position_def)
    ultimately show ?thesis
      using assms t runtime_enter(2)[OF assms(2)] by (simp add: recorded_def orders_from_snoc)
  qed
  with s' show ?thesis by (rule that)
qed

text \<open>The gateway sends an intent exactly when the risk check accepts it.\<close>

lemma intentSink_recorded:
  assumes "recorded is x" "runtime_intent i"
  shows "\<exists>ok x'. intentSink i x = Some (ok, x') \<and> recorded (if ok then is @ [i] else is) x'"
proof -
  obtain ps s where x: "x = (ps, s)" by force
  obtain s' where s': "ouch_sink_submit transport_send i s = Some (True, s')"
    "risk_check ps i = Accepted \<Longrightarrow> recorded (is @ [i]) (risk_onAccepted i ps, s')"
    by (rule ouch_submit_recorded[OF assms[unfolded x]]) blast
  show ?thesis
  proof (cases "risk_check ps i = Accepted")
    case True
    then show ?thesis using s' by (intro exI[of _ True]) (simp add: intentSink_def intent_sink_submit_def gateway_submit_def gw_accepted_def x)
  next
    case False
    then show ?thesis using assms(1) by (intro exI[of _ False]) (simp add: intentSink_def intent_sink_submit_def gateway_submit_def gw_accepted_def x)
  qed
qed

lemma runtime_decision:
  assumes "strategy_onMarketData runtime_strategy event b = Some (Some i)"
  shows "int_accountId i = 1001 \<and> int_quantity i = 10"
proof -
  let ?st = "\<lparr>ms_model = signalModel, ms_accountId = 1001, ms_quantity = 10,
     ms_buyScoreThreshold = fl (20 / 100), ms_sellScoreThreshold = - fl (20 / 100)\<rparr>"
  have m: "microstructure_onMarketData ?st event b = Some (Some i)" using assms by (simp add: runtime_strategy_def)
  then obtain f where f: "extractFeatures b = Some (Some f)"
    by (cases "extractFeatures b"; cases "the (extractFeatures b)") (simp_all add: microstructure_onMarketData_def)
  show ?thesis
  proof (cases "predict signalModel f \<ge> fl (20 / 100)")
    case True
    then show ?thesis using m f by (auto simp: microstructure_onMarketData_def Let_def)
  next
    case False
    then show ?thesis using m f by (cases "predict signalModel f \<le> - fl (20 / 100)") (auto simp: microstructure_onMarketData_def Let_def)
  qed
qed

section \<open>One event, and a whole feed\<close>

lemma event_symbol: "message_ok m \<Longrightarrow> length (ev_symbol (message_event m)) = 8"
proof -
  assume m: "message_ok m"
  obtain locate tracking ts body where "m = (locate, tracking, ts, body)" by (metis prod.exhaust)
  with m show ?thesis by (cases body) (simp_all add: default_event_def)
qed

lemma consume_recorded:
  assumes "bc_inv Q c" "event_ok (entries Q (bc_heap c)) event" "recorded is x" "length (ev_symbol event) = 8"
  shows "\<exists>Q' c' is' x'. runtime_consume event (c, x) = Some (c', x') \<and> bc_inv Q' c' \<and>
    book_step event (entries Q (bc_heap c)) (entries Q' (bc_heap c')) \<and> recorded is' x' \<and> length is' \<le> Suc (length is)"
proof -
  obtain Q' c' where c: "book_consume event c = Some c'" "bc_inv Q' c'"
    "book_step event (entries Q (bc_heap c)) (entries Q' (bc_heap c'))"
    using consume_refines[OF assms(1,2)] by (auto simp: refines_step_def)
  obtain r where r: "strategy_onMarketData runtime_strategy event (bc_book c') = Some r"
    "\<forall>i. r = Some i \<longrightarrow> at_best Q' (bc_book c') event i"
    using st.decides[OF bc_invD(1)[OF c(2)]] by blast
  show ?thesis
  proof (cases r)
    case None
    then have "runtime_consume event (c, x) = Some (c', x)" using c r by (simp add: runtime_consume_def strategy_consume_def)
    then show ?thesis using c assms(3) by (intro exI[of _ Q'] exI[of _ c'] exI[of _ "is"] exI[of _ x]) simp
  next
    case (Some i)
    then have b: "at_best Q' (bc_book c') event i" using r(2) by blast
    have "runtime_intent i"
      using runtime_decision r(1) Some at_best_range[OF bc_invD(1)[OF c(2)] b] b assms(4) by (simp add: runtime_intent_def at_best_def)
    from intentSink_recorded[OF assms(3) this] obtain ok x' where x': "intentSink i x = Some (ok, x')"
      "recorded (if ok then is @ [i] else is) x'" by blast
    then have "runtime_consume event (c, x) = Some (c', x')"
      using c r Some by (simp add: runtime_consume_def strategy_consume_def)
    then show ?thesis using c x'(2)
      by (intro exI[of _ Q'] exI[of _ c'] exI[of _ "if ok then is @ [i] else is"] exI[of _ x']) simp
  qed
qed

lemma feed_recorded:
  assumes "bc_inv Q c" "events_ok evs (entries Q (bc_heap c))" "recorded is x" "\<forall>ev\<in>set evs. length (ev_symbol ev) = 8"
  shows "\<exists>Q' c' is' x'. fold_opt runtime_consume evs (c, x) = Some (c', x') \<and> bc_inv Q' c' \<and>
    book_run evs (entries Q (bc_heap c)) (entries Q' (bc_heap c')) \<and> recorded is' x' \<and> length is' \<le> length is + length evs"
  using assms
proof (induction evs arbitrary: Q c "is" x)
  case Nil
  then show ?case by (intro exI[of _ Q] exI[of _ c] exI[of _ "is"] exI[of _ x]) (simp add: book_run.none)
next
  case (Cons ev evs)
  obtain Q1 c1 is1 x1 where 1: "runtime_consume ev (c, x) = Some (c1, x1)" "bc_inv Q1 c1"
    "book_step ev (entries Q (bc_heap c)) (entries Q1 (bc_heap c1))" "recorded is1 x1" "length is1 \<le> Suc (length is)"
    using consume_recorded[OF Cons.prems(1) _ Cons.prems(3), of ev] Cons.prems(2,4) by auto
  have "events_ok evs (entries Q1 (bc_heap c1))" "\<forall>ev\<in>set evs. length (ev_symbol ev) = 8" using Cons.prems(2,4) 1(3) by auto
  from Cons.IH[OF 1(2) this(1) 1(4) this(2)] obtain Q2 c2 is2 x2 where 2: "fold_opt runtime_consume evs (c1, x1) = Some (c2, x2)"
    "bc_inv Q2 c2" "book_run evs (entries Q1 (bc_heap c1)) (entries Q2 (bc_heap c2))" "recorded is2 x2"
    "length is2 \<le> length is1 + length evs" by blast
  then show ?case using 1 book_run.some[OF 1(3) 2(3)]
    by (intro exI[of _ Q2] exI[of _ c2] exI[of _ is2] exI[of _ x2]) simp
qed

lemma new_trader_recorded: "recorded [] (snd (new_trader w (RecordingTransport new_recording)))"
  by (simp add: recorded_def new_trader_def new_recording_def within_limits_def risk_pos_def MaxPosition_def net_position_def)

section \<open>The report\<close>

definition best_level :: "Side \<Rightarrow> abook \<Rightarrow> Price option \<Rightarrow> bool" where
  "best_level s A p \<longleftrightarrow>
     (case p of
        None \<Rightarrow> \<forall>i. A s i = []
      | Some q \<Rightarrow> \<exists>i. q = int i \<and> A s i \<noteq> [] \<and> (\<forall>j. A s j \<noteq> [] \<longrightarrow> \<not> better s (int j) (int i)))"

lemma best_ref_level:
  assumes "book_inv Q h b"
  shows "\<exists>r. best_ref s b = Some r \<and> best_level s (entries Q h) (map_option (\<lambda>r. lvl_price (level_at r b)) r)"
proof (cases rule: best_ref_cases[OF assms, of s, case_names none level])
  case none
  then show ?thesis by (auto simp: best_level_def entries_def levels_in_def)
next
  case (level i)
  have "lvl_price (level_at (s, i) b) = int i" using inv_price[OF assms level(2)] by blast
  then show ?thesis using level by (auto simp: best_level_def entries_def)
qed

lemma final_report_best:
  assumes "bc_inv Q c" "recorded is x"
  shows "\<exists>bid ask. final_report (c, x) = Some (bid, ask, if is = [] then None else Some 47) \<and>
    best_level Buy (entries Q (bc_heap c)) bid \<and> best_level Sell (entries Q (bc_heap c)) ask"
proof -
  note inv = bc_invD(1)[OF assms(1)]
  obtain rb ra where "best_ref Buy (bc_book c) = Some rb" "best_ref Sell (bc_book c) = Some ra"
    "best_level Buy (entries Q (bc_heap c)) (map_option (\<lambda>r. lvl_price (level_at r (bc_book c))) rb)"
    "best_level Sell (entries Q (bc_heap c)) (map_option (\<lambda>r. lvl_price (level_at r (bc_book c))) ra)"
    using best_ref_level[OF inv, of Buy] best_ref_level[OF inv, of Sell] by blast
  then show ?thesis
    using assms(2) by (cases x) (auto simp: final_report_def recorded_def Let_def simp del: level_at.simps)
qed

lemma trading_end_report:
  assumes "pl_consumer (rp_pipeline s) = (c, x)" "bc_inv Q c" "recorded is x"
  shows "\<exists>bid ask. trading_end s = Some (rp_count s, None, bid, ask, if is = [] then None else Some 47) \<and>
    best_level Buy (entries Q (bc_heap c)) bid \<and> best_level Sell (entries Q (bc_heap c)) ask"
proof -
  obtain ps s' where x: "x = (ps, s')" by force
  have "read_response (c, x) = Some (None, c, x)" using assms(3) by (auto simp: read_response_def recorded_def x)
  then show ?thesis using final_report_best[OF assms(2,3)] assms(1) by (auto simp: trading_end_def)
qed

section \<open>The DPDK feed\<close>

text \<open>A packet that is a well-formed frame and what it brings: the event of its message on port 9000, nothing on another port.\<close>

definition carries :: "mbuf \<Rightarrow> MarketDataEvent option \<Rightarrow> bool" where
  "carries m ev \<longleftrightarrow> (\<exists>f. frame_ok f \<and> mb_data m = frame_bytes f \<and> mb_pkt_len m = length (frame_bytes f) \<and>
     (if fr_dport f = 9000 then \<exists>msg. message_ok msg \<and> fr_payload f = message_bytes msg \<and> ev = Some (message_event msg)
      else ev = None))"

lemma rx_packet_carries:
  assumes "carries m ev"
  shows "\<exists>r'. rx_packet E (Some (udp_sink_submit E submit)) m r = Some r' \<and> freed r' = freed r @ [mb_id m] \<and>
    sink_state r' = (case ev of None \<Rightarrow> sink_state r | Some e \<Rightarrow> snd (submit e (sink_state r)))"
proof -
  obtain f where f: "frame_ok f" "mb_data m = frame_bytes f" "mb_pkt_len m = length (frame_bytes f)"
    "if fr_dport f = 9000 then \<exists>msg. message_ok msg \<and> fr_payload f = message_bytes msg \<and> ev = Some (message_event msg) else ev = None"
    using assms by (auto simp: carries_def)
  show ?thesis
  proof (cases "fr_dport f = 9000")
    case True
    then obtain msg where "message_ok msg" "fr_payload f = message_bytes msg" "ev = Some (message_event msg)" using f(4) by auto
    with frame_event[OF f(1-3) True this(1,2), of E submit r] show ?thesis by auto
  next
    case False
    then show ?thesis using f(4) rx_packet_delivers[OF f(1-3), of E "udp_sink_submit E submit" r] by simp
  qed
qed

lemma rx_burst_carries:
  assumes "list_all2 carries ms evs"
  shows "\<exists>r'. fold_opt (rx_packet E (Some (udp_sink_submit E submit))) ms r = Some r' \<and> freed r' = freed r @ map mb_id ms \<and>
    sink_state r' = fold (\<lambda>e x. snd (submit e x)) (List.map_filter id evs) (sink_state r)"
  using assms
proof (induction ms evs arbitrary: r rule: list_all2_induct)
  case (Cons m ms ev evs)
  obtain r1 where 1: "rx_packet E (Some (udp_sink_submit E submit)) m r = Some r1" "freed r1 = freed r @ [mb_id m]"
    "sink_state r1 = (case ev of None \<Rightarrow> sink_state r | Some e \<Rightarrow> snd (submit e (sink_state r)))"
    using rx_packet_carries[OF Cons.hyps(1)] by blast
  then show ?case using Cons.IH[of r1] by (cases ev) auto
qed simp

definition live_inv :: "'x consumer \<Rightarrow> 'x \<Rightarrow> MarketDataEvent list \<Rightarrow> 'x pipeline \<Rightarrow> bool" where
  "live_inv consume x0 evs p \<longleftrightarrow> pipe_reach consume x0 p \<and> pl_main p = MIdle \<and> subseq (pl_accepted p) evs \<and>
     (length evs < QueueCapacity \<longrightarrow> pl_accepted p = evs)"

lemma submit_live:
  assumes "live_inv consume x0 evs p"
  shows "live_inv consume x0 (evs @ [e]) (snd (pipeline_submit e p))"
proof -
  obtain ok p' where sub: "pipeline_submit e p = (ok, p')" by force
  note I = assms[unfolded live_inv_def]
  note Q = queue_within[OF conjunct1[OF I]]
  note A = submit_accepts[OF sub Q(1)]
  have "pipe_reach consume x0 p'"
    using pipe_reach.step[of consume x0 p p'] pipe_step.m_submit[of p e ok p' consume] I sub by simp
  moreover have "subseq (pl_accepted p') (evs @ [e])"
    using I A(1) list_emb_append_mono[of "(=)" "pl_accepted p" evs "if ok then [e] else []" "[e]"] by simp
  moreover have "pl_accepted p' = evs @ [e]" if "length (evs @ [e]) < QueueCapacity"
  proof -
    have "pl_accepted p = evs" using I that by simp
    moreover have ok using A(5) Q(2) that calculation by simp
    ultimately show ?thesis using A(1) by simp
  qed
  ultimately show ?thesis using I A(3) sub by (simp add: live_inv_def)
qed

lemma submits_live:
  "live_inv consume x0 evs p \<Longrightarrow> live_inv consume x0 (evs @ es) (fold (\<lambda>e x. snd (pipeline_submit e x)) es p)"
proof (induction es arbitrary: evs p)
  case (Cons e es)
  from Cons.IH[OF submit_live[OF Cons.prems, of e]] show ?case by simp
qed simp

lemma live_step_inv:
  assumes "live_step E consume r ms r'" "live_inv consume x0 evs (sink_state r)" "list_all2 carries ms ces"
  shows "live_inv consume x0 (evs @ List.map_filter id ces) (sink_state r') \<and> freed r' = freed r @ map mb_id ms"
  using assms(1)
proof cases
  case (l_burst elapsed)
  obtain r1 where 1: "fold_opt (rx_packet E (Some (udp_sink_submit E pipeline_submit))) ms r = Some r1" "freed r1 = freed r @ map mb_id ms"
    "sink_state r1 = fold (\<lambda>e x. snd (pipeline_submit e x)) (List.map_filter id ces) (sink_state r)"
    using rx_burst_carries[OF assms(3)] by blast
  then have "sink_state r' = sink_state r1" "freed r' = freed r1" using l_burst by (auto simp: rx_iteration_def)
  then show ?thesis using submits_live[OF assms(2), of "List.map_filter id ces"] 1 by simp
next
  case (l_worker p)
  have "pipe_reach consume x0 p"
    using l_worker assms(2) pipe_reach.step[of consume x0 "sink_state r" p] by (simp add: worker_step_def live_inv_def)
  then show ?thesis
    using l_worker assms(2,3) worker_step_same(1,3)[OF l_worker(3)] by (simp add: live_inv_def)
qed

lemma map_filter_append: "List.map_filter f (xs @ ys) = List.map_filter f xs @ List.map_filter f ys"
  by (simp add: List.map_filter_def)

lemma live_reach_inv:
  assumes "live_reach E consume x0 packets r" "list_all2 carries packets ces"
  shows "live_inv consume x0 (List.map_filter id ces) (sink_state r) \<and> freed r = map mb_id packets"
  using assms
proof (induction arbitrary: ces)
  case (live_begin p)
  have "pipe_step consume (new_pipeline x0) p" by (rule pipe_step.m_start[OF _ live_begin(1)]) (simp add: new_pipeline_def)
  then have "pipe_reach consume x0 p" by (rule pipe_reach.step[OF pipe_reach.start])
  then show ?case using live_begin
    by (auto simp: live_inv_def new_receiver_def pipeline_start_def new_pipeline_def joinable_def)
next
  case (live_next packets r received r')
  obtain ces1 ces2 where c: "ces = ces1 @ ces2" "list_all2 carries packets ces1" "list_all2 carries received ces2"
    using live_next.prems by (auto simp: list_all2_append1)
  show ?case
    using live_step_inv[OF live_next.hyps(2) conjunct1[OF live_next.IH[OF c(2)]] c(3)] live_next.IH[OF c(2)]
    by (simp add: c(1) map_filter_append id_def)
qed

section \<open>Properties\<close>


definition demo_feed :: "itch_message list" where
  "demo_feed = [(0, 0, replicate 6 0, BAdd 5001 ch_B 900 AAPL 98)]"

definition demo_world :: world where
  "demo_world = \<lparr>w_heap = demo_heap, w_orders = 0,
     w_connect = \<lparr>res_ctx = True, res_load_ca = 1, res_tls_socket = 3, res_tls_pton = 1, res_tls_connect = 0, res_ssl = True,
       res_set_fd = 1, res_param = True, res_set_ip = 1, res_handshake = 1, res_verify_ok = True\<rparr>,
     w_writes = [], w_reads = [], w_file = (\<lambda>_. Some (foldl (writeMessage Little) [] (map message_bytes demo_feed))), w_eal = 0,
     w_dpdk = \<lparr>pool_created = True, dev_count = 1, configure_ret = \<lambda>_. 0, rx_ret = \<lambda>_. 0, tx_ret = \<lambda>_. 0, start_ret = \<lambda>_. 0\<rparr>\<rparr>"


text \<open>C18. The DPDK path, in every interleaving of the receive loop with the pipeline's worker, for any bursts of well-formed frames, on port 9000
  with an ITCH message each: every packet is freed exactly once; the accepted events are events of the frames in arrival
  order, all of them as long as fewer than 4096 came; what was delivered and what is queued make up the accepted events, and the consumer has processed exactly the delivered ones; and the loop
  can take any further burst of such frames.\<close>

theorem live_feed:
  assumes "live_reach E consume x0 packets r" "list_all2 carries packets ces"
  shows "let p = sink_state r; evs = List.map_filter id ces in
    freed r = map mb_id packets \<and> subseq (pl_accepted p) evs \<and> (length evs < QueueCapacity \<longrightarrow> pl_accepted p = evs) \<and>
    pl_consumed p @ rb_list QueueCapacity (pl_queue p) = pl_accepted p \<and>
    fold_opt consume (pl_consumed p) x0 = Some (pl_consumer p) \<and>
    (\<forall>ms ces'. length ms \<le> BURST_SIZE \<and> list_all2 carries ms ces' \<longrightarrow> (\<exists>r'. live_step E consume r ms r'))"
proof -
  note I = live_reach_inv[OF assms]
  have "pipe_reach consume x0 (sink_state r)" using I by (simp add: live_inv_def)
  then have "data_inv consume x0 (sink_state r)" by (rule conjunct1[OF pipe_reach_inv])
  moreover have "\<exists>r'. live_step E consume r ms r'" if len: "length ms \<le> BURST_SIZE" and car: "list_all2 carries ms ces'" for ms ces'
  proof -
    obtain r' where "rx_iteration E (Some (udp_sink_submit E pipeline_submit)) ms False r = Some r'"
      using rx_burst_carries[OF car, of E pipeline_submit r] by (auto simp: rx_iteration_def)
    from live_step.l_burst[OF len this] show ?thesis by blast
  qed
  ultimately show ?thesis using I by (auto simp: Let_def live_inv_def data_inv_def)
qed

definition itch_mbuf :: mbuf where
  "itch_mbuf = \<lparr>mb_id = 7, mb_data = frame_bytes itch_frame, mb_pkt_len = length (frame_bytes itch_frame)\<rparr>"

lemma itch_mbuf_carries: "carries itch_mbuf (Some (itch_event (BAdd 12345 ch_B 100 AAPL 50000)))"
proof -
  let ?msg = "(1, 1, replicate 6 0, BAdd 12345 ch_B 100 AAPL 50000)"
  have f: "fr_dport itch_frame = 9000" "fr_payload itch_frame = message_bytes ?msg"
    by (simp_all add: itch_frame_def demo_frame_def del: message_bytes.simps)
  have m: "message_ok ?msg" "message_event ?msg = itch_event (BAdd 12345 ch_B 100 AAPL 50000)" by (simp_all add: AAPL_def)
  have d: "mb_data itch_mbuf = frame_bytes itch_frame" "mb_pkt_len itch_mbuf = length (frame_bytes itch_frame)"
    by (simp_all add: itch_mbuf_def)
  have "\<exists>msg. message_ok msg \<and> fr_payload itch_frame = message_bytes msg \<and>
      Some (itch_event (BAdd 12345 ch_B 100 AAPL 50000)) = Some (message_event msg)" using f(2) m by metis
  then show ?thesis unfolding carries_def using itch_frame_ok d f(1) by (intro exI[of _ itch_frame]) simp
qed

theorem live_feed_witness:
  "\<exists>r. live_reach Little id_log [] [itch_mbuf] r \<and> freed r = [7] \<and>
     map ev_orderId (pl_accepted (sink_state r)) = [12345]"
proof -
  obtain p where p: "pipeline_start (new_pipeline ([] :: OrderId list)) = Some p"
    by (auto simp: pipeline_start_def new_pipeline_def joinable_def)
  have r0: "live_reach Little id_log [] [] (new_receiver p)" by (rule live_reach.live_begin[OF p])
  have c: "list_all2 carries [itch_mbuf] [Some (itch_event (BAdd 12345 ch_B 100 AAPL 50000))]" using itch_mbuf_carries by simp
  have "length [itch_mbuf] \<le> BURST_SIZE" by (simp add: BURST_SIZE_def)
  then obtain r where r: "live_step Little id_log (new_receiver p) [itch_mbuf] r"
    using live_feed[OF r0, of "[]"] c unfolding Let_def by blast
  have reach: "live_reach Little id_log [] [itch_mbuf] r" using live_reach.live_next[OF r0 r] by simp
  from live_feed[OF this c] show ?thesis
    using reach by (intro exI[of _ r]) (simp add: Let_def itch_mbuf_def QueueCapacity_def)
qed

end
