(* ===== verification/MatchingDemo.thy ===== *)
theory MatchingDemo
  imports MatchingProperties TradeListeners RiskGateway
begin

text \<open>
  The demonstration program (\<^verbatim>\<open>apps/matching_engine_demo.cpp\<close>): two sell orders and a buy order through the
  gateway, with the journal, the trade publisher and the position manager listening.  The journal
  (\<^verbatim>\<open>journal/journal.cpp\<close>) and the publisher (\<^verbatim>\<open>market_data/trade_publisher.cpp\<close>) write one line per trade; a line
  is the tuple of its fields.

  The result of the run is computed from the theorems about the matching engine.
\<close>

section \<open>Listeners\<close>

type_synonym trade_fields = "u64 \<times> OrderId \<times> OrderId \<times> Price \<times> Quantity"

definition trade_line :: "Trade \<Rightarrow> trade_fields" where
  "trade_line trade = (tr_sequence trade, tr_buy_order_id trade, tr_sell_order_id trade, tr_price trade, tr_quantity trade)"

record demo_listeners =
  journal_lines :: "trade_fields list"
  published_lines :: "trade_fields list"
  demo_positions :: positions

definition journal_onTrade :: "demo_listeners listener" where
  "journal_onTrade trade s = s\<lparr>journal_lines := journal_lines s @ [trade_line trade]\<rparr>"

definition publisher_onTrade :: "demo_listeners listener" where
  "publisher_onTrade trade s = s\<lparr>published_lines := published_lines s @ [trade_line trade]\<rparr>"

definition positions_onTrade :: "demo_listeners listener" where
  "positions_onTrade trade s = s\<lparr>demo_positions := pm_onTrade trade (demo_positions s)\<rparr>"

definition demo_dispatcher :: "demo_listeners listener list" where
  "demo_dispatcher = addListener (Some positions_onTrade) (addListener (Some publisher_onTrade)
     (addListener (Some journal_onTrade) []))"

section \<open>The program\<close>

definition sell1 :: OrderIntent where
  "sell1 = \<lparr>int_accountId = 2001, int_side = Sell, int_symbol = replicate 8 0, int_price = 100, int_quantity = 30\<rparr>"

definition sell2 :: OrderIntent where
  "sell2 = \<lparr>int_accountId = 2001, int_side = Sell, int_symbol = replicate 8 0, int_price = 101, int_quantity = 50\<rparr>"

definition buy :: OrderIntent where
  "buy = \<lparr>int_accountId = 1001, int_side = Buy, int_symbol = replicate 8 0, int_price = 101, int_quantity = 30\<rparr>"

definition demo_main :: "heap \<Rightarrow> ptr \<Rightarrow> (GatewayResult list \<times> demo_listeners \<times> int \<times> int) option" where
  "demo_main h base = do {
     (sell1Result, s1) \<leftarrow> gateway_submit engine_sink sell1 (Map.empty, new_engine h base);
     (sell2Result, s2) \<leftarrow> gateway_submit engine_sink sell2 s1;
     (buyResult, s3) \<leftarrow> gateway_submit engine_sink buy s2;
     let l = publish_all demo_dispatcher (eng_trades (snd s3)) \<lparr>journal_lines = [], published_lines = [], demo_positions = Map.empty\<rparr>;
     Some ([sell1Result, sell2Result, buyResult], l, pm_position (demo_positions l) 1001, pm_position (demo_positions l) 2001)
   }"

section \<open>What the book shows\<close>

lemma plist_views:
  assumes "\<And>j. map (view h) (Q s j) = V j"
  shows "map (view h) (plist Q s) = concat (map V (levels_by s {j. V j \<noteq> []}))"
proof -
  have "levels_in Q s = {j. V j \<noteq> []}" by (simp add: levels_in_def flip: assms)
  moreover have "map (view h) \<circ> Q s = V" using assms by auto
  ultimately show ?thesis by (simp add: plist_def map_concat)
qed

lemma plist_Nil: "book_inv Q h b \<Longrightarrow> plist Q s = [] \<Longrightarrow> levels_in Q s = {}"
  using set_plist[of Q h b s] by (auto simp: levels_in_def)

lemma live_bound:
  assumes "book_inv Q h b"
  shows "card (live Q) \<le> length (plist Q Buy) + length (plist Q Sell)"
proof -
  have "live Q = set (plist Q Buy @ plist Q Sell)" using set_plist[OF assms] by (auto simp: live_def ex_Side)
  then show ?thesis by (metis card_length length_append)
qed

lemma rests_ok:
  assumes "engine_inv Q e" "card (live Q) < DefaultOrderCapacity" "0 < i" "i < MaxPriceLevels" "0 < q"
    "unat (eng_seq e) + DefaultOrderCapacity < 2 ^ 64" "levels_in Q (opposite s) = {}"
  shows "\<exists>Q' e'. submitOrder acc s (int i) q e = Some (eng_seq e + 1, e') \<and> engine_inv Q' e' \<and>
    eng_trades e' = eng_trades e \<and> eng_seq e' = eng_seq e + 1 \<and> levels_in Q' (opposite s) = {} \<and>
    (\<forall>j. map (view (eng_heap e')) (Q' s j) = map (view (eng_heap e)) (Q s j) @
       (if j = i then [\<lparr>rs_id = eng_seq e + 1, rs_account = acc, rs_price = int i, rs_qty = q\<rparr>] else []))"
proof -
  have idle: "idle Q e" using assms(1) by (simp add: engine_inv_def)
  have "unat (eng_seq e) + 1 < 2 ^ 64" using assms(6) by (simp add: DefaultOrderCapacity_def)
  from submitOrder_rests[OF idle assms(2-4,7) this, of acc q] obtain e1 where
    1: "submitOrder acc s (int i) q e = Some (eng_seq e + 1, e1)" "eng_trades e1 = eng_trades e" "eng_seq e1 = eng_seq e + 1"
    by blast
  have "plist Q (opposite s) = []" by (rule plist_empty[OF assms(7)])
  with submitOrder_ok[OF assms(1-6), of acc s] 1(1) obtain Q' where 2: "engine_inv Q' e1" "plist Q' (opposite s) = []"
    "\<forall>j. map (view (eng_heap e1)) (Q' s j) = map (view (eng_heap e)) (Q s j) @
       (if j = i then [\<lparr>rs_id = eng_seq e + 1, rs_account = acc, rs_price = int i, rs_qty = q\<rparr>] else [])"
    using assms(5) by (auto simp: outcome_def word_gt_0)
  with 1 plist_Nil[OF engine_invD(1)[OF 2(1)] 2(2)] show ?thesis by (intro exI[of _ Q'] exI[of _ e1]) simp
qed

section \<open>The run\<close>

lemma gateway_takes:
  assumes "risk_check ps i = Accepted"
    "submitOrder (int_accountId i) (int_side i) (int_price i) (int_quantity i) e = Some (oid, e')" "oid \<noteq> 0"
  shows "gateway_submit engine_sink i (ps, e) =
    Some (\<lparr>riskResult = Accepted, executionSucceeded = True\<rparr>, risk_onAccepted i ps, e')"
  using assms by (simp add: gateway_submit_def engine_sink_def)

lemmas demo_orders = sell1_def sell2_def buy_def

lemma demo_risk:
  "risk_check Map.empty sell1 = Accepted" "risk_check (risk_onAccepted sell1 Map.empty) sell2 = Accepted"
  "risk_check (risk_onAccepted sell2 (risk_onAccepted sell1 Map.empty)) buy = Accepted"
  by (simp_all add: risk_check_Accepted risk_onAccepted_def demo_orders risk_pos_def moved_def orderValue_def MaxOrderQuantity_def
      MaxOrderValue_def MaxPosition_def)

definition resting_1 :: resting where
  "resting_1 = \<lparr>rs_id = 1001, rs_account = 2001, rs_price = 100, rs_qty = 30\<rparr>"

definition resting_2 :: resting where
  "resting_2 = \<lparr>rs_id = 1002, rs_account = 2001, rs_price = 101, rs_qty = 50\<rparr>"

lemma demo_sells:
  obtains Q e1 e2 where "submitOrder 2001 Sell 100 30 (new_engine h base) = Some (1001, e1)"
    "submitOrder 2001 Sell 101 50 e1 = Some (1002, e2)" "engine_inv Q e2" "eng_seq e2 = 1002" "eng_trades e2 = []"
    "map (view (eng_heap e2)) (plist Q Sell) = [resting_1, resting_2]" "levels_in Q Buy = {}"
proof -
  have c: "0 < (100::nat)" "100 < MaxPriceLevels" "0 < (101::nat)" "101 < MaxPriceLevels" "0 < (30::u32)" "0 < (50::u32)"
    by (simp_all add: MaxPriceLevels_def)
  have "card (live (\<lambda>_ _. [])) < DefaultOrderCapacity" by (simp add: DefaultOrderCapacity_def)
  with rests_ok[OF new_engine_inv[of h base] _ c(1,2,5), of Sell 2001]
  obtain Q1 e1 where 1: "submitOrder 2001 Sell (int 100) 30 (new_engine h base) = Some (1001, e1)" "engine_inv Q1 e1" "eng_trades e1 = []"
    "eng_seq e1 = 1001" "levels_in Q1 Buy = {}"
    "\<And>j. map (view (eng_heap e1)) (Q1 Sell j) = (if j = 100 then [resting_1] else [])"
    by (auto simp: new_engine_def DefaultOrderCapacity_def resting_1_def)
  have "map (view (eng_heap e1)) (plist Q1 Sell) = [resting_1]"
    using plist_views[where Q = Q1 and s = Sell, OF 1(6)] by (simp add: levels_by_def)
  then have "length (plist Q1 Sell) = 1" by (metis length_map length_Cons list.size(3) One_nat_def)
  then have "card (live Q1) < DefaultOrderCapacity"
    using live_bound[OF engine_invD(1)[OF 1(2)]] plist_empty[OF 1(5)] by (simp add: DefaultOrderCapacity_def)
  from rests_ok[OF 1(2) this c(3,4,6), of Sell 2001] 1(3-6)
  obtain Q2 e2 where 2: "submitOrder 2001 Sell (int 101) 50 e1 = Some (1002, e2)" "engine_inv Q2 e2" "eng_trades e2 = []"
    "eng_seq e2 = 1002" "levels_in Q2 Buy = {}"
    "\<And>j. map (view (eng_heap e2)) (Q2 Sell j) = (if j = 100 then [resting_1] else []) @ (if j = 101 then [resting_2] else [])"
    by (auto simp: DefaultOrderCapacity_def resting_2_def)
  have "{j :: nat. (if j = 100 then [resting_1] else []) @ (if j = 101 then [resting_2] else []) \<noteq> []} = {100, 101}" by auto
  then have "map (view (eng_heap e2)) (plist Q2 Sell) = [resting_1, resting_2]"
    using plist_views[where Q = Q2 and s = Sell, OF 2(6)] by (simp add: levels_by_def)
  with 1(1) 2 show ?thesis using that[of e1 e2 Q2] by simp
qed

text \<open>The program's run: all three orders are taken, the buy order meets the cheaper of the two sell orders and fills it completely, the trade
  is journalled and published once each, and the positions printed are 30 and -30.\<close>

lemma matching_engine_demo_run:
  "\<exists>l. demo_main h base = Some (replicate 3 \<lparr>riskResult = Accepted, executionSucceeded = True\<rparr>, l, 30, -30) \<and>
     journal_lines l = [(1004, 1003, 1001, 100, 30)] \<and> published_lines l = [(1004, 1003, 1001, 100, 30)]"
proof -
  obtain Q e1 e2 where s: "submitOrder 2001 Sell 100 30 (new_engine h base) = Some (1001, e1)"
    "submitOrder 2001 Sell 101 50 e1 = Some (1002, e2)" "engine_inv Q e2" "eng_seq e2 = 1002" "eng_trades e2 = []"
    "map (view (eng_heap e2)) (plist Q Sell) = [resting_1, resting_2]" "levels_in Q Buy = {}"
    by (rule demo_sells)
  have "length (plist Q Sell) = 2" using arg_cong[OF s(6), of length] by simp
  then have room: "card (live Q) < DefaultOrderCapacity"
    using live_bound[OF engine_invD(1)[OF s(3)]] plist_empty[OF s(7)] by (simp add: DefaultOrderCapacity_def)
  have fill: "fill (crosses Buy (int 101)) [resting_1, resting_2] 30 = ([(resting_1, 30)], [resting_2], 0)"
    by (simp add: crosses_def resting_1_def resting_2_def)
  have "101 < MaxPriceLevels" by (simp add: MaxPriceLevels_def)
  with submitOrder_ok[OF s(3) room, of 101 30 1001 Buy] s(4-6) fill
  obtain e3 where e3: "submitOrder 1001 Buy 101 30 e2 = Some (1003, e3)"
    "eng_trades e3 = [fill_trade Buy 1003 1001 1004 (resting_1, 30)]"
    by (auto simp: outcome_def DefaultOrderCapacity_def)
  have g: "gateway_submit engine_sink sell1 (Map.empty, new_engine h base) =
      Some (\<lparr>riskResult = Accepted, executionSucceeded = True\<rparr>, risk_onAccepted sell1 Map.empty, e1)"
    "gateway_submit engine_sink sell2 (risk_onAccepted sell1 Map.empty, e1) =
      Some (\<lparr>riskResult = Accepted, executionSucceeded = True\<rparr>, risk_onAccepted sell2 (risk_onAccepted sell1 Map.empty), e2)"
    "gateway_submit engine_sink buy (risk_onAccepted sell2 (risk_onAccepted sell1 Map.empty), e2) =
      Some (\<lparr>riskResult = Accepted, executionSucceeded = True\<rparr>, risk_onAccepted buy (risk_onAccepted sell2 (risk_onAccepted sell1 Map.empty)), e3)"
    using gateway_takes[OF demo_risk(1) _, of "new_engine h base" 1001 e1] gateway_takes[OF demo_risk(2) _, of e1 1002 e2]
      gateway_takes[OF demo_risk(3) _, of e2 1003 e3] s(1,2) e3(1)
    by (simp_all add: demo_orders)
  show ?thesis
    by (simp add: demo_main_def g e3(2) publish_all_def demo_dispatcher_def addListener_def positions_onTrade_def publisher_onTrade_def
        journal_onTrade_def trade_line_def fill_trade_def resting_1_def pm_position_eq pos_at_onTrade numeral_3_eq_3)
      (simp add: pos_at_def)
qed

end
