(* ===== verification/FpgaEthernet.thy ===== *)
theory FpgaEthernet
  imports PacketReceiver
begin

text \<open>
  The Ethernet parser in hardware (\<^verbatim>\<open>fpga/ethernet/ethernet_parser.sv\<close>) with its stream interface
  (\<^verbatim>\<open>fpga/interfaces/axis_stream_if.sv\<close>), and the board's test design (\<^verbatim>\<open>blink.v\<close>).

  A register file is a record and a clock edge a function on it: all right-hand sides read the values before the
  edge.  The 64 bits of a beat hold eight bytes, the first in the most significant position.  A beat moves
  over a stream at an edge at which the sender's \<^verbatim>\<open>tvalid\<close> and the receiver's \<^verbatim>\<open>tready\<close> are both high.

  The main results: the EtherType the hardware reports is the one the software parser reads from the
  same bytes, for any sequence of frames and any stalls, and what happens to a beat when the receiver stalls.
\<close>

section \<open>The stream interface\<close>

record axis =
  tdata :: u64
  tvalid :: bool
  tlast :: bool

section \<open>The parser\<close>

text \<open>Two bits encode the state; the source names three of the four values.\<close>

datatype state_t = IDLE | READ_HEADER_2 | FORWARD_PAYLOAD | UNNAMED

record ethernet_parser =
  state :: state_t
  dst_mac_reg :: "48 word"
  src_mac_reg :: "48 word"
  ether_type :: u16
  header_valid :: bool
  m_axis :: axis

definition reset :: ethernet_parser where
  "reset = \<lparr>state = IDLE, dst_mac_reg = 0, src_mac_reg = 0, ether_type = 0, header_valid = False,
     m_axis = \<lparr>tdata = 0, tvalid = False, tlast = False\<rparr>\<rparr>"

definition read_header_1 :: "axis \<Rightarrow> ethernet_parser \<Rightarrow> ethernet_parser" where
  "read_header_1 s p = p\<lparr>dst_mac_reg := ucast (drop_bit 16 (tdata s)),
     src_mac_reg := push_bit 32 (ucast (take_bit 16 (tdata s))) OR take_bit 32 (src_mac_reg p),
     state := READ_HEADER_2\<rparr>"

definition read_header_2 :: "axis \<Rightarrow> ethernet_parser \<Rightarrow> ethernet_parser" where
  "read_header_2 s p = p\<lparr>src_mac_reg := push_bit 32 (drop_bit 32 (src_mac_reg p)) OR ucast (drop_bit 32 (tdata s)),
     ether_type := ucast (drop_bit 16 (tdata s)), header_valid := True,
     m_axis := \<lparr>tdata = tdata s, tvalid = True, tlast = tlast s\<rparr>, state := FORWARD_PAYLOAD\<rparr>"

definition forward_payload :: "axis \<Rightarrow> ethernet_parser \<Rightarrow> ethernet_parser" where
  "forward_payload s p = p\<lparr>m_axis := \<lparr>tdata = tdata s, tvalid = True, tlast = tlast s\<rparr>,
     state := (if tlast s then IDLE else state p)\<rparr>"

text \<open>One clock edge, given the reset, the input stream and the \<^verbatim>\<open>tready\<close> of the output, which is also that of the input.\<close>

definition clock_edge :: "bool \<Rightarrow> axis \<Rightarrow> bool \<Rightarrow> ethernet_parser \<Rightarrow> ethernet_parser" where
  "clock_edge rst s tready p =
     (if rst then reset
      else let q = p\<lparr>header_valid := False, m_axis := (m_axis p)\<lparr>tvalid := False, tlast := False\<rparr>\<rparr>
           in if tvalid s \<and> tready
              then (case state p of
                      IDLE \<Rightarrow> read_header_1 s q
                    | READ_HEADER_2 \<Rightarrow> read_header_2 s q
                    | FORWARD_PAYLOAD \<Rightarrow> forward_payload s q
                    | UNNAMED \<Rightarrow> q\<lparr>state := IDLE\<rparr>)
              else q)"

declare read_header_1_def [step_simps] read_header_2_def [step_simps] forward_payload_def [step_simps]

section \<open>The blinking light\<close>

definition blink_edge :: "26 word \<Rightarrow> 26 word" where
  "blink_edge counter = counter + 1"

definition led :: "26 word \<Rightarrow> bool" where
  "led counter = bit counter 25"

section \<open>Runs\<close>

type_synonym cycle = "axis \<times> bool"
type_synonym beat = "u64 \<times> bool"

text \<open>What moves over the input, what the parser offers on its output and reports as header, and what the receiver of
  the output takes.\<close>

fun transfers :: "cycle list \<Rightarrow> beat list" where
  "transfers [] = []"
| "transfers ((s, tready) # cs) = (if tvalid s \<and> tready then [(tdata s, tlast s)] else []) @ transfers cs"

fun run :: "cycle list \<Rightarrow> ethernet_parser \<Rightarrow> ethernet_parser list" where
  "run [] p = []"
| "run ((s, tready) # cs) p = (let q = clock_edge False s tready p in q # run cs q)"

definition final :: "cycle list \<Rightarrow> ethernet_parser \<Rightarrow> ethernet_parser" where
  "final cs p = last (p # run cs p)"

definition header :: "ethernet_parser \<Rightarrow> 48 word \<times> 48 word \<times> u16" where
  "header p = (dst_mac_reg p, src_mac_reg p, ether_type p)"

definition headers :: "ethernet_parser list \<Rightarrow> (48 word \<times> 48 word \<times> u16) list" where
  "headers ps = map header (filter header_valid ps)"

definition pending :: "ethernet_parser \<Rightarrow> beat list" where
  "pending p = (if tvalid (m_axis p) then [(tdata (m_axis p), tlast (m_axis p))] else [])"

definition offered :: "ethernet_parser list \<Rightarrow> beat list" where
  "offered ps = concat (map pending ps)"

fun taken :: "cycle list \<Rightarrow> ethernet_parser \<Rightarrow> beat list" where
  "taken [] p = []"
| "taken ((s, tready) # cs) p =
     (if tready then pending p else []) @ taken cs (clock_edge False s tready p)"

text \<open>A frame as words, its bytes, and its beats with the last one marked.\<close>

definition frame_mem :: "u64 list \<Rightarrow> buffer" where
  "frame_mem f = concat (map (be_bytes 8) f)"

definition frame_beats :: "u64 list \<Rightarrow> beat list" where
  "frame_beats f = map (\<lambda>w. (w, False)) (butlast f) @ [(last f, True)]"

section \<open>Bytes of the header\<close>

lemma be_bytes_8: "be_bytes 8 d = map (\<lambda>k. ucast (drop_bit k d)) [56, 48, 40, 32, 24, 16, 8, 0]"
  by (simp add: be_bytes_def upt_rec)

lemma be_bytes_6: "be_bytes 6 d = map (\<lambda>k. ucast (drop_bit k d)) [40, 32, 24, 16, 8, 0]"
  by (simp add: be_bytes_def upt_rec)

lemma be_bytes_2: "be_bytes 2 d = map (\<lambda>k. ucast (drop_bit k d)) [8, 0]"
  by (simp add: be_bytes_def upt_rec)

lemma dst_mac_bytes: "be_bytes 6 (ucast (drop_bit 16 (d :: u64)) :: 48 word) = take 6 (be_bytes 8 d)"
  unfolding be_bytes_6 be_bytes_8 by (auto intro!: bit_eqI simp: bit_simps)

lemma src_mac_bytes:
  "be_bytes 6 (push_bit 32 (drop_bit 32 (push_bit 32 (ucast (take_bit 16 (d :: u64))) OR take_bit 32 m)) OR ucast (drop_bit 32 (e :: u64)) :: 48 word) =
     drop 6 (be_bytes 8 d) @ take 4 (be_bytes 8 e)"
  unfolding be_bytes_6 be_bytes_8 by (auto intro!: bit_eqI simp: bit_simps) (drule bit_imp_le_length, simp)+

lemma ether_type_bytes: "be_bytes 2 (ucast (drop_bit 16 (d :: u64)) :: u16) = take 2 (drop 4 (be_bytes 8 d))"
  unfolding be_bytes_2 be_bytes_8 by (auto intro!: bit_eqI simp: bit_simps)

lemma etherType_frame:
  assumes "2 \<le> length f"
  shows "etherType E (frame_mem f) (eth_parse (Some 0, length (frame_mem f))) = Some (ucast (drop_bit 16 (f ! 1)))"
proof -
  obtain d e r where f: "f = d # e # r" using assms by (metis One_nat_def Suc_le_length_iff numeral_2_eq_2)
  have m: "frame_mem f = be_bytes 8 d @ be_bytes 8 e @ frame_mem r" by (simp add: frame_mem_def f)
  have "(be_load E (frame_mem f) 12 :: u16 option) = Some (be_word (take 2 (drop 12 (frame_mem f))))"
    by (rule n16.rd_ok) (simp add: m)
  also have "take 2 (drop 12 (frame_mem f)) = be_bytes 2 (ucast (drop_bit 16 e) :: u16)"
    by (simp add: m ether_type_bytes)
  finally have "(be_load E (frame_mem f) 12 :: u16 option) = Some (ucast (drop_bit 16 e))" by (simp del: ucast_drop_bit_eq)
  moreover have "14 \<le> length (frame_mem f)" "f ! 1 = e" by (simp_all add: m) (simp add: f)
  ultimately show ?thesis by (simp add: etherType_def eth_parse_def EthernetHeader_size_def)
qed

section \<open>What only the transfers decide\<close>

text \<open>The parser on the beats that moved, without clock and handshake.\<close>

fun walk :: "state_t \<Rightarrow> 48 word \<Rightarrow> 48 word \<Rightarrow> beat list \<Rightarrow> (48 word \<times> 48 word \<times> u16) list \<times> beat list \<times> state_t" where
  "walk st dst src [] = ([], [], st)"
| "walk IDLE dst src ((d, l) # bs) =
     walk READ_HEADER_2 (ucast (drop_bit 16 d)) (push_bit 32 (ucast (take_bit 16 d)) OR take_bit 32 src) bs"
| "walk READ_HEADER_2 dst src ((d, l) # bs) =
     (let src' = push_bit 32 (drop_bit 32 src) OR ucast (drop_bit 32 d)
      in case walk FORWARD_PAYLOAD dst src' bs of
           (hs, os, st) \<Rightarrow> ((dst, src', ucast (drop_bit 16 d)) # hs, (d, l) # os, st))"
| "walk FORWARD_PAYLOAD dst src ((d, l) # bs) =
     (case walk (if l then IDLE else FORWARD_PAYLOAD) dst src bs of (hs, os, st) \<Rightarrow> (hs, (d, l) # os, st))"
| "walk UNNAMED dst src ((d, l) # bs) = walk IDLE dst src bs"

lemma final_simps [simp]: "final [] p = p" "final ((s, tready) # cs) p = final cs (clock_edge False s tready p)"
  by (simp_all add: final_def Let_def)

lemma edge_stalled:
  "\<not> (tvalid s \<and> tready) \<Longrightarrow> state (clock_edge False s tready p) = state p \<and>
     dst_mac_reg (clock_edge False s tready p) = dst_mac_reg p \<and> src_mac_reg (clock_edge False s tready p) = src_mac_reg p \<and>
     \<not> header_valid (clock_edge False s tready p) \<and> pending (clock_edge False s tready p) = []"
  by (auto simp: clock_edge_def Let_def pending_def)

lemma edge_moves:
  assumes "tvalid s"
  shows "clock_edge False s True p =
    (let q = p\<lparr>header_valid := False, m_axis := (m_axis p)\<lparr>tvalid := False, tlast := False\<rparr>\<rparr>
     in case state p of IDLE \<Rightarrow> read_header_1 s q | READ_HEADER_2 \<Rightarrow> read_header_2 s q
        | FORWARD_PAYLOAD \<Rightarrow> forward_payload s q | UNNAMED \<Rightarrow> q\<lparr>state := IDLE\<rparr>)"
  using assms by (simp add: clock_edge_def)

lemma run_walk:
  "(headers (run cs p), offered (run cs p), state (final cs p)) = walk (state p) (dst_mac_reg p) (src_mac_reg p) (transfers cs)"
proof (induction cs arbitrary: p)
  case (Cons c cs)
  obtain s tready where c: "c = (s, tready)" by force
  let ?q = "clock_edge False s tready p"
  show ?case
  proof (cases "tvalid s \<and> tready")
    case False
    then have "transfers (c # cs) = transfers cs" by (auto simp: c)
    then show ?thesis using Cons.IH[of ?q] edge_stalled[OF False, of p] by (simp add: c Let_def headers_def offered_def)
  next
    case True
    show ?thesis
      using Cons.IH[of ?q] True
      by (cases "state p") (simp_all add: c Let_def headers_def offered_def pending_def header_def edge_moves step_simps
          prod_eq_iff case_prod_unfold split: if_splits)
  qed
qed (simp add: headers_def offered_def)

text \<open>With a receiver that is always ready nothing offered is lost.\<close>

lemma taken_ready: "\<forall>c\<in>set cs. snd c \<Longrightarrow> taken cs p @ pending (final cs p) = pending p @ offered (run cs p)"
  by (induction cs arbitrary: p) (auto simp: offered_def Let_def)

lemma taken_append: "taken (cs @ ds) p = taken cs p @ taken ds (final cs p)"
  by (induction cs arbitrary: p) auto

lemma transfers_append: "transfers (cs @ ds) = transfers cs @ transfers ds"
  by (induction cs rule: transfers.induct) auto

section \<open>Whole frames\<close>

lemma frame_beats_Cons: "f \<noteq> [] \<Longrightarrow> frame_beats (d # f) = (d, False) # frame_beats f"
  by (simp add: frame_beats_def)

lemma walk_payload:
  "f \<noteq> [] \<Longrightarrow> walk FORWARD_PAYLOAD dst src (frame_beats f @ bs) =
     (case walk IDLE dst src bs of (hs, os, st) \<Rightarrow> (hs, frame_beats f @ os, st))"
proof (induction f)
  case (Cons d f)
  then show ?case
    by (cases "f = []") (simp_all add: frame_beats_Cons case_prod_unfold, simp add: frame_beats_def case_prod_unfold)
qed simp

definition header_of :: "u64 list \<Rightarrow> 48 word \<times> 48 word \<times> u16 \<Rightarrow> bool" where
  "header_of f = (\<lambda>(dst, src, et). be_bytes 6 dst @ be_bytes 6 src @ be_bytes 2 et = take 14 (frame_mem f))"

lemma walk_frame:
  assumes "3 \<le> length f"
  shows "\<exists>h dst' src'. header_of f h \<and> snd (snd h) = ucast (drop_bit 16 (f ! 1)) \<and>
    walk IDLE dst src (frame_beats f @ bs) =
      (case walk IDLE dst' src' bs of (hs, os, st) \<Rightarrow> (h # hs, tl (frame_beats f) @ os, st))"
proof -
  obtain d e r where f: "f = d # e # r" "r \<noteq> []"
    using assms by (cases f; cases "tl f"; cases "tl (tl f)") auto
  let ?dst = "ucast (drop_bit 16 d) :: 48 word"
    and ?src = "push_bit 32 (drop_bit 32 (push_bit 32 (ucast (take_bit 16 d)) OR take_bit 32 src)) OR ucast (drop_bit 32 e) :: 48 word"
  have "header_of f (?dst, ?src, ucast (drop_bit 16 e))"
    unfolding header_of_def prod.case dst_mac_bytes src_mac_bytes ether_type_bytes by (simp add: frame_mem_def f be_bytes_8)
  moreover have "walk IDLE dst src (frame_beats f @ bs) =
      (case walk IDLE ?dst ?src bs of (hs, os, st) \<Rightarrow> ((?dst, ?src, ucast (drop_bit 16 e)) # hs, tl (frame_beats f) @ os, st))"
    using f(2) by (simp add: f(1) frame_beats_Cons walk_payload Let_def case_prod_unfold)
  ultimately show ?thesis by (intro exI[of _ "(?dst, ?src, ucast (drop_bit 16 e))"] exI[of _ ?dst] exI[of _ ?src]) (simp add: f(1))
qed

lemma walk_frames:
  assumes "\<forall>f\<in>set fs. 3 \<le> length f"
  shows "\<exists>hs. list_all2 (\<lambda>h f. header_of f h \<and> snd (snd h) = ucast (drop_bit 16 (f ! 1))) hs fs \<and>
    walk IDLE dst src (concat (map frame_beats fs)) = (hs, concat (map (\<lambda>f. tl (frame_beats f)) fs), IDLE)"
  using assms
proof (induction fs arbitrary: dst src)
  case (Cons f fs)
  obtain h dst' src' where 1: "header_of f h" "snd (snd h) = ucast (drop_bit 16 (f ! 1))"
    "walk IDLE dst src (frame_beats f @ concat (map frame_beats fs)) =
      (case walk IDLE dst' src' (concat (map frame_beats fs)) of (hs, os, st) \<Rightarrow> (h # hs, tl (frame_beats f) @ os, st))"
    using walk_frame[of f dst src "concat (map frame_beats fs)"] Cons.prems by auto
  obtain hs where "list_all2 (\<lambda>h f. header_of f h \<and> snd (snd h) = ucast (drop_bit 16 (f ! 1))) hs fs"
    "walk IDLE dst' src' (concat (map frame_beats fs)) = (hs, concat (map (\<lambda>f. tl (frame_beats f)) fs), IDLE)"
    using Cons.IH[of dst' src'] Cons.prems by (meson list.set_intros(2))
  with 1 show ?case by (intro exI[of _ "h # hs"]) simp
qed simp

section \<open>A stall\<close>

definition beat_axis :: "beat \<Rightarrow> axis" where
  "beat_axis b = \<lparr>tdata = fst b, tvalid = True, tlast = snd b\<rparr>"

definition idle_axis :: axis where
  "idle_axis = \<lparr>tdata = 0, tvalid = False, tlast = False\<rparr>"

text \<open>A frame sent without a pause, while the receiver is not ready for one cycle, the one after beat \<open>k\<close> came in.\<close>

definition stalled_at :: "nat \<Rightarrow> u64 list \<Rightarrow> cycle list" where
  "stalled_at k f = (let bs = frame_beats f in
     map (\<lambda>b. (beat_axis b, True)) (take (Suc k) bs) @ [(beat_axis (bs ! Suc k), False)] @
     map (\<lambda>b. (beat_axis b, True)) (drop (Suc k) bs) @ [(idle_axis, True)])"

lemma transfers_ready: "transfers (map (\<lambda>b. (beat_axis b, True)) bs) = bs"
  by (induction bs) (auto simp: beat_axis_def)

lemma transfers_stalled: "transfers (stalled_at k f) = frame_beats f"
  by (simp add: stalled_at_def Let_def transfers_append transfers_ready) (simp add: beat_axis_def idle_axis_def)

lemma walk_unmarked:
  "\<forall>b\<in>set bs. \<not> snd b \<Longrightarrow> walk FORWARD_PAYLOAD dst src bs = ([], bs, FORWARD_PAYLOAD)"
  by (induction bs) auto

lemma take_beats:
  assumes "n < length f"
  shows "take n (frame_beats f) = map (\<lambda>w. (w, False)) (take n f)"
  using assms by (auto simp: frame_beats_def take_map butlast_conv_take min_def)

lemma walk_drop:
  "n < length f \<Longrightarrow> fst (snd (walk FORWARD_PAYLOAD dst src (drop n (frame_beats f)))) = drop n (frame_beats f)"
proof -
  assume n: "n < length f"
  then have "drop n (frame_beats f) = frame_beats (drop n f)"
    by (simp add: frame_beats_def drop_map drop_butlast)
  with n walk_payload[of "drop n f" dst src "[]"] show ?thesis by simp
qed

lemma length_frame_beats: "f \<noteq> [] \<Longrightarrow> length (frame_beats f) = length f"
  by (cases f rule: rev_cases) (simp_all add: frame_beats_def)

lemma offered_walk: "offered (run cs p) = fst (snd (walk (state p) (dst_mac_reg p) (src_mac_reg p) (transfers cs)))"
  and state_walk: "state (final cs p) = snd (snd (walk (state p) (dst_mac_reg p) (src_mac_reg p) (transfers cs)))"
  using run_walk[of cs p] by (metis fst_conv snd_conv)+

lemma walk_prefix:
  assumes "ws \<noteq> []"
  shows "fst (snd (walk IDLE dst src (map (\<lambda>w. (w, False)) ws))) = tl (map (\<lambda>w. (w, False)) ws)"
    "snd (snd (walk IDLE dst src (map (\<lambda>w. (w, False)) ws))) = (if tl ws = [] then READ_HEADER_2 else FORWARD_PAYLOAD)"
  using assms by (cases ws; cases "tl ws"; simp add: walk_unmarked Let_def)+

lemma edge_forwards:
  "state p \<in> {READ_HEADER_2, FORWARD_PAYLOAD} \<Longrightarrow> pending (clock_edge False (beat_axis b) True p) = [b]"
  "state p \<in> {READ_HEADER_2, FORWARD_PAYLOAD} \<Longrightarrow> \<not> snd b \<Longrightarrow> state (clock_edge False (beat_axis b) True p) = FORWARD_PAYLOAD"
  by (auto simp: clock_edge_def beat_axis_def step_simps pending_def Let_def)

lemma final_append: "final (cs @ ds) p = final ds (final cs p)"
  by (induction cs arbitrary: p) auto

lemma taken_stalled:
  assumes "state p = IDLE" "pending p = []" "0 < k" "Suc k < length f"
  shows "taken (stalled_at k f) p = tl (take k (frame_beats f)) @ drop (Suc k) (frame_beats f)"
proof -
  let ?bs = "frame_beats f" and ?ready = "map (\<lambda>b. (beat_axis b, True))"
  have len: "length ?bs = length f" using assms(4) by (intro length_frame_beats) auto
  define q0 where "q0 = final (?ready (take k ?bs)) p"
  define q where "q = clock_edge False (beat_axis (?bs ! k)) True q0"
  define q' where "q' = clock_edge False (beat_axis (?bs ! Suc k)) False q"
  have pre: "take k ?bs = map (\<lambda>w. (w, False)) (take k f)" "take k f \<noteq> []" using assms(3,4) by (auto simp: take_beats)
  have q0: "state q0 \<in> {READ_HEADER_2, FORWARD_PAYLOAD}" "taken (?ready (take k ?bs)) p @ pending q0 = tl (take k ?bs)"
    using walk_prefix[OF pre(2), folded pre(1)] taken_ready[of "?ready (take k ?bs)" p] assms(1,2)
    by (simp_all add: q0_def state_walk offered_walk transfers_ready)
  have "k < length f - 1" using assms(4) by simp
  then have "\<not> snd (?bs ! k)" by (simp add: frame_beats_def nth_append)
  then have q: "pending q = [?bs ! k]" "state q = FORWARD_PAYLOAD" using edge_forwards[OF q0(1)] by (simp_all add: q_def)
  have q': "pending q' = []" "state q' = FORWARD_PAYLOAD"
    using edge_stalled[of "beat_axis (?bs ! Suc k)" False q] q(2) by (simp_all add: q'_def)
  have "taken (?ready (drop (Suc k) ?bs)) q' @ pending (final (?ready (drop (Suc k) ?bs)) q') = drop (Suc k) ?bs"
    using taken_ready[of "?ready (drop (Suc k) ?bs)" q'] q' walk_drop[OF assms(4)] by (simp add: offered_walk transfers_ready)
  moreover have "take (Suc k) ?bs = take k ?bs @ [?bs ! k]" using assms(4) len by (simp add: take_Suc_conv_app_nth)
  ultimately show ?thesis
    using q0(2) by (simp add: stalled_at_def Let_def taken_append final_append flip: q0_def q_def q'_def)
qed

text \<open>A frame that ends with its second beat leaves the parser behind: it takes the next frame for payload.\<close>

lemma short_frame_forwards:
  assumes "state p = IDLE" "transfers cs = frame_beats [d, e] @ frame_beats f" "f \<noteq> []"
  shows "length (headers (run cs p)) = 1" "offered (run cs p) = (e, True) # frame_beats f"
proof -
  have "frame_beats [d, e] = [(d, False), (e, True)]" by (simp add: frame_beats_def)
  then show "length (headers (run cs p)) = 1" "offered (run cs p) = (e, True) # frame_beats f"
    using run_walk[of cs p] assms walk_payload[OF assms(3), where bs = "[]"] by (simp_all add: Let_def)
qed

section \<open>The light\<close>

lemma blink_count: "(blink_edge ^^ n) 0 = of_nat n"
  by (induction n) (simp_all add: blink_edge_def add.commute)

text \<open>The light is on in the second half of every \<open>2\<^sup>2\<^sup>6\<close> cycles.\<close>

lemma led_period: "led ((blink_edge ^^ n) 0) \<longleftrightarrow> 2 ^ 25 \<le> n mod 2 ^ 26"
proof -
  have "led ((blink_edge ^^ n) 0) \<longleftrightarrow> bit (unat (of_nat n :: 26 word)) 25"
    by (simp add: led_def blink_count bit_unsigned_iff del: unsigned_of_nat)
  also have "\<dots> \<longleftrightarrow> bit n 25" by (simp add: unsigned_of_nat bit_take_bit_iff)
  also have "\<dots> \<longleftrightarrow> odd (n div 2 ^ 25)" by (rule bit_iff_odd)
  finally have l: "led ((blink_edge ^^ n) 0) \<longleftrightarrow> n div 2 ^ 25 mod 2 = 1" by (simp only: odd_iff_mod_2_eq_one)
  have "n mod (2 ^ 25 * 2) = 2 ^ 25 * (n div 2 ^ 25 mod 2) + n mod 2 ^ 25" by (rule mod_mult2_eq)
  moreover have "n mod 2 ^ 25 < 2 ^ 25" "n div 2 ^ 25 mod 2 = 0 \<or> n div 2 ^ 25 mod 2 = 1" by auto
  moreover have "(2 :: nat) ^ 26 = 2 ^ 25 * 2" by simp
  ultimately show ?thesis unfolding l by (metis le_add1 mult_0_right mult_1_right add_0 leD zero_neq_one)
qed

section \<open>Properties\<close>

text \<open>C29. The hardware parser agrees with the software parser: over any sequence of frames of at least three beats, with any
  pauses of the sender and any stalls of the receiver, it reports one header per frame, whose addresses and EtherType
  are the first 14 bytes of the frame and whose EtherType is the one the software reads there; it offers the beats from the
  second on with the end of the frame marked, and is ready for the next frame; and a receiver that is always ready takes all it offers.\<close>

theorem fpga_frames:
  assumes "state p = IDLE" "\<forall>f\<in>set fs. 3 \<le> length f" "transfers cs = concat (map frame_beats fs)"
  shows "list_all2 (\<lambda>h f. header_of f h \<and>
        etherType E (frame_mem f) (eth_parse (Some 0, length (frame_mem f))) = Some (snd (snd h))) (headers (run cs p)) fs \<and>
    offered (run cs p) = concat (map (\<lambda>f. tl (frame_beats f)) fs) \<and> state (final cs p) = IDLE \<and>
    ((\<forall>c\<in>set cs. snd c) \<longrightarrow> taken cs p @ pending (final cs p) = pending p @ offered (run cs p))"
proof -
  obtain hs where hs: "list_all2 (\<lambda>h f. header_of f h \<and> snd (snd h) = ucast (drop_bit 16 (f ! 1))) hs fs"
    "walk IDLE (dst_mac_reg p) (src_mac_reg p) (concat (map frame_beats fs)) = (hs, concat (map (\<lambda>f. tl (frame_beats f)) fs), IDLE)"
    using walk_frames[OF assms(2)] by blast
  have r: "headers (run cs p) = hs" "offered (run cs p) = concat (map (\<lambda>f. tl (frame_beats f)) fs)" "state (final cs p) = IDLE"
    using run_walk[of cs p] unfolding assms(1,3) hs(2) by simp_all
  have "list_all2 (\<lambda>h f. header_of f h \<and>
        etherType E (frame_mem f) (eth_parse (Some 0, length (frame_mem f))) = Some (snd (snd h))) hs fs"
  proof (rule list.rel_mono_strong[OF hs(1)])
    fix h f assume "f \<in> set fs" "header_of f h \<and> snd (snd h) = ucast (drop_bit 16 (f ! 1))"
    with etherType_frame[of f E] assms(2) show "header_of f h \<and>
        etherType E (frame_mem f) (eth_parse (Some 0, length (frame_mem f))) = Some (snd (snd h))" by fastforce
  qed
  then show ?thesis using r taken_ready[of cs p] by simp
qed

definition demo_words :: "u64 list" where
  "demo_words = [0x0102030405060708, 0x090A0B0C08004500, 0x0011223344556677, 0x8899AABBCCDDEEFF]"

theorem fpga_frames_witness:
  "map (\<lambda>h. snd (snd h)) (headers (run (map (\<lambda>b. (beat_axis b, True)) (frame_beats demo_words @ frame_beats demo_words)) reset)) =
     [0x0800, 0x0800]"
proof -
  let ?cs = "map (\<lambda>b. (beat_axis b, True)) (frame_beats demo_words @ frame_beats demo_words)"
  have t: "transfers ?cs = concat (map frame_beats [demo_words, demo_words])" by (simp only: transfers_ready) simp
  have "state reset = IDLE" "\<forall>f\<in>set [demo_words, demo_words]. 3 \<le> length f" by (simp_all add: reset_def demo_words_def)
  from fpga_frames[OF this t, of Little]
  have "list_all2 (\<lambda>h f. header_of f h \<and> etherType Little (frame_mem f) (eth_parse (Some 0, length (frame_mem f))) = Some (snd (snd h)))
      (headers (run ?cs reset)) [demo_words, demo_words]" by blast
  moreover have "etherType Little (frame_mem demo_words) (eth_parse (Some 0, length (frame_mem demo_words))) = Some 0x0800"
    using etherType_frame[of demo_words Little] by (simp add: demo_words_def)
  ultimately show ?thesis by (auto simp: list_all2_Cons2)
qed

text \<open>C37. A stall of the receiver costs a beat: the parser withdraws what it offers after one cycle, taken or not, although the sender
  has been told that the beat moved.  Whichever beat between the second and the last but one it concerns, the whole
  frame moves over the input and the receiver takes all offered beats but that one.\<close>

theorem fpga_stall_loses_beat:
  assumes "state p = IDLE" "pending p = []" "0 < k" "Suc k < length f"
  shows "transfers (stalled_at k f) = frame_beats f \<and>
    taken (stalled_at k f) p = tl (take k (frame_beats f)) @ drop (Suc k) (frame_beats f)"
  using transfers_stalled taken_stalled[OF assms] by blast

theorem fpga_stall_loses_beat_witness:
  "taken (stalled_at 2 demo_words) reset = [(0x090A0B0C08004500, False), (0x8899AABBCCDDEEFF, True)]"
  using fpga_stall_loses_beat[of reset 2 demo_words]
  by (simp add: reset_def pending_def demo_words_def frame_beats_def numeral_2_eq_2)

end
