(* ===== verification/Platform.thy ===== *)
theory Platform
  imports ItchFeed
begin

text \<open>
  Tools and platform services around the trading code: the ITCH test sender (\<^verbatim>\<open>tools/itch/itch_sender.cpp\<close>), the capture
  file reader (\<^verbatim>\<open>market_data/replay/pcap_replay_reader.cpp\<close>), NUMA memory and thread pinning
  (\<^verbatim>\<open>common/numa_utils.cpp\<close>, \<^verbatim>\<open>common/thread_affinity.cpp\<close>) and the asynchronous logger (\<^verbatim>\<open>logging/async_logger.cpp\<close>).
  Sockets, libpcap, libnuma, the scheduler and spdlog are parameters: what their calls return.
\<close>

section \<open>The ITCH sender\<close>

definition hostToBigEndian64 :: "endian \<Rightarrow> u64 \<Rightarrow> u64" where
  "hostToBigEndian64 E value = (case E of Little \<Rightarrow> byteswap value | Big \<Rightarrow> value)"

text \<open>The packed structure the sender fills, in the order of its fields.\<close>

record AddOrderWireMessage =
  am_message_type :: u8
  am_stock_locate :: u16
  am_tracking_number :: u16
  am_timestamp :: "u8 list"
  am_order_reference_number :: u64
  am_buy_sell_indicator :: u8
  am_shares :: u32
  am_stock :: "u8 list"
  am_price :: u32

definition struct_bytes :: "endian \<Rightarrow> AddOrderWireMessage \<Rightarrow> buffer" where
  "struct_bytes E m = [am_message_type m] @ native_bytes E (am_stock_locate m) @ native_bytes E (am_tracking_number m) @
     am_timestamp m @ native_bytes E (am_order_reference_number m) @ [am_buy_sell_indicator m] @ native_bytes E (am_shares m) @
     am_stock m @ native_bytes E (am_price m)"

definition sender_message :: "endian \<Rightarrow> AddOrderWireMessage" where
  "sender_message E = \<lparr>am_message_type = ch_A, am_stock_locate = toBigEndian E 1, am_tracking_number = toBigEndian E 1,
     am_timestamp = replicate 6 0, am_order_reference_number = hostToBigEndian64 E 12345, am_buy_sell_indicator = ch_B,
     am_shares = toBigEndian E 100, am_stock = [ch_A, ch_A, ch_P, ch_L, ch_space, ch_space, ch_space, ch_space],
     am_price = toBigEndian E 50000\<rparr>"

datatype sender_call = SendTo buffer | Close int

text \<open>The program over the results of \<^verbatim>\<open>socket\<close>, \<^verbatim>\<open>inet_pton\<close> and \<^verbatim>\<open>sendto\<close>: its exit code and the calls it makes.\<close>

definition sender_main :: "endian \<Rightarrow> int \<Rightarrow> int \<Rightarrow> int \<Rightarrow> int \<times> sender_call list" where
  "sender_main E sock pton sent =
     (let message = struct_bytes E (sender_message E)
      in if sock < 0 then (1, [])
         else if pton \<noteq> 1 then (1, [Close sock])
         else if sent \<noteq> int (length message) then (1, [SendTo message, Close sock])
         else (0, [SendTo message, Close sock]))"

lemma sender_bytes:
  "struct_bytes E (sender_message E) = message_bytes (1, 1, replicate 6 0, BAdd 12345 ch_B 100 AAPL 50000)"
proof -
  have "hostToBigEndian64 E v = toBigEndian E v" for v by (cases E) (simp_all add: hostToBigEndian64_def toBigEndian_def)
  then show ?thesis
    by (simp add: struct_bytes_def sender_message_def itch_bytes_def AAPL_def native_bytes_to[where n = 2] native_bytes_to[where n = 4]
        native_bytes_to[where n = 8])
qed

text \<open>The datagram, in any well-formed frame to port 9000, gives the receiver the order the sender means, on hosts of either byte order; and an opened socket
  is closed on every path.\<close>

lemma sender_received:
  assumes "frame_ok f" "mb_data m = frame_bytes f" "mb_pkt_len m = length (frame_bytes f)" "fr_dport f = 9000"
    "SendTo (fr_payload f) \<in> set (snd (sender_main S sock pton sent))"
  shows "\<exists>r'. rx_packet E (Some (udp_sink_submit E submit)) m r = Some r' \<and> sink_state r' =
    snd (submit (default_event\<lparr>ev_type := AddOrderEvent, ev_orderId := 12345, ev_side := Buy, ev_symbol := AAPL, ev_price := 50000,
      ev_quantity := 100\<rparr>) (sink_state r))"
proof -
  let ?msg = "(1, 1, replicate 6 0, BAdd 12345 ch_B 100 AAPL 50000)"
  have p: "fr_payload f = message_bytes ?msg"
    using assms(5) by (auto simp: sender_main_def sender_bytes Let_def simp del: message_bytes.simps split: if_splits)
  have "message_ok ?msg" by (simp add: AAPL_def)
  from frame_event[OF assms(1-4) this p, of E submit r] show ?thesis by (auto simp: default_event_def)
qed

lemma sender_closes: "0 \<le> sock \<Longrightarrow> last (snd (sender_main E sock pton sent)) = Close sock"
  by (simp add: sender_main_def Let_def)

section \<open>Capture files\<close>

datatype pcap_failure = OpenFailed | ReadFailed

type_synonym packet_out = "u8 list option \<times> nat"

text \<open>\<^verbatim>\<open>pcap_next_ex\<close> returns 1 with a packet, \<^verbatim>\<open>PCAP_ERROR_BREAK\<close> (-2) at the end of the file and \<^verbatim>\<open>PCAP_ERROR\<close> (-1) upon an error.\<close>

definition pcap_reader_open :: "bool \<Rightarrow> pcap_failure + unit" where
  "pcap_reader_open handle = (if handle then Inr () else Inl OpenFailed)"

definition nextPacket :: "int \<times> u8 list \<Rightarrow> packet_out \<Rightarrow> pcap_failure + bool \<times> packet_out" where
  "nextPacket reply out = (case reply of (result, packet_data) \<Rightarrow>
     if result = 1 then Inr (True, Some packet_data, length packet_data)
     else if result = -2 then Inr (False, None, 0)
     else if result = -1 then Inl ReadFailed
     else Inr (False, out))"

text \<open>Reading until \<^verbatim>\<open>nextPacket\<close> returns false.\<close>

fun read_capture :: "packet_out \<Rightarrow> (int \<times> u8 list) list \<Rightarrow> (pcap_failure + u8 list list) option" where
  "read_capture out [] = None"
| "read_capture out (reply # replies) =
     (case nextPacket reply out of
        Inl failure \<Rightarrow> Some (Inl failure)
      | Inr (False, out') \<Rightarrow> Some (Inr [])
      | Inr (True, out') \<Rightarrow> map_option (map_sum id (\<lambda>ps. the (fst out') # ps)) (read_capture out' replies))"

lemma read_capture_all:
  "read_capture out (map (Pair 1) packets @ (-2, bs) # rest) = Some (Inr packets)"
  by (induction packets arbitrary: out) (simp_all add: nextPacket_def)

lemma read_capture_fails:
  "read_capture out (map (Pair 1) packets @ (-1, bs) # rest) = Some (Inl ReadFailed)"
  by (induction packets arbitrary: out) (simp_all add: nextPacket_def)

section \<open>NUMA memory\<close>

record numa =
  nm_available :: int
  nm_max_node :: int
  nm_getcpu :: int
  nm_node_of_cpu :: "int \<Rightarrow> int"
  nm_alloc :: "nat \<Rightarrow> int \<Rightarrow> nat option"
  nm_blocks :: "(nat \<times> nat) list"

definition numa_isAvailable :: "numa \<Rightarrow> bool" where
  "numa_isAvailable n \<longleftrightarrow> nm_available n \<ge> 0"

definition nodeCount :: "numa \<Rightarrow> int" where
  "nodeCount n = (if \<not> numa_isAvailable n then 0 else nm_max_node n + 1)"

definition currentCpuNode :: "numa \<Rightarrow> int" where
  "currentCpuNode n =
     (if \<not> numa_isAvailable n then -1
      else let cpu = nm_getcpu n in if cpu < 0 then -1 else nm_node_of_cpu n cpu)"

definition isValidNode :: "int \<Rightarrow> numa \<Rightarrow> bool" where
  "isValidNode node n \<longleftrightarrow> node \<ge> 0 \<and> node < nodeCount n"

definition allocateOnNode :: "nat \<Rightarrow> int \<Rightarrow> numa \<Rightarrow> nat option \<times> numa" where
  "allocateOnNode bytes node n =
     (if bytes = 0 \<or> \<not> isValidNode node n then (None, n)
      else case nm_alloc n bytes node of
        None \<Rightarrow> (None, n)
      | Some memory \<Rightarrow> (Some memory, n\<lparr>nm_blocks := (memory, bytes) # nm_blocks n\<rparr>))"

definition freeMemory :: "nat option \<Rightarrow> nat \<Rightarrow> numa \<Rightarrow> numa" where
  "freeMemory memory bytes n =
     (case memory of
        None \<Rightarrow> n
      | Some m \<Rightarrow> if bytes = 0 then n else n\<lparr>nm_blocks := remove1 (m, bytes) (nm_blocks n)\<rparr>)"

text \<open>Memory comes from an existing node only, and freeing what was allocated, null included, gives back everything.\<close>

lemma allocate_free:
  assumes "allocateOnNode bytes node n = (memory, n')"
  shows "freeMemory memory bytes n' = n" "memory \<noteq> None \<Longrightarrow> numa_isAvailable n \<and> 0 \<le> node \<and> node \<le> nm_max_node n \<and> 0 < bytes"
  using assms
  by (auto simp: allocateOnNode_def freeMemory_def isValidNode_def nodeCount_def split: if_splits option.splits)

section \<open>Thread affinity\<close>

text \<open>\<^verbatim>\<open>CPU_SET\<close> has no effect for an index of \<^verbatim>\<open>CPU_SETSIZE\<close> (1024) or more.\<close>

definition pinCurrentThreadToCpu :: "(nat set \<Rightarrow> int) \<Rightarrow> nat \<Rightarrow> bool" where
  "pinCurrentThreadToCpu setaffinity cpuIndex =
     (let cpuSet = (if cpuIndex < 1024 then insert cpuIndex {} else {}) in setaffinity cpuSet = 0)"

text \<open>As the scheduler refuses a set without a usable processor, pinning succeeds for processors of the machine only.\<close>

lemma pin_existing:
  assumes "\<And>S. setaffinity S = 0 \<longleftrightarrow> S \<inter> cpus \<noteq> {}"
  shows "pinCurrentThreadToCpu setaffinity cpu \<longleftrightarrow> cpu \<in> cpus \<and> cpu < 1024"
  using assms by (auto simp: pinCurrentThreadToCpu_def)

section \<open>The logger\<close>

record logging =
  lg_logger :: "string option"
  lg_registered :: "string list"
  lg_pool :: "(nat \<times> nat) option"
  lg_flushes :: nat

text \<open>\<^verbatim>\<open>register_logger\<close> throws when the name is taken (\<open>None\<close>).\<close>

definition log_initialize :: "string \<Rightarrow> logging \<Rightarrow> logging option" where
  "log_initialize filePath l =
     (if lg_logger l \<noteq> None then Some l
      else let l1 = l\<lparr>lg_pool := Some (8192, 1), lg_logger := Some filePath\<rparr>
           in if ''openhft'' \<in> set (lg_registered l1) then None
              else Some (l1\<lparr>lg_registered := ''openhft'' # lg_registered l1\<rparr>))"

text \<open>\<^verbatim>\<open>spdlog::shutdown\<close> drops all loggers and the thread pool.\<close>

definition log_shutdown :: "logging \<Rightarrow> logging" where
  "log_shutdown l =
     (if lg_logger l = None then l
      else let l1 = l\<lparr>lg_flushes := lg_flushes l + 1\<rparr>;
               l2 = l1\<lparr>lg_registered := removeAll ''openhft'' (lg_registered l1)\<rparr>;
               l3 = l2\<lparr>lg_logger := None\<rparr>
           in l3\<lparr>lg_registered := [], lg_pool := None\<rparr>)"

declare log_initialize_def [step_simps] log_shutdown_def [step_simps]

definition log_get :: "logging \<Rightarrow> string option" where
  "log_get l = lg_logger l"

definition log_inv :: "logging \<Rightarrow> bool" where
  "log_inv l \<longleftrightarrow> (if lg_logger l = None then lg_registered l = [] \<and> lg_pool l = None
     else lg_registered l = [''openhft''] \<and> lg_pool l = Some (8192, 1))"

inductive log_reach :: "logging \<Rightarrow> bool" where
  log_begin: "log_reach \<lparr>lg_logger = None, lg_registered = [], lg_pool = None, lg_flushes = 0\<rparr>"
| log_init: "log_reach l \<Longrightarrow> log_initialize filePath l = Some l' \<Longrightarrow> log_reach l'"
| log_end: "log_reach l \<Longrightarrow> log_reach (log_shutdown l)"

lemma log_reach_inv: "log_reach l \<Longrightarrow> log_inv l"
  by (induction rule: log_reach.induct) (auto simp: log_inv_def step_simps Let_def split: if_splits)

text \<open>In any order of calls, initialising returns, keeps a logger that exists and otherwise makes one for the file; shutting down leaves nothing.\<close>

lemma log_initialize_ok:
  assumes "log_reach l"
  shows "\<exists>l'. log_initialize filePath l = Some l' \<and>
    log_get l' = Some (case log_get l of None \<Rightarrow> filePath | Some f \<Rightarrow> f) \<and>
    log_get (log_shutdown l') = None \<and> lg_pool (log_shutdown l') = None \<and> lg_registered (log_shutdown l') = []"
  using log_reach_inv[OF assms]
  by (auto simp: log_inv_def step_simps log_get_def Let_def split: if_splits option.splits)

end
