(* ===== verification/Spec2Isabelle.thy ===== *)
theory Spec2Isabelle
  imports SpscConcurrent ExchangeRuntime TradingRuntime MatchingDemo FpgaEthernet Platform
begin

text \<open>
  Verification of openhft-fpga-dpdk, a low-latency trading system in C++ with a hardware Ethernet parser.

  \<^bold>\<open>The system.\<close>  A feed of ITCH messages comes from a file or, through DPDK, from the network.  The trading process turns each message into
  an event, hands it through a lock-free ring to a worker thread, updates a local order book, lets a strategy decide, checks the
  decision against risk limits and sends orders in the OUCH protocol over TLS.  The exchange process accepts TLS connections, cuts
  their streams into OUCH orders, matches them by price and time and answers each.  Everything the two processes do between their
  command line and their end is modelled here; a theory per component, in the order in which they build on each other.

  \<^bold>\<open>Conventions.\<close>  \<open>Prelude\<close> explains the types.  A structure or class is a record, a member function a function on it, an \<^verbatim>\<open>enum\<close> a
  datatype, a machine integer a word of its width wherever it can wrap.  The result \<open>None\<close> of an operation stands for undefined
  behaviour or for not returning; what the code itself reports is a value.  Threads and the network are inductive step relations.
  Operating system, OpenSSL, DPDK, libpcap, libnuma and spdlog are not part of the sources: what their calls return is an
  argument or a component of the state, and no more is assumed of it than its documentation says.  The interfaces between
  components are locales, each interpreted on the definitions that model its implementations.

  \<^bold>\<open>Containers\<close> (\<^verbatim>\<open>common/\<close>, \<^verbatim>\<open>orderbook/software/\<close>)
  \<^item> \<open>SpscRingBuffer\<close>: the ring of \<^verbatim>\<open>spsc_ring_buffer.hpp\<close> with its metrics; locale \<open>bounded_fifo\<close>.
  \<^item> \<open>SpscConcurrent\<close>: the same ring with producer and consumer interleaved instruction by instruction and index loads arbitrarily
    stale; first-in-first-out order and absence of data races in every interleaving.
  \<^item> \<open>FixedHashMap\<close>: the open-addressing map of \<^verbatim>\<open>fixed_hash_map.hpp\<close>, tombstones included; it implements a finite map (locale \<open>keyed_store\<close>).
  \<^item> \<open>PriceLevels\<close>, \<open>OrderPool\<close>, \<open>LevelBitmap\<close>: the intrusive queue of a price level, the order pool (locale \<open>slot_allocator\<close>), the
    occupancy bitmaps and the search for the best level with \<^verbatim>\<open>countl_zero\<close> and \<^verbatim>\<open>countr_zero\<close>.

  \<^bold>\<open>Order book and matching\<close> (\<^verbatim>\<open>orderbook/software/\<close>, \<^verbatim>\<open>sequencer/\<close>, \<^verbatim>\<open>dispatcher/\<close>, \<^verbatim>\<open>position/\<close>, \<^verbatim>\<open>risk/\<close>, \<^verbatim>\<open>gateway/\<close>)
  \<^item> \<open>ArrayOrderBook\<close>: adding, cancelling, reducing, executing and replacing orders refines queues per side and price; \<open>book_inv\<close> relates
    links, level totals, bitmaps, best prices and index to them.
  \<^item> \<open>MatchingEngine\<close>, \<open>MatchingProperties\<close>: \<^verbatim>\<open>submitOrder\<close> implements price-time priority exactly, conserves quantity, always returns, and
    leaves the book uncrossed in every reachable state.
  \<^item> \<open>TradeListeners\<close>, \<open>RiskGateway\<close>: trades to listeners, positions, risk limits and the gateway (locale \<open>execution_sink\<close>).
  \<^item> \<open>MatchingDemo\<close>: \<^verbatim>\<open>apps/matching_engine_demo.cpp\<close> with journal and publisher, and the positions it prints.

  \<^bold>\<open>Feed\<close> (\<^verbatim>\<open>dpdk/\<close>, \<^verbatim>\<open>market_data/\<close>, \<^verbatim>\<open>pipeline/\<close>, \<^verbatim>\<open>fpga/\<close>)
  \<^item> \<open>Wire\<close>: byte order and field access (locale \<open>wire_field\<close>, one interpretation per width and access path).
  \<^item> \<open>PacketReceiver\<close>, \<open>ItchFeed\<close>: Ethernet, IPv4, UDP and ITCH parsers, the receive loop, dispatcher, replay reader and generator.
  \<^item> \<open>BookConsumer\<close>, \<open>Pipeline\<close>: events applied to the book refine an abstract book (\<open>book_step\<close>, \<open>book_run\<close>); the pipeline's two threads deliver
    every accepted event exactly once and in order and stop only when the queue is drained.
  \<^item> \<open>FpgaEthernet\<close>: the register-transfer model of \<^verbatim>\<open>ethernet_parser.sv\<close>, its agreement with the software parser, and \<^verbatim>\<open>blink.v\<close>.

  \<^bold>\<open>Strategy and order entry\<close> (\<^verbatim>\<open>strategy/\<close>, \<^verbatim>\<open>execution/ouch/\<close>)
  \<^item> \<open>Binary64\<close>: rounding to the nearest double (locale \<open>rounding\<close>); exponents are unbounded, which the value ranges of the strategy allow.
  \<^item> \<open>Strategy\<close>: features, linear model and both strategies (locale \<open>trading_strategy\<close>), and the chain from an event to the matching engine.
  \<^item> \<open>OuchProtocol\<close>, \<open>OuchClient\<close>: encoders and decoders with their round trips; TCP, TLS and recording transports (locale \<open>ouch_transport\<close>) and the
    execution sink.

  \<^bold>\<open>Exchange\<close> (\<^verbatim>\<open>exchange/\<close>)
  \<^item> \<open>ExchangeHandler\<close>, \<open>ExchangeServer\<close>: order handler, session map and execution listener; the \<^verbatim>\<open>epoll\<close> server with handshakes, partial reads and writes.
  \<^item> \<open>ServerInvariant\<close>, \<open>ExchangeSystem\<close>: per client, framing, answers, pending output and registration are exact in every reachable state, no resource
    leaks, and orders sent by the client of \<open>OuchClient\<close> are the orders the engine executes.

  \<^bold>\<open>Processes\<close> (\<^verbatim>\<open>apps/\<close>, \<^verbatim>\<open>tools/\<close>, \<^verbatim>\<open>logging/\<close>)
  \<^item> \<open>RuntimeConfig\<close>: the command lines; the accepted configurations are exactly the well-formed ones.
  \<^item> \<open>ExchangeRuntime\<close>: the exchange process from start to shutdown.
  \<^item> \<open>ReplayRuntime\<close>, \<open>TradingRuntime\<close>: the trading process on a replay file and on DPDK, in every interleaving of its threads, with the whole chain from the
    bytes of the feed to the bytes of the orders.
  \<^item> \<open>Platform\<close>: the ITCH sender, the capture reader, NUMA memory, thread pinning and the logger.

  \<^bold>\<open>Bounds and termination.\<close>  Loops are structural or have a termination measure.  Two may run for ever and are partial functions into
  \<open>option\<close>: the matching loop, proved to return for every engine in its invariant, and the dispatch loop, proved to drain a finite
  queue.  Lists of results of system calls bound what the environment does in one call; every theorem holds for all such lists,
  and one that claims progress says which results it needs.  The capacities are those of the sources (100000 price levels, 100000 pool
  slots, 4096 queue slots, 32 packets in a burst); where a theorem excludes the wrap-around of a 64-bit sequence number it says so.

  \<^bold>\<open>What the theorems reveal.\<close>  Several are about behaviour that the code can hardly intend, each with the inputs that cause it: prices outside the
  level array, orders of quantity zero, a level total that \<^verbatim>\<open>reduceOrder\<close> does not update, the overflow of the order value, lengths of
  packets taken on trust, symbols missing in intents, an order executed but not answered, events dropped by the replay, and a beat
  lost by the hardware parser.

  \<^bold>\<open>Not modelled.\<close>  The tests and benchmarks, which drive the components above and hold no behaviour of the system; build files and the FPGA tool's
  project files.  Of the modelled files: text printed to the console and the receiver's rate report, which nothing reads; the
  listing of DPDK ports, for the same reason; the effect of pinning on scheduling, since every interleaving is allowed anyway; constructors and
  destructors that only store or release, except where a resource is at stake; and memory orderings weaker than those argued in
  \<open>SpscConcurrent\<close>, where acquire and release are interpreted as arbitrarily delayed views of the other thread's index.
\<close>

end
